(* ===== verification/Prelude.thy ===== *)
theory Prelude
  imports Main "HOL-Library.Word"
begin

text \<open>
  Shared vocabulary of the development. Bytes of the C program are values of type
  \<^typ>\<open>char\<close> (256 values), byte ranges given by a pointer and a length are lists of them.
  A \<^verbatim>\<open>int64_t\<close> is a \<^typ>\<open>64 word\<close> read through \<^const>\<open>sint\<close>; \<^verbatim>\<open>size_t\<close> counts are
  \<^typ>\<open>nat\<close> with the wrap-around modulo \<open>2 ^ 64\<close> written out where the code can reach it.
  Everything that ends the process or leaves defined behaviour is a value of \<open>fault\<close>,
  carried by the left summand of a result.
\<close>

section \<open>Faults and results\<close>

text \<open>
  The ways a run of the C code stops being a normal run: the three exit macros of
  \<^verbatim>\<open>aids.h\<close>, and undefined behaviour (access outside an object, a null pointer
  dereference, signed overflow, use or release of memory that is not allocated). \<open>OutOfFuel\<close> belongs to
  the model only; every fuelled definition comes with a lemma that excludes it.
\<close>

datatype fault =
    Unimplemented
  | Unreachable
  | Panic
  | OutOfBounds
  | NullDeref
  | SignedOverflow
  | UseAfterFree
  | OutOfFuel

type_synonym 'a res = "fault + 'a"

definition rbind :: "'e + 'a \<Rightarrow> ('a \<Rightarrow> 'e + 'b) \<Rightarrow> 'e + 'b" where
  "rbind r f = (case r of Inl e \<Rightarrow> Inl e | Inr x \<Rightarrow> f x)"

lemma rbind_Inl [simp]: "rbind (Inl e) f = Inl e"
  by (simp add: rbind_def)

lemma rbind_Inr [simp]: "rbind (Inr x) f = f x"
  by (simp add: rbind_def)

lemma rbind_eq_Inr_iff: "rbind r f = Inr y \<longleftrightarrow> (\<exists>x. r = Inr x \<and> f x = Inr y)"
  by (cases r) auto

lemma rbind_eq_Inl_iff: "rbind r f = Inl e \<longleftrightarrow> r = Inl e \<or> (\<exists>x. r = Inr x \<and> f x = Inl e)"
  by (cases r) auto

lemma rbind_cong [fundef_cong]:
  "r = r' \<Longrightarrow> (\<And>x. r' = Inr x \<Longrightarrow> f x = g x) \<Longrightarrow> rbind r f = rbind r' g"
  by (cases r') auto

section \<open>Signed 64-bit integers\<close>

type_synonym int64 = "64 word"

abbreviation INT64_MAX :: int where
  "INT64_MAX \<equiv> 9223372036854775807"

abbreviation INT64_MIN :: int where
  "INT64_MIN \<equiv> - 9223372036854775808"

definition in_int64 :: "int \<Rightarrow> bool" where
  "in_int64 x \<longleftrightarrow> INT64_MIN \<le> x \<and> x \<le> INT64_MAX"

abbreviation SIZE_MOD :: nat where
  "SIZE_MOD \<equiv> 18446744073709551616"

definition int64_of :: "int \<Rightarrow> int64 res" where
  \<comment> \<open>the value of a signed expression; a result outside the type is undefined behaviour\<close>
  "int64_of x = (if in_int64 x then Inr (word_of_int x) else Inl SignedOverflow)"

definition size_sub :: "nat \<Rightarrow> nat \<Rightarrow> nat" where
  \<comment> \<open>unsigned subtraction on \<^verbatim>\<open>size_t\<close>\<close>
  "size_sub a b = (if b \<le> a then a - b else SIZE_MOD + a - b)"

definition c_div :: "int \<Rightarrow> int \<Rightarrow> int" where
  \<comment> \<open>C division truncates towards zero\<close>
  "c_div a b = sgn a * sgn b * (\<bar>a\<bar> div \<bar>b\<bar>)"

lemma sint_in_int64 [simp]: "in_int64 (sint (w :: int64))"
  using sint_range_size [of w] by (simp add: in_int64_def word_size)

lemma sint_word_of_int64 [simp]: "in_int64 x \<Longrightarrow> sint (word_of_int x :: int64) = x"
  by (simp add: in_int64_def int_word_sint)

lemma word_of_int_sint64 [simp]: "(word_of_int (sint w) :: int64) = w"
  by simp

lemma sint64_inject: "sint (a :: int64) = sint b \<longleftrightarrow> a = b"
  by (metis word_of_int_sint64)

lemma int64_of_sint [simp]: "int64_of (sint (w :: int64)) = Inr w"
  by (simp add: int64_of_def)

lemma int64_of_Inr: "int64_of x = Inr w \<Longrightarrow> sint w = x"
  by (auto simp: int64_of_def split: if_splits)

lemma size_sub_le [simp]: "b \<le> a \<Longrightarrow> size_sub a b = a - b"
  by (simp add: size_sub_def)

lemma c_div_nonneg: "0 \<le> a \<Longrightarrow> 0 < b \<Longrightarrow> c_div a b = a div b"
  by (cases "a = 0") (auto simp: c_div_def sgn_if)

section \<open>Lists, bytes and little-endian numbers\<close>

named_theorems codec_simps \<open>rewrite rules that run a decoder on an encoded prefix\<close>

fun le_bytes :: "nat \<Rightarrow> nat \<Rightarrow> char list" where
  "le_bytes 0 n = []"
| "le_bytes (Suc k) n = char_of (n mod 256) # le_bytes k (n div 256)"

fun le_val :: "char list \<Rightarrow> nat" where
  "le_val [] = 0"
| "le_val (c # cs) = of_char c + 256 * le_val cs"

lemma length_le_bytes [simp]: "length (le_bytes k n) = k"
  by (induction k arbitrary: n) auto

lemma le_val_le_bytes: "le_val (le_bytes k n) = n mod 256 ^ k"
proof (induction k arbitrary: n)
  case (Suc k)
  have "n mod (256 * 256 ^ k) = 256 * (n div 256 mod 256 ^ k) + n mod 256"
    by (rule mod_mult2_eq)
  then show ?case by (simp add: Suc.IH)
qed simp

lemma le_val_less: "le_val cs < 256 ^ length cs"
proof (induction cs)
  case (Cons c cs)
  have c: "(of_char c :: nat) < 256"
    using of_char_of [of "of_char c :: nat"] mod_less_divisor [of 256 "of_char c :: nat"] by simp
  have "d + 256 * v < 256 * Suc v" if "d < 256" for d v :: nat
    using that by simp
  from this [OF c] have "of_char c + 256 * le_val cs < 256 * Suc (le_val cs)" .
  also have "\<dots> \<le> 256 * 256 ^ length cs"
    using Cons.IH by (intro mult_le_mono2) simp
  finally show ?case by simp
qed simp

lemma take_length_append [codec_simps]: "length xs = n \<Longrightarrow> take n (xs @ ys) = xs"
  by simp

lemma drop_length_append [codec_simps]: "length xs = n \<Longrightarrow> drop n (xs @ ys) = ys"
  by simp

abbreviation NUL :: char where
  "NUL \<equiv> CHR 0x00"

abbreviation CR :: char where
  "CR \<equiv> CHR 0x0D"

abbreviation LF :: char where
  "LF \<equiv> CHR 0x0A"

lemma map_nth_upt_eq: "length xs = n \<Longrightarrow> map (\<lambda>i. xs ! i) [0..<n] = xs"
  using map_nth [of xs] by simp

lemma nth_mod_shift_less: "0 < c \<Longrightarrow> (h + i) mod c < (c :: nat)"
  by simp

lemma mod_shift_le:
  assumes "(h + i) mod c = (h + j) mod c" and "i \<le> j" and "j < (c :: nat)"
  shows "i = j"
proof -
  have "c dvd (h + j) - (h + i)"
    using assms(1,2) mod_eq_dvd_iff_nat [of "h + i" "h + j" c] by simp
  then have "c dvd j - i" by simp
  with assms(2,3) show ?thesis
    by (auto dest: dvd_imp_le)
qed

lemma mod_shift_inj:
  "(h + i) mod c = (h + j) mod c \<Longrightarrow> i < c \<Longrightarrow> j < (c :: nat) \<Longrightarrow> i = j"
  using mod_shift_le [of h i c j] mod_shift_le [of h j c i] by (metis nle_le)

end
