(* ===== verification/Ring.thy ===== *)
theory Ring
  imports Prelude
begin

text \<open>
  The fixed-capacity ring buffer of \<^verbatim>\<open>ring.c\<close> and the bounded queue it implements. The
  record keeps the fields of \<^verbatim>\<open>struct RingBuf\<close>; the flexible array is a list of element slots,
  and both accesses to it are checked against the allocated slots. The locale \<open>bounded_queue\<close> is
  the contract the channels rely on: it is interpreted on the ring buffer operations, and the
  first-in first-out behaviour of every run of pushes and pops is proved in it once.
\<close>

section \<open>The ring buffer\<close>

record 'a ringbuf =
  head :: nat
  tail :: nat
  rlen :: nat
  cap :: nat
  slots :: "'a option list"

definition ringbuf_create :: "nat \<Rightarrow> 'a ringbuf" where
  "ringbuf_create c = \<lparr>head = 0, tail = 0, rlen = 0, cap = c, slots = replicate c None\<rparr>"

definition ringbuf_push :: "'a ringbuf \<Rightarrow> 'a \<Rightarrow> (bool \<times> 'a ringbuf) res" where
  "ringbuf_push b elem =
     (if rlen b \<ge> cap b then Inr (False, b)
      else if tail b < length (slots b)
      then Inr (True, b\<lparr>slots := (slots b)[tail b := Some elem], rlen := rlen b + 1,
                        tail := (tail b + 1) mod cap b\<rparr>)
      else Inl OutOfBounds)"

definition ringbuf_pop :: "'a ringbuf \<Rightarrow> ('a option \<times> 'a ringbuf) res" where
  \<comment> \<open>\<open>None\<close> is the return value \<^verbatim>\<open>false\<close>; \<open>Some x\<close> is \<^verbatim>\<open>true\<close> with \<open>x\<close> copied out\<close>
  "ringbuf_pop b =
     (if rlen b = 0 then Inr (None, b)
      else if head b < length (slots b)
      then Inr (slots b ! head b, b\<lparr>rlen := rlen b - 1, head := (head b + 1) mod cap b\<rparr>)
      else Inl OutOfBounds)"

definition ringbuf_is_full :: "'a ringbuf \<Rightarrow> bool" where
  "ringbuf_is_full b \<longleftrightarrow> rlen b \<ge> cap b"

definition ringbuf_is_empty :: "'a ringbuf \<Rightarrow> bool" where
  "ringbuf_is_empty b \<longleftrightarrow> rlen b = 0"

section \<open>The queue contract\<close>

datatype 'a qop = Push 'a | Pop

fun queue_run ::
  "('q \<Rightarrow> 'a \<Rightarrow> (bool \<times> 'q) res) \<Rightarrow> ('q \<Rightarrow> ('a option \<times> 'q) res) \<Rightarrow> 'q \<Rightarrow> 'a qop list \<Rightarrow>
   ('q \<times> 'a list \<times> 'a list) res" where
  \<comment> \<open>runs the operations and collects the accepted and the popped elements, oldest first\<close>
  "queue_run psh pp q [] = Inr (q, [], [])"
| "queue_run psh pp q (Push x # ops) =
     rbind (psh q x) (\<lambda>(ok, q'). rbind (queue_run psh pp q' ops) (\<lambda>(r, acc, out).
       Inr (r, (if ok then x # acc else acc), out)))"
| "queue_run psh pp q (Pop # ops) =
     rbind (pp q) (\<lambda>(x, q'). rbind (queue_run psh pp q' ops) (\<lambda>(r, acc, out).
       Inr (r, acc, (case x of None \<Rightarrow> out | Some y \<Rightarrow> y # out))))"

locale bounded_queue =
  fixes new :: "nat \<Rightarrow> 'q"
    and push :: "'q \<Rightarrow> 'a \<Rightarrow> (bool \<times> 'q) res"
    and pop :: "'q \<Rightarrow> ('a option \<times> 'q) res"
    and limit :: "'q \<Rightarrow> nat"
    and content :: "'q \<Rightarrow> 'a list"
    and invar :: "'q \<Rightarrow> bool"
  assumes new_ok: "invar (new c) \<and> content (new c) = [] \<and> limit (new c) = c"
    and push_full: "invar q \<Longrightarrow> limit q \<le> length (content q) \<Longrightarrow> push q x = Inr (False, q)"
    and push_room: "invar q \<Longrightarrow> length (content q) < limit q \<Longrightarrow>
      \<exists>q'. push q x = Inr (True, q') \<and> invar q' \<and> content q' = content q @ [x] \<and> limit q' = limit q"
    and pop_none: "invar q \<Longrightarrow> content q = [] \<Longrightarrow> pop q = Inr (None, q)"
    and pop_some: "invar q \<Longrightarrow> content q = x # xs \<Longrightarrow>
      \<exists>q'. pop q = Inr (Some x, q') \<and> invar q' \<and> content q' = xs \<and> limit q' = limit q"
    and bounded: "invar q \<Longrightarrow> length (content q) \<le> limit q"
begin

lemma run_push:
  assumes "invar q"
  obtains ok q' where "push q x = Inr (ok, q')" "invar q'" "limit q' = limit q"
    "content q' = content q @ (if ok then [x] else [])"
  using push_full [OF assms, of x] push_room [OF assms, of x] assms
  by (cases "length (content q) < limit q") (auto simp: not_less)

lemma run_pop:
  assumes "invar q"
  obtains y q' where "pop q = Inr (y, q')" "invar q'" "limit q' = limit q"
    "content q = (case y of None \<Rightarrow> [] | Some x \<Rightarrow> [x]) @ content q'"
proof (cases "content q")
  case Nil
  with pop_none [OF assms] assms show ?thesis by (auto intro: that)
next
  case (Cons x xs)
  with pop_some [OF assms Cons] show ?thesis by (auto intro: that)
qed

lemma run_fifo:
  "invar q \<Longrightarrow> \<exists>r acc out. queue_run push pop q ops = Inr (r, acc, out) \<and> invar r \<and>
     limit r = limit q \<and> out @ content r = content q @ acc"
proof (induction ops arbitrary: q)
  case (Cons op ops)
  show ?case
  proof (cases op)
    case (Push x)
    obtain ok q' where p: "push q x = Inr (ok, q')" "invar q'" "limit q' = limit q"
        "content q' = content q @ (if ok then [x] else [])"
      using run_push [OF Cons.prems, where x = x] .
    then obtain r acc out where "queue_run push pop q' ops = Inr (r, acc, out)" "invar r"
        "limit r = limit q'" "out @ content r = content q' @ acc"
      using Cons.IH by blast
    with p Push show ?thesis by auto
  next
    case Pop
    obtain y q' where p: "pop q = Inr (y, q')" "invar q'" "limit q' = limit q"
        "content q = (case y of None \<Rightarrow> [] | Some x \<Rightarrow> [x]) @ content q'"
      using run_pop [OF Cons.prems] .
    then obtain r acc out where "queue_run push pop q' ops = Inr (r, acc, out)" "invar r"
        "limit r = limit q'" "out @ content r = content q' @ acc"
      using Cons.IH by blast
    with p Pop show ?thesis by (auto split: option.splits)
  qed
qed simp

end

section \<open>The ring buffer implements the contract\<close>

definition ring_wf :: "'a ringbuf \<Rightarrow> bool" where
  "ring_wf b \<longleftrightarrow> rlen b \<le> cap b \<and> length (slots b) = cap b \<and> (0 < cap b \<longrightarrow> head b < cap b) \<and>
     tail b = (head b + rlen b) mod cap b \<and>
     (\<forall>i<rlen b. slots b ! ((head b + i) mod cap b) \<noteq> None)"

definition ring_content :: "'a ringbuf \<Rightarrow> 'a list" where
  "ring_content b = map (\<lambda>i. the (slots b ! ((head b + i) mod cap b))) [0..<rlen b]"

lemma length_ring_content [simp]: "length (ring_content b) = rlen b"
  by (simp add: ring_content_def)

lemma ring_create_wf:
  "ring_wf (ringbuf_create c) \<and> ring_content (ringbuf_create c) = [] \<and> cap (ringbuf_create c) = c"
  by (simp add: ring_wf_def ring_content_def ringbuf_create_def)

lemma ring_push_room:
  assumes wf: "ring_wf b" and room: "rlen b < cap b"
  shows "\<exists>b'. ringbuf_push b x = Inr (True, b') \<and> ring_wf b' \<and>
    ring_content b' = ring_content b @ [x] \<and> cap b' = cap b"
proof -
  let ?c = "cap b"
  let ?b = "b\<lparr>slots := (slots b)[tail b := Some x], rlen := rlen b + 1, tail := (tail b + 1) mod ?c\<rparr>"
  have tail: "tail b = (head b + rlen b) mod ?c" and len: "length (slots b) = ?c"
    using wf by (auto simp: ring_wf_def)
  then have tl: "tail b < ?c" using room by simp
  have other: "(head b + i) mod ?c \<noteq> tail b" if "i < rlen b" for i
    using mod_shift_inj [of "head b" i ?c "rlen b"] that room tail by auto
  have slot: "slots ?b ! ((head b + i) mod ?c) =
      (if i < rlen b then slots b ! ((head b + i) mod ?c) else Some x)" if "i \<le> rlen b" for i
    using other [of i] that tl len tail by (cases "i = rlen b") auto
  have "ring_wf ?b"
    using wf room slot by (auto simp: ring_wf_def mod_Suc_eq less_Suc_eq)
  moreover have "ring_content ?b = ring_content b @ [x]"
  proof -
    have "map (\<lambda>i. the (slots ?b ! ((head b + i) mod ?c))) [0..<rlen b] = ring_content b"
      using slot by (auto simp: ring_content_def)
    moreover have "the (slots ?b ! ((head b + rlen b) mod ?c)) = x"
      using slot [of "rlen b"] by simp
    ultimately show ?thesis by (simp add: ring_content_def)
  qed
  ultimately show ?thesis
    using room tl len by (auto simp: ringbuf_push_def)
qed

lemma ring_pop_some:
  assumes wf: "ring_wf b" and c: "ring_content b = x # xs"
  shows "\<exists>b'. ringbuf_pop b = Inr (Some x, b') \<and> ring_wf b' \<and> ring_content b' = xs \<and> cap b' = cap b"
proof -
  let ?c = "cap b"
  let ?b = "b\<lparr>rlen := rlen b - 1, head := (head b + 1) mod ?c\<rparr>"
  obtain n where n: "rlen b = Suc n"
    using c length_ring_content [of b] by (cases "rlen b") auto
  have hd: "head b < ?c" and len: "length (slots b) = ?c" and le: "Suc n \<le> ?c"
    using wf n by (auto simp: ring_wf_def)
  have shift: "((head b + 1) mod ?c + i) mod ?c = (head b + Suc i) mod ?c" for i
    by (simp add: mod_add_left_eq)
  have ns: "slots b ! ((head b + i) mod ?c) \<noteq> None" if "i < Suc n" for i
    using wf n that by (auto simp: ring_wf_def)
  have "slots b ! head b = Some x"
    using c ns [of 0] hd by (auto simp: ring_content_def n upt_conv_Cons simp del: upt_Suc)
  moreover have "slots b ! (Suc (head b + i) mod ?c) \<noteq> None" if "i < n" for i
    using ns [of "Suc i"] that by simp
  then have "ring_wf ?b"
    using wf n shift hd by (auto simp: ring_wf_def)
  moreover have "ring_content ?b = xs"
  proof -
    have "ring_content b = the (slots b ! (head b mod ?c)) #
        map (\<lambda>i. the (slots b ! ((head b + Suc i) mod ?c))) [0..<n]"
      by (simp add: ring_content_def n upt_conv_Cons map_Suc_upt [symmetric] o_def del: upt_Suc map_Suc_upt)
    with c have "xs = map (\<lambda>i. the (slots b ! ((head b + Suc i) mod ?c))) [0..<n]" by simp
    with shift show ?thesis by (simp add: ring_content_def n)
  qed
  ultimately show ?thesis
    using n hd len by (auto simp: ringbuf_pop_def)
qed

interpretation ring: bounded_queue ringbuf_create ringbuf_push ringbuf_pop cap ring_content ring_wf
proof (unfold_locales, goal_cases)
  case (1 c)
  show ?case by (rule ring_create_wf)
next
  case (2 q x)
  then show ?case by (simp add: ringbuf_push_def)
next
  case (3 q x)
  then show ?case by (simp add: ring_push_room)
next
  case (4 q)
  then show ?case using length_ring_content [of q] by (simp add: ringbuf_pop_def)
next
  case (5 q x xs)
  then show ?case by (rule ring_pop_some)
next
  case (6 q)
  then show ?case by (simp add: ring_wf_def)
qed

section \<open>Properties\<close>

text \<open>
  C37: every sequence of pushes and pops on a fresh ring buffer runs inside its memory, never
  holds more than its capacity, and hands the accepted elements back in the order they were
  accepted: what was popped followed by what is still queued is what was accepted.
\<close>

theorem ring_fifo:
  fixes ops :: "'a qop list"
  shows "\<exists>r acc out. queue_run ringbuf_push ringbuf_pop (ringbuf_create c) ops = Inr (r, acc, out) \<and>
     out @ ring_content r = acc \<and> length (ring_content r) \<le> c"
proof -
  have "ring_content (ringbuf_create c :: 'a ringbuf) = []" "cap (ringbuf_create c :: 'a ringbuf) = c"
    using ring_create_wf [of c] by auto
  moreover obtain r acc out where
      "queue_run ringbuf_push ringbuf_pop (ringbuf_create c) ops = Inr (r, acc, out)" "ring_wf r"
      "cap r = cap (ringbuf_create c :: 'a ringbuf)"
      "out @ ring_content r = ring_content (ringbuf_create c) @ acc"
    using ring.run_fifo [of "ringbuf_create c" ops] ring_create_wf [of c] by blast
  ultimately show ?thesis
    using ring.bounded [of r] by auto
qed

text \<open>
  A push is refused exactly when the buffer already holds as many elements as its capacity,
  and a refused push leaves the buffer unchanged.
\<close>

lemma ring_push_refused_iff_full:
  assumes "ring_wf b"
  shows "ringbuf_push b x = Inr (False, b') \<longleftrightarrow> ringbuf_is_full b \<and> b' = b"
  using ring.push_full [OF assms, of x] ring.push_room [OF assms, of x]
  by (cases "rlen b < cap b") (auto simp: ringbuf_is_full_def)

end
