(* ===== verification/Arena.thy ===== *)
theory Arena
  imports Prelude
begin

text \<open>
  The bump allocator of \<^verbatim>\<open>arena.c\<close>. An arena is the chain of its pages, first page first; a
  page keeps the fields \<^verbatim>\<open>size\<close> and \<^verbatim>\<open>current\<close> of the C struct and the number of bytes that were
  really allocated for its data. A block is named by the index of its page, its offset and its
  length. The system allocator is taken to succeed. The lemmas show that blocks stay inside the
  memory of their page and that blocks handed out between two resets never overlap.
\<close>

section \<open>Pages and operations\<close>

record page =
  psize :: nat
  current :: nat
  pbytes :: nat

type_synonym arena = "page list"

record block =
  bpage :: nat
  boff :: nat
  blen :: nat

abbreviation ARENA_PAGE_SIZE :: nat where
  "ARENA_PAGE_SIZE \<equiv> 4096"

definition page_create :: "nat \<Rightarrow> page" where
  "page_create n = \<lparr>psize = n, current = 0, pbytes = n\<rparr>"

definition arena_create :: arena where
  "arena_create = [page_create ARENA_PAGE_SIZE]"

fun arena_alloc_from :: "nat \<Rightarrow> arena \<Rightarrow> nat \<Rightarrow> (block \<times> arena) res" where
  "arena_alloc_from i [] n = Inl NullDeref"
| "arena_alloc_from i (p # ps) n =
     (if size_sub (psize p) (current p) \<ge> n
      then Inr (\<lparr>bpage = i, boff = current p, blen = n\<rparr>, p\<lparr>current := current p + n\<rparr> # ps)
      else if ps = []
      then (let new_arena_size = (if n > ARENA_PAGE_SIZE then n else ARENA_PAGE_SIZE);
                new_arena = (page_create new_arena_size)\<lparr>psize := n, current := n\<rparr>
            in Inr (\<lparr>bpage = Suc i, boff = 0, blen = n\<rparr>, [p, new_arena]))
      else rbind (arena_alloc_from (Suc i) ps n) (\<lambda>(b, ps'). Inr (b, p # ps')))"

definition arena_alloc :: "arena \<Rightarrow> nat \<Rightarrow> (block \<times> arena) res" where
  "arena_alloc a n = arena_alloc_from 0 a n"

fun arena_reset :: "arena \<Rightarrow> arena" where
  "arena_reset [] = []"
| "arena_reset (p # ps) = p\<lparr>current := 0\<rparr> # arena_reset ps"

fun arena_allocs :: "arena \<Rightarrow> nat list \<Rightarrow> (block list \<times> arena) res" where
  "arena_allocs a [] = Inr ([], a)"
| "arena_allocs a (n # ns) =
     rbind (arena_alloc a n) (\<lambda>(b, a'). rbind (arena_allocs a' ns) (\<lambda>(bs, a''). Inr (b # bs, a'')))"

section \<open>Invariants\<close>

definition page_wf :: "page \<Rightarrow> bool" where
  "page_wf p \<longleftrightarrow> current p \<le> psize p \<and> psize p \<le> pbytes p"

definition arena_wf :: "arena \<Rightarrow> bool" where
  "arena_wf a \<longleftrightarrow> a \<noteq> [] \<and> list_all page_wf a"

definition block_in :: "arena \<Rightarrow> block \<Rightarrow> bool" where
  "block_in a b \<longleftrightarrow> bpage b < length a \<and> boff b + blen b \<le> pbytes (a ! bpage b)"

definition block_used :: "arena \<Rightarrow> block \<Rightarrow> bool" where
  \<comment> \<open>the block lies below the bump pointer of its page\<close>
  "block_used a b \<longleftrightarrow> bpage b < length a \<and> boff b + blen b \<le> current (a ! bpage b)"

definition blocks_disjoint :: "block \<Rightarrow> block \<Rightarrow> bool" where
  "blocks_disjoint b c \<longleftrightarrow>
     bpage b \<noteq> bpage c \<or> boff b + blen b \<le> boff c \<or> boff c + blen c \<le> boff b"

lemma blocks_disjoint_sym: "blocks_disjoint b c \<Longrightarrow> blocks_disjoint c b"
  by (auto simp: blocks_disjoint_def)

lemma block_used_in: "arena_wf a \<Longrightarrow> block_used a b \<Longrightarrow> block_in a b"
  by (fastforce simp: arena_wf_def block_used_def block_in_def list_all_length page_wf_def)

text \<open>
  One allocation: the chain stays well-formed and grows at its end only, the bump pointers only
  move up, and the new block starts at or above the old bump pointer of its page.
\<close>

definition alloc_step :: "nat \<Rightarrow> arena \<Rightarrow> nat \<Rightarrow> block \<Rightarrow> arena \<Rightarrow> bool" where
  "alloc_step i a n b a' \<longleftrightarrow>
     arena_wf a' \<and> length a \<le> length a' \<and> blen b = n \<and> i \<le> bpage b \<and>
     (\<forall>j<length a. current (a ! j) \<le> current (a' ! j) \<and> pbytes (a' ! j) = pbytes (a ! j)) \<and>
     bpage b - i < length a' \<and> boff b + n \<le> current (a' ! (bpage b - i)) \<and>
     (bpage b - i < length a \<longrightarrow> current (a ! (bpage b - i)) \<le> boff b)"

lemma alloc_step_Cons:
  assumes "alloc_step (Suc i) ps n b ps'" and "page_wf p"
  shows "alloc_step i (p # ps) n b (p # ps')"
proof -
  obtain d where "bpage b = Suc i + d"
    using assms(1) by (auto simp: alloc_step_def dest: le_Suc_ex)
  with assms show ?thesis
    by (auto simp: alloc_step_def arena_wf_def nth_Cons split: nat.splits)
qed

lemma arena_alloc_from_step:
  "arena_wf a \<Longrightarrow> \<exists>b a'. arena_alloc_from i a n = Inr (b, a') \<and> alloc_step i a n b a'"
proof (induction i a n rule: arena_alloc_from.induct)
  case (2 i p ps n)
  then have wf: "page_wf p" "list_all page_wf ps" by (auto simp: arena_wf_def)
  show ?case
  proof (cases "size_sub (psize p) (current p) \<ge> n")
    case True
    then have "page_wf (p\<lparr>current := current p + n\<rparr>)"
      using wf by (auto simp: page_wf_def)
    then show ?thesis
      using True wf by (auto simp: alloc_step_def arena_wf_def nth_Cons split: nat.splits)
  next
    case full: False
    show ?thesis
    proof (cases "ps = []")
      case True
      with full wf show ?thesis
        by (auto simp: alloc_step_def arena_wf_def page_wf_def page_create_def Let_def)
    next
      case False
      then obtain b ps' where "arena_alloc_from (Suc i) ps n = Inr (b, ps')"
          "alloc_step (Suc i) ps n b ps'"
        using "2.IH" full wf by (auto simp: arena_wf_def)
      with full False show ?thesis
        using alloc_step_Cons [OF _ wf(1)] by auto
    qed
  qed
qed (simp add: arena_wf_def)

lemma arena_alloc_step:
  assumes "arena_wf a"
  obtains b a' where "arena_alloc a n = Inr (b, a')" "alloc_step 0 a n b a'"
  using arena_alloc_from_step [OF assms, of 0 n] that by (auto simp: arena_alloc_def)

lemma alloc_step_used:
  "alloc_step 0 a n b a' \<Longrightarrow> arena_wf a' \<and> block_used a' b \<and> (\<forall>c. block_used a c \<longrightarrow>
     block_used a' c \<and> blocks_disjoint b c)"
  by (fastforce simp: alloc_step_def block_used_def blocks_disjoint_def)

lemma arena_allocs_ok:
  "arena_wf a \<Longrightarrow> \<exists>bs a'. arena_allocs a ns = Inr (bs, a') \<and> arena_wf a' \<and> map blen bs = ns \<and>
     (\<forall>b \<in> set bs. block_used a' b) \<and> (\<forall>c. block_used a c \<longrightarrow> block_used a' c) \<and>
     (\<forall>b \<in> set bs. \<forall>c. block_used a c \<longrightarrow> blocks_disjoint b c) \<and>
     sorted_wrt blocks_disjoint bs"
proof (induction ns arbitrary: a)
  case (Cons n ns)
  obtain b a1 where b: "arena_alloc a n = Inr (b, a1)" and st: "alloc_step 0 a n b a1"
    using arena_alloc_step [OF Cons.prems] .
  note used = alloc_step_used [OF st]
  obtain bs a2 where r: "arena_allocs a1 ns = Inr (bs, a2)" "arena_wf a2" "map blen bs = ns"
      "\<forall>b \<in> set bs. block_used a2 b" "\<forall>c. block_used a1 c \<longrightarrow> block_used a2 c"
      "\<forall>b \<in> set bs. \<forall>c. block_used a1 c \<longrightarrow> blocks_disjoint b c" "sorted_wrt blocks_disjoint bs"
    using Cons.IH used by blast
  have "blocks_disjoint b c" if "c \<in> set bs" for c
    using r(6) that used blocks_disjoint_sym by blast
  moreover have "blen b = n" using st by (simp add: alloc_step_def)
  ultimately show ?case using b r used by auto
qed simp

lemma arena_wf_create [simp]: "arena_wf arena_create"
  by (simp add: arena_wf_def arena_create_def page_wf_def page_create_def)

lemma arena_reset_map: "arena_reset a = map (\<lambda>p. p\<lparr>current := 0\<rparr>) a"
  by (induction a) auto

lemma arena_wf_reset: "arena_wf a \<Longrightarrow> arena_wf (arena_reset a)"
  by (auto simp: arena_wf_def arena_reset_map list_all_iff page_wf_def)

section \<open>Properties\<close>

text \<open>
  C38: any sequence of allocations from a well-formed arena (a fresh one, one in use or one that
  was reset) succeeds, each block has the requested length and lies inside the bytes of its
  page, and the blocks are pairwise disjoint.
\<close>

theorem arena_blocks_disjoint:
  assumes "arena_wf a"
  shows "\<exists>bs a'. arena_allocs a ns = Inr (bs, a') \<and> arena_wf a' \<and> map blen bs = ns \<and>
    list_all (block_in a') bs \<and> sorted_wrt blocks_disjoint bs"
  using arena_allocs_ok [OF assms, of ns] block_used_in by (fastforce simp: list_all_iff)

theorem arena_blocks_disjoint_witness:
  "\<exists>bs a'. arena_allocs (arena_reset arena_create) [4000, 200, 5000] = Inr (bs, a') \<and> arena_wf a' \<and>
    map blen bs = [4000, 200, 5000] \<and> list_all (block_in a') bs \<and> sorted_wrt blocks_disjoint bs"
  by (rule arena_blocks_disjoint) (simp add: arena_wf_reset)

text \<open>
  A page added on overflow records the requested size as its capacity, so although at least
  4096 bytes were allocated for it, the next non-empty request always adds another page.
\<close>

theorem arena_overflow_page_is_full:
  assumes "size_sub (psize p) (current p) < n" and "0 < m" and "size_sub (psize p) (current p) < m"
  shows "\<exists>b a q. arena_alloc [p] n = Inr (b, a) \<and> arena_alloc a m = Inr (q, a @ [
    (page_create (max m ARENA_PAGE_SIZE))\<lparr>psize := m, current := m\<rparr>])"
  using assms by (auto simp: arena_alloc_def Let_def max_def)

theorem arena_overflow_page_is_full_witness:
  "\<exists>b a q. arena_alloc [\<lparr>psize = 4096, current = 4090, pbytes = 4096\<rparr>] 16 = Inr (b, a) \<and>
     arena_alloc a 8 = Inr (q, a @ [(page_create (max 8 ARENA_PAGE_SIZE))\<lparr>psize := 8, current := 8\<rparr>])"
  by (rule arena_overflow_page_is_full) simp_all

end
