(* ===== verification/Aids.thy ===== *)
theory Aids
  imports Prelude
begin

text \<open>
  The string and number helpers of \<^verbatim>\<open>aids.c\<close>: case-insensitive comparison, the parsing of
  decimal integers through the C library's \<^verbatim>\<open>strtoll\<close> family (whose documented scanning
  rules are written out), and the decimal printing that \<^verbatim>\<open>"%" PRId64\<close> performs. The main
  facts are that comparison is equality up to ASCII case and that every 64-bit integer is
  read back from its printed form.
\<close>

section \<open>Case-insensitive comparison\<close>

definition ascii_lower :: "char \<Rightarrow> char" where
  "ascii_lower c =
     (let n = (of_char c :: nat) in if 65 \<le> n \<and> n \<le> 90 then char_of (n + 32) else c)"

fun str_eq_ci_loop :: "char list \<Rightarrow> char list \<Rightarrow> bool" where
  "str_eq_ci_loop (a # as) (b # bs) =
     (if ascii_lower a \<noteq> ascii_lower b then False else str_eq_ci_loop as bs)"
| "str_eq_ci_loop _ _ = True"

definition str_eq_ci :: "char list \<Rightarrow> char list \<Rightarrow> bool" where
  "str_eq_ci a b = (if length a \<noteq> length b then False else str_eq_ci_loop a b)"

section \<open>Scanning decimal numbers\<close>

definition is_space :: "char \<Rightarrow> bool" where
  "is_space c \<longleftrightarrow> (let n = (of_char c :: nat) in n = 32 \<or> (9 \<le> n \<and> n \<le> 13))"

definition is_digit :: "char \<Rightarrow> bool" where
  "is_digit c \<longleftrightarrow> (let n = (of_char c :: nat) in 48 \<le> n \<and> n \<le> 57)"

definition digit_val :: "char \<Rightarrow> nat" where
  "digit_val c = of_char c - 48"

fun scan_digits :: "nat \<Rightarrow> char list \<Rightarrow> nat \<times> nat" where
  "scan_digits acc [] = (acc, 0)"
| "scan_digits acc (c # cs) =
     (if is_digit c
      then (let (v, n) = scan_digits (acc * 10 + digit_val c) cs in (v, Suc n))
      else (acc, 0))"

text \<open>
  What \<^verbatim>\<open>strtol\<close> and its relatives do before they convert: skip white space, take one
  optional sign, take the longest run of digits. The result holds the sign, the magnitude,
  the offset that \<^verbatim>\<open>endptr\<close> receives (0 when there is no digit) and the offset of the
  character that stopped the scan, which the library has read.
\<close>

record strtol_scan_result =
  sc_neg :: bool
  sc_mag :: nat
  sc_end :: nat
  sc_stop :: nat

definition scan_ws :: "char list \<Rightarrow> char list" where
  "scan_ws b = takeWhile is_space b"

definition scan_rest :: "char list \<Rightarrow> char list" where
  "scan_rest b = drop (length (scan_ws b)) b"

definition scan_sign :: "char list \<Rightarrow> char list" where
  "scan_sign r = (if r \<noteq> [] \<and> (hd r = CHR ''-'' \<or> hd r = CHR ''+'') then [hd r] else [])"

definition strtol_scan :: "char list \<Rightarrow> strtol_scan_result" where
  "strtol_scan s =
     (let r = scan_rest s;
          sg = scan_sign r;
          i = length (scan_ws s) + length sg;
          (v, n) = scan_digits 0 (drop (length sg) r)
      in if n = 0 then \<lparr>sc_neg = False, sc_mag = 0, sc_end = 0, sc_stop = i\<rparr>
         else \<lparr>sc_neg = (sg = ''-''), sc_mag = v, sc_end = i + n, sc_stop = i + n\<rparr>)"

definition strtoll_value :: "strtol_scan_result \<Rightarrow> int \<times> bool" where
  \<comment> \<open>the clamped value and whether \<^verbatim>\<open>errno\<close> is set to \<^verbatim>\<open>ERANGE\<close>\<close>
  "strtoll_value sc =
     (let v = (if sc_neg sc then - int (sc_mag sc) else int (sc_mag sc))
      in if v > INT64_MAX then (INT64_MAX, True)
         else if v < INT64_MIN then (INT64_MIN, True)
         else (v, False))"

definition strtoull_value :: "strtol_scan_result \<Rightarrow> nat" where
  \<comment> \<open>an out-of-range magnitude gives the largest value; a minus sign negates modulo \<open>2 ^ 64\<close>\<close>
  "strtoull_value sc =
     (if sc_mag sc \<ge> SIZE_MOD then SIZE_MOD - 1
      else if sc_neg sc then (SIZE_MOD - sc_mag sc) mod SIZE_MOD
      else sc_mag sc)"

definition parse_int64 :: "char list \<Rightarrow> int64 option" where
  "parse_int64 str =
     (let len = length str in
      if len = 0 \<or> len > 20 then None
      else
        (let buf = str @ [NUL];
             sc = strtol_scan buf;
             (value, erange) = strtoll_value sc
         in if sc_end sc \<noteq> len \<or> erange then None else Some (word_of_int value)))"

definition parse_long :: "char list \<Rightarrow> bool \<times> int64" where
  \<comment> \<open>the argument is the C string without its terminator; the value is stored even on failure\<close>
  "parse_long str =
     (let sc = strtol_scan (str @ [NUL])
      in (sc_end sc \<noteq> 0, word_of_int (fst (strtoll_value sc))))"

section \<open>Printing decimal numbers\<close>

fun show_nat :: "nat \<Rightarrow> char list" where
  "show_nat n =
     (if n < 10 then [char_of (48 + n)] else show_nat (n div 10) @ [char_of (48 + n mod 10)])"

declare show_nat.simps [simp del]

definition show_int :: "int \<Rightarrow> char list" where
  "show_int i = (if i < 0 then CHR ''-'' # show_nat (nat (- i)) else show_nat (nat i))"

section \<open>Facts\<close>

lemma str_eq_ci_loop_iff:
  "length a = length b \<Longrightarrow> str_eq_ci_loop a b \<longleftrightarrow> map ascii_lower a = map ascii_lower b"
  by (induction a b rule: str_eq_ci_loop.induct) auto

lemma str_eq_ci_iff: "str_eq_ci a b \<longleftrightarrow> map ascii_lower a = map ascii_lower b"
proof (cases "length a = length b")
  case True
  then show ?thesis by (simp add: str_eq_ci_def str_eq_ci_loop_iff)
next
  case False
  then show ?thesis by (auto simp: str_eq_ci_def dest: arg_cong [where f = length])
qed

lemma str_eq_ci_refl [simp]: "str_eq_ci a a"
  by (simp add: str_eq_ci_iff)

lemma digit_char [simp]:
  assumes "d < 10"
  shows "is_digit (char_of (48 + d))" and "digit_val (char_of (48 + d)) = d"
  using assms by (simp_all add: is_digit_def digit_val_def Let_def)

lemma scan_digits_append:
  assumes "list_all is_digit ds"
  shows "scan_digits acc (ds @ rest) =
    (let (v, n) = scan_digits (fst (scan_digits acc ds)) rest in (v, length ds + n))"
  using assms by (induction ds arbitrary: acc) (auto simp: Let_def split: prod.splits)

lemma scan_digits_stop:
  "rest = [] \<or> \<not> is_digit (hd rest) \<Longrightarrow> scan_digits acc rest = (acc, 0)"
  by (cases rest) auto

lemma list_all_show_nat: "list_all is_digit (show_nat n)"
proof (induction n rule: show_nat.induct)
  case (1 n)
  then show ?case
    by (subst show_nat.simps) (simp add: list_all_iff)
qed

lemma show_nat_nonempty [simp]: "show_nat n \<noteq> []"
  by (subst show_nat.simps) simp

lemma fst_scan_show_nat:
  "fst (scan_digits acc (show_nat n)) = acc * 10 ^ length (show_nat n) + n"
proof (induction n arbitrary: acc rule: show_nat.induct)
  case (1 n)
  show ?case
  proof (cases "n < 10")
    case True
    then show ?thesis by (simp add: show_nat.simps [of n])
  next
    case False
    have d: "n mod 10 < 10" by simp
    have "fst (scan_digits acc (show_nat n)) =
        (acc * 10 ^ length (show_nat (n div 10)) + n div 10) * 10 + n mod 10"
      using False "1.IH" [OF False, of acc] digit_char [OF d]
      by (simp add: show_nat.simps [of n] scan_digits_append list_all_show_nat Let_def
          split: prod.splits)
    also have "\<dots> = acc * 10 ^ length (show_nat n) + n"
      using False by (simp add: show_nat.simps [of n] algebra_simps)
    finally show ?thesis .
  qed
qed

lemma scan_digits_show_nat:
  assumes "rest = [] \<or> \<not> is_digit (hd rest)"
  shows "scan_digits 0 (show_nat n @ rest) = (n, length (show_nat n))"
  by (simp add: scan_digits_append list_all_show_nat fst_scan_show_nat
      scan_digits_stop [OF assms])

lemma length_show_nat_less: "n < 10 ^ k \<Longrightarrow> 0 < k \<Longrightarrow> length (show_nat n) \<le> k"
proof (induction n arbitrary: k rule: show_nat.induct)
  case (1 n)
  show ?case
  proof (cases "n < 10")
    case True
    with "1.prems" show ?thesis by (simp add: show_nat.simps [of n])
  next
    case False
    then obtain j where k: "k = Suc j" "0 < j"
      using "1.prems" by (cases k; cases "k - 1") auto
    then have "n div 10 < 10 ^ j"
      using "1.prems" by (simp add: less_mult_imp_div_less mult.commute)
    then have "length (show_nat (n div 10)) \<le> j"
      using "1.IH" [OF False] k by simp
    with False k show ?thesis by (simp add: show_nat.simps [of n])
  qed
qed

lemma hd_show_nat: "is_digit (hd (show_nat n))"
  using list_all_show_nat [of n] by (cases "show_nat n") auto

lemma not_digit_chars [simp]:
  "\<not> is_digit NUL" "\<not> is_digit CR" "\<not> is_digit LF" "\<not> is_digit (CHR ''-'')"
  "\<not> is_space (CHR ''-'')"
  by (simp_all add: is_digit_def is_space_def)

lemma digit_not_space: "is_digit c \<Longrightarrow> \<not> is_space c \<and> c \<noteq> CHR ''-'' \<and> c \<noteq> CHR ''+''"
  by (auto simp: is_digit_def is_space_def Let_def)

lemmas scan_simps = scan_ws_def scan_rest_def scan_sign_def

lemma strtol_scan_show_nat:
  assumes "rest = [] \<or> \<not> is_digit (hd rest)"
  shows "strtol_scan (show_nat n @ rest) =
    \<lparr>sc_neg = False, sc_mag = n, sc_end = length (show_nat n), sc_stop = length (show_nat n)\<rparr>"
proof -
  obtain c cs where c: "show_nat n = c # cs"
    using show_nat_nonempty [of n] by (cases "show_nat n") auto
  then have "is_digit c" using hd_show_nat [of n] by simp
  then have "\<not> is_space c \<and> c \<noteq> CHR ''-'' \<and> c \<noteq> CHR ''+''" by (rule digit_not_space)
  then show ?thesis
    using scan_digits_show_nat [OF assms, of n] c by (simp add: strtol_scan_def scan_simps Let_def)
qed

lemma strtol_scan_show_int:
  assumes "rest = [] \<or> \<not> is_digit (hd rest)"
  shows "strtol_scan (show_int i @ rest) =
    \<lparr>sc_neg = (i < 0), sc_mag = nat \<bar>i\<bar>, sc_end = length (show_int i),
     sc_stop = length (show_int i)\<rparr>"
proof (cases "i < 0")
  case True
  then show ?thesis
    using scan_digits_show_nat [OF assms, of "nat (- i)"]
    by (simp add: strtol_scan_def scan_simps show_int_def Let_def)
next
  case False
  then show ?thesis
    using strtol_scan_show_nat [OF assms, of "nat i"] by (simp add: show_int_def)
qed

lemma strtoll_value_int64:
  "in_int64 i \<Longrightarrow> sc_neg sc = (i < 0) \<Longrightarrow> sc_mag sc = nat \<bar>i\<bar> \<Longrightarrow> strtoll_value sc = (i, False)"
  by (auto simp: strtoll_value_def in_int64_def Let_def)

lemma length_show_int64: "in_int64 i \<Longrightarrow> length (show_int i) \<le> 20"
proof -
  assume "in_int64 i"
  then have "nat \<bar>i\<bar> < 10 ^ 19" by (auto simp: in_int64_def nat_less_iff)
  then have "length (show_nat (nat \<bar>i\<bar>)) \<le> 19" by (rule length_show_nat_less) simp
  then show ?thesis by (auto simp: show_int_def abs_if split: if_splits)
qed

lemma show_int_nonempty [simp]: "show_int i \<noteq> []"
  by (simp add: show_int_def)

lemma parse_int64_show_aux: "in_int64 i \<Longrightarrow> parse_int64 (show_int i) = Some (word_of_int i)"
  using length_show_int64 [of i] strtol_scan_show_int [of "[NUL]" i]
  by (simp add: parse_int64_def Let_def strtoll_value_int64)

lemma scan_digits_takeWhile:
  "scan_digits acc s =
     (foldl (\<lambda>a c. a * 10 + digit_val c) acc (takeWhile is_digit s), length (takeWhile is_digit s))"
  by (induction s arbitrary: acc) auto

definition dec_val :: "char list \<Rightarrow> nat" where
  "dec_val ds = foldl (\<lambda>a c. a * 10 + digit_val c) 0 ds"

definition decimal_literal :: "char list \<Rightarrow> bool \<Rightarrow> nat \<Rightarrow> bool" where
  \<comment> \<open>white space, an optional sign and at least one digit, nothing else\<close>
  "decimal_literal s neg v \<longleftrightarrow>
     (\<exists>ws sg ds. s = ws @ sg @ ds \<and> list_all is_space ws \<and> ds \<noteq> [] \<and> list_all is_digit ds \<and>
        dec_val ds = v \<and> (sg = [] \<and> \<not> neg \<or> sg = ''+'' \<and> \<not> neg \<or> sg = ''-'' \<and> neg))"

lemma takeWhile_append_stop:
  "list_all P xs \<Longrightarrow> ys = [] \<or> \<not> P (hd ys) \<Longrightarrow> takeWhile P (xs @ ys) = xs"
  by (induction xs) (auto, cases ys, auto)

lemma strtol_scan_literal:
  assumes "decimal_literal s neg v"
  shows "sc_neg (strtol_scan (s @ [NUL])) = neg \<and> sc_mag (strtol_scan (s @ [NUL])) = v \<and>
    sc_end (strtol_scan (s @ [NUL])) = length s"
proof -
  obtain ws sg ds where s: "s = ws @ sg @ ds" and ws: "list_all is_space ws"
    and ds: "ds \<noteq> []" "list_all is_digit ds" and v: "dec_val ds = v"
    and sg: "sg = [] \<and> \<not> neg \<or> sg = ''+'' \<and> \<not> neg \<or> sg = ''-'' \<and> neg"
    using assms by (auto simp: decimal_literal_def)
  obtain d ds' where d: "ds = d # ds'" "is_digit d"
    using ds by (cases ds) auto
  have nsp: "\<not> is_space (hd (sg @ ds @ [NUL]))"
    using sg d digit_not_space [of d] by (auto simp: is_space_def)
  have tw: "takeWhile is_space (ws @ sg @ ds @ [NUL]) = ws"
    using ws nsp by (intro takeWhile_append_stop) auto
  have dg: "takeWhile is_digit (ds @ [NUL]) = ds"
    using ds by (intro takeWhile_append_stop) auto
  show ?thesis
    using sg d digit_not_space [of d] v dg ds s tw
    by (auto simp: strtol_scan_def scan_simps Let_def scan_digits_takeWhile dec_val_def)
qed

definition scan_run :: "char list \<Rightarrow> char list" where
  "scan_run r = takeWhile is_digit (drop (length (scan_sign r)) r)"

lemma strtol_scan_parts:
  "strtol_scan b =
     (let r = scan_rest b; n = length (scan_ws b) + length (scan_sign r)
      in if scan_run r = [] then \<lparr>sc_neg = False, sc_mag = 0, sc_end = 0, sc_stop = n\<rparr>
         else \<lparr>sc_neg = (scan_sign r = ''-''), sc_mag = dec_val (scan_run r),
               sc_end = n + length (scan_run r), sc_stop = n + length (scan_run r)\<rparr>)"
  by (simp add: strtol_scan_def Let_def scan_digits_takeWhile dec_val_def scan_run_def)

lemma scan_split: "b = scan_ws b @ scan_sign (scan_rest b) @ scan_run (scan_rest b) @
   dropWhile is_digit (drop (length (scan_sign (scan_rest b))) (scan_rest b))"
proof -
  have "b = scan_ws b @ scan_rest b"
    unfolding scan_rest_def scan_ws_def
    using takeWhile_eq_take [of is_space b] append_take_drop_id by metis
  moreover have "r = scan_sign r @ drop (length (scan_sign r)) r" for r
    by (cases r) (auto simp: scan_sign_def)
  ultimately show ?thesis
    by (metis scan_run_def takeWhile_dropWhile_id)
qed

lemma strtol_scan_literal_conv:
  assumes "sc_end (strtol_scan (s @ [NUL])) = length s" and "s \<noteq> []"
  shows "decimal_literal s (sc_neg (strtol_scan (s @ [NUL]))) (sc_mag (strtol_scan (s @ [NUL])))"
proof -
  define b where "b = s @ [NUL]"
  define r where "r = scan_rest b"
  from assms have ne: "scan_run r \<noteq> []"
    and len: "length (scan_ws b @ scan_sign r @ scan_run r) = length s"
    by (auto simp: strtol_scan_parts Let_def b_def [symmetric] r_def [symmetric] split: if_splits)
  have "s @ [NUL] = (scan_ws b @ scan_sign r @ scan_run r) @
      dropWhile is_digit (drop (length (scan_sign r)) r)"
    using scan_split [of b] by (simp add: b_def r_def)
  then have s: "s = scan_ws b @ scan_sign r @ scan_run r"
    using len by (metis append_eq_append_conv)
  have "list_all is_space (scan_ws b)" "list_all is_digit (scan_run r)"
    by (auto simp: scan_ws_def scan_run_def list_all_iff dest: set_takeWhileD)
  moreover have "scan_sign r = [] \<or> scan_sign r = ''+'' \<or> scan_sign r = ''-''"
    by (auto simp: scan_sign_def)
  moreover have "sc_neg (strtol_scan b) = (scan_sign r = ''-'')"
    and "sc_mag (strtol_scan b) = dec_val (scan_run r)"
    using ne by (simp_all add: strtol_scan_parts Let_def r_def)
  ultimately show ?thesis
    unfolding decimal_literal_def b_def [symmetric]
    by (intro exI [of _ "scan_ws b"] exI [of _ "scan_sign r"] exI [of _ "scan_run r"] conjI)
      (use s ne in auto)
qed

section \<open>Properties\<close>

text \<open>
  Every 64-bit integer survives printing with \<^verbatim>\<open>"%" PRId64\<close> and parsing with
  \<^verbatim>\<open>parse_int64\<close>, including the smallest one, whose text fills the 20 characters that the
  parser accepts.
\<close>

theorem parse_int64_show_int: "parse_int64 (show_int (sint v)) = Some v"
  by (simp add: parse_int64_show_aux)

text \<open>
  C40: \<^verbatim>\<open>parse_int64\<close> accepts exactly the decimal literals of at most 20 characters whose
  value fits 64 bits: leading white space and a plus sign are accepted, an empty input,
  trailing bytes, an embedded NUL and an out-of-range value are refused.
\<close>

theorem parse_int64_iff:
  "parse_int64 s = Some w \<longleftrightarrow>
     length s \<le> 20 \<and> (\<exists>neg v. decimal_literal s neg v \<and>
        in_int64 (if neg then - int v else int v) \<and> sint w = (if neg then - int v else int v))"
  (is "?L \<longleftrightarrow> ?R")
proof
  assume L: ?L
  let ?sc = "strtol_scan (s @ [NUL])"
  from L have "s \<noteq> []" "length s \<le> 20" "sc_end ?sc = length s"
    and v: "snd (strtoll_value ?sc) = False" "w = word_of_int (fst (strtoll_value ?sc))"
    by (auto simp: parse_int64_def Let_def split: if_splits prod.splits)
  moreover from v have "in_int64 (if sc_neg ?sc then - int (sc_mag ?sc) else int (sc_mag ?sc))"
    and "fst (strtoll_value ?sc) = (if sc_neg ?sc then - int (sc_mag ?sc) else int (sc_mag ?sc))"
    by (auto simp: strtoll_value_def in_int64_def Let_def split: if_splits)
  ultimately have "decimal_literal s (sc_neg ?sc) (sc_mag ?sc)"
    and "sint w = (if sc_neg ?sc then - int (sc_mag ?sc) else int (sc_mag ?sc))"
    using strtol_scan_literal_conv [of s] v(2) by simp_all
  with \<open>length s \<le> 20\<close> \<open>in_int64 _\<close> show ?R by blast
next
  assume ?R
  then obtain neg v where len: "length s \<le> 20" and lit: "decimal_literal s neg v"
    and i: "in_int64 (if neg then - int v else int v)" "sint w = (if neg then - int v else int v)"
    by blast
  have "s \<noteq> []" using lit by (auto simp: decimal_literal_def)
  moreover have "strtoll_value (strtol_scan (s @ [NUL])) = (sint w, False)"
    using strtol_scan_literal [OF lit] i by (auto simp: strtoll_value_def in_int64_def Let_def)
  ultimately show ?L
    using len strtol_scan_literal [OF lit] by (simp add: parse_int64_def Let_def)
qed

text \<open>
  \<^verbatim>\<open>str_eq_ci\<close> holds exactly when the two byte ranges agree after lower-casing the
  ASCII letters.
\<close>

theorem str_eq_ci_correct: "str_eq_ci a b \<longleftrightarrow> map ascii_lower a = map ascii_lower b"
  by (rule str_eq_ci_iff)

end
