(* ===== verification/Data.thy ===== *)
theory Data
  imports Aids
begin

text \<open>
  The stored data (\<^verbatim>\<open>data.h\<close>, \<^verbatim>\<open>data.c\<close>) and the operating system's clock. A \<^verbatim>\<open>DataString\<close> is its
  byte list. A reading of \<^verbatim>\<open>CLOCK_REALTIME\<close> is a \<open>timespec\<close> that the operating system supplies; it
  is an argument of everything that reads the clock. \<open>clock_ok\<close> states what POSIX documents
  of such a reading, with a bound on the seconds that keeps the milliseconds inside 64 bits.
\<close>

datatype data_type = DATA_STRING

record data_entry =
  expires_at :: "int64 option"
  dtype :: data_type
  dvalue :: "char list"

record timespec =
  tv_sec :: int64
  tv_nsec :: int64

definition clock_ok :: "timespec \<Rightarrow> bool" where
  "clock_ok ts \<longleftrightarrow> 0 \<le> sint (tv_sec ts) \<and> sint (tv_sec ts) < 9223372036854775 \<and>
     0 \<le> sint (tv_nsec ts) \<and> sint (tv_nsec ts) < 1000000000"

definition data_copy_string_arena :: "char list \<Rightarrow> char list" where
  \<comment> \<open>a fresh copy with the same length and bytes\<close>
  "data_copy_string_arena string = take (length string) string"

definition data_string_from_int64 :: "int64 \<Rightarrow> char list" where
  \<comment> \<open>\<^verbatim>\<open>snprintf\<close> writes at most 20 characters into the buffer of 21 bytes and returns the length
     of the untruncated text, which \<^verbatim>\<open>memcpy\<close> then takes from the buffer\<close>
  "data_string_from_int64 value =
     (let text = show_int (sint value); buf = take 20 text; len = length text in take len buf)"

definition data_create_string_entry :: "int64 option \<Rightarrow> char list \<Rightarrow> data_entry" where
  "data_create_string_entry exp str = \<lparr>expires_at = exp, dtype = DATA_STRING, dvalue = str\<rparr>"

definition data_unwrap_string :: "data_entry \<Rightarrow> char list res" where
  \<comment> \<open>a failed \<^verbatim>\<open>assert\<close> aborts\<close>
  "data_unwrap_string entry = (if dtype entry = DATA_STRING then Inr (dvalue entry) else Inl Panic)"

definition data_now_ms :: "timespec \<Rightarrow> int64 res" where
  "data_now_ms ts =
     rbind (int64_of (sint (tv_sec ts) * 1000)) (\<lambda>ms.
       int64_of (sint ms + c_div (sint (tv_nsec ts)) 1000000))"

definition monotonic_now_ms :: "timespec \<Rightarrow> nat" where
  \<comment> \<open>a reading of \<^verbatim>\<open>CLOCK_MONOTONIC\<close> in unsigned arithmetic (the seconds are converted before the product, the
     quotient of the nanoseconds is not negative)\<close>
  "monotonic_now_ms ts =
     unat ((ucast (tv_sec ts) * 1000 + ucast (tv_nsec ts) div 1000000) :: 64 word)"

definition data_is_expired :: "timespec \<Rightarrow> data_entry \<Rightarrow> bool res" where
  "data_is_expired ts entry =
     (case expires_at entry of
        None \<Rightarrow> Inr False
      | Some value \<Rightarrow> rbind (data_now_ms ts) (\<lambda>now. Inr (sint value \<le> sint now)))"

section \<open>Facts used by the store\<close>

definition ms_of :: "timespec \<Rightarrow> int" where
  "ms_of ts = sint (tv_sec ts) * 1000 + sint (tv_nsec ts) div 1000000"

definition expired_at :: "int \<Rightarrow> data_entry \<Rightarrow> bool" where
  "expired_at t entry = (case expires_at entry of None \<Rightarrow> False | Some value \<Rightarrow> sint value \<le> t)"

lemma ms_of_range: "clock_ok ts \<Longrightarrow> 0 \<le> ms_of ts \<and> in_int64 (ms_of ts) \<and> in_int64 (sint (tv_sec ts) * 1000)"
proof -
  assume ok: "clock_ok ts"
  then have "0 \<le> sint (tv_nsec ts) div 1000000" "sint (tv_nsec ts) div 1000000 < 1000"
    by (auto simp: clock_ok_def)
  with ok show ?thesis by (auto simp: clock_ok_def ms_of_def in_int64_def)
qed

lemma monotonic_now_ms_ok:
  assumes "clock_ok ts"
  shows "int (monotonic_now_ms ts) = ms_of ts"
proof -
  have s: "uint (tv_sec ts) = sint (tv_sec ts)" "uint (tv_nsec ts) = sint (tv_nsec ts)"
    using assms by (simp_all add: clock_ok_def uint_sint take_bit_int_eq_self)
  have "uint (ucast (tv_sec ts) * 1000 + ucast (tv_nsec ts) div 1000000 :: 64 word) = ms_of ts"
    using ms_of_range [OF assms] s by (simp add: uint_word_ariths uint_div mod_simps) (simp add: ms_of_def in_int64_def)
  then show ?thesis by (simp add: monotonic_now_ms_def)
qed

lemma data_now_ms_ok:
  assumes "clock_ok ts"
  shows "data_now_ms ts = Inr (word_of_int (ms_of ts))"
proof -
  have r: "in_int64 (ms_of ts)" "in_int64 (sint (tv_sec ts) * 1000)"
    using ms_of_range [OF assms] by auto
  have "sint (word_of_int (sint (tv_sec ts) * 1000) :: int64) = sint (tv_sec ts) * 1000"
    by (rule sint_word_of_int64 [OF r(2)])
  moreover have "c_div (sint (tv_nsec ts)) 1000000 = sint (tv_nsec ts) div 1000000"
    using assms by (simp add: c_div_nonneg clock_ok_def)
  ultimately show ?thesis
    using r unfolding data_now_ms_def int64_of_def ms_of_def by (simp only: if_True rbind_Inr)
qed

lemma data_is_expired_ok: "clock_ok ts \<Longrightarrow> data_is_expired ts e = Inr (expired_at (ms_of ts) e)"
  using ms_of_range [of ts]
  by (simp add: data_is_expired_def expired_at_def data_now_ms_ok split: option.splits)

lemma expired_at_mono: "expired_at t e \<Longrightarrow> t \<le> t' \<Longrightarrow> expired_at t' e"
  by (auto simp: expired_at_def split: option.splits)

lemma data_copy_string [simp]: "data_copy_string_arena s = s"
  by (simp add: data_copy_string_arena_def)

lemma data_type_string [simp]: "dtype e = DATA_STRING"
  by (cases "dtype e") simp

lemma data_unwrap [simp]: "data_unwrap_string e = Inr (dvalue e)"
  by (simp add: data_unwrap_string_def)

lemma data_string_from_int64_eq: "data_string_from_int64 v = show_int (sint v)"
  using length_show_int64 [of "sint v"] by (simp add: data_string_from_int64_def)

section \<open>Properties\<close>

text \<open>
  The decimal text of a 64-bit integer always fits the 21-byte buffer, so that what
  \<^verbatim>\<open>data_string_from_int64\<close> stores is read back by \<^verbatim>\<open>parse_int64\<close> as the same number.
\<close>

lemma data_string_from_int64_parses: "parse_int64 (data_string_from_int64 v) = Some v"
  using parse_int64_show_aux [of "sint v"] by (simp add: data_string_from_int64_eq)

text \<open>
  For a documented reading of the clock the test for expiry is the comparison of the stored
  millisecond with the wall clock rounded down to milliseconds, and once an entry has
  expired it stays expired at every later reading.
\<close>

lemma data_is_expired_monotone:
  assumes "clock_ok ts" and "clock_ok ts'" and "ms_of ts \<le> ms_of ts'"
  shows "data_is_expired ts e =
      Inr (case expires_at e of None \<Rightarrow> False
           | Some v \<Rightarrow> sint v \<le> sint (tv_sec ts) * 1000 + sint (tv_nsec ts) div 1000000) \<and>
    (data_is_expired ts e = Inr True \<longrightarrow> data_is_expired ts' e = Inr True)"
  using assms expired_at_mono [of "ms_of ts" e "ms_of ts'"]
  by (simp add: data_is_expired_ok) (simp add: expired_at_def ms_of_def)

end
