(* ===== verification/Resp.thy ===== *)
theory Resp
  imports Aids
begin

text \<open>
  The wire protocol (\<^verbatim>\<open>resp/parser.c\<close>, \<^verbatim>\<open>resp/serializer.c\<close>, \<^verbatim>\<open>resp/factory.c\<close>). The parser
  reads an array of bytes by index and trusts what it finds there: every read past the array is
  the fault \<open>OutOfBounds\<close>. The serializer writes into an array of a given size without checking
  it; a write past the size is the same fault. A simple string or error is a C string, so the
  serializer stops at its first NUL. Depth of nesting is bounded by fuel, of which the length of the
  input plus one is enough. Arena allocations succeed.
\<close>

section \<open>Values and results\<close>

datatype resp_value =
    RESP_simple_string "char list"
  | RESP_bulk_string "char list"
  | RESP_array "resp_value list"
  | RESP_null
  | RESP_integer int64
  | RESP_simple_error "char list"

datatype parse_code =
    RESP_PARSE_SUCCESS
  | RESP_PARSE_UNKNOWN_DATA_TYPE_MARKER
  | RESP_PARSE_UNEXPECTED_TOKEN
  | RESP_PARSE_EMPTY_INPUT
  | RESP_PARSE_MEMORY_ALLOC_FAILED

text \<open>
  A parser either completes with a value and the next position (\<^verbatim>\<open>RESP_PARSE_SUCCESS\<close>), returns
  early with an error code and the position it reports, or faults.
\<close>

datatype parse_stop = Parse_fault fault | Parse_return parse_code nat

type_synonym 'a parse = "parse_stop + 'a"

section \<open>Parser\<close>

definition peek :: "char list \<Rightarrow> nat \<Rightarrow> char parse" where
  "peek b pos = (if pos < length b then Inr (b ! pos) else Inl (Parse_fault OutOfBounds))"

definition consume_token :: "char \<Rightarrow> char list \<Rightarrow> nat \<Rightarrow> nat parse" where
  "consume_token t b pos =
     rbind (peek b pos) (\<lambda>c.
       if c \<noteq> t then Inl (Parse_return RESP_PARSE_UNEXPECTED_TOKEN pos) else Inr (pos + 1))"

definition consume_crlf :: "char list \<Rightarrow> nat \<Rightarrow> nat parse" where
  "consume_crlf b pos = rbind (consume_token CR b pos) (consume_token LF b)"

fun line_length :: "char list \<Rightarrow> nat parse" where
  \<comment> \<open>the loop up to the first CR or LF\<close>
  "line_length [] = Inl (Parse_fault OutOfBounds)"
| "line_length (c # cs) =
     (if c = CR \<or> c = LF then Inr 0 else rbind (line_length cs) (\<lambda>n. Inr (Suc n)))"

definition copy_bytes :: "char list \<Rightarrow> nat \<Rightarrow> nat \<Rightarrow> char list parse" where
  "copy_bytes b pos n =
     (if pos + n \<le> length b then Inr (take n (drop pos b)) else Inl (Parse_fault OutOfBounds))"

definition parse_line :: "char \<Rightarrow> char list \<Rightarrow> nat \<Rightarrow> (char list \<times> nat) parse" where
  "parse_line marker b pos =
     rbind (consume_token marker b pos) (\<lambda>pos.
     rbind (line_length (drop pos b)) (\<lambda>str_len.
     rbind (copy_bytes b pos str_len) (\<lambda>value.
     rbind (consume_crlf b (pos + str_len)) (\<lambda>pos.
       Inr (value, pos)))))"

definition parse_simple_string :: "char list \<Rightarrow> nat \<Rightarrow> (resp_value \<times> nat) parse" where
  "parse_simple_string b pos =
     rbind (parse_line (CHR ''+'') b pos) (\<lambda>(value, pos). Inr (RESP_simple_string value, pos))"

definition parse_simple_error :: "char list \<Rightarrow> nat \<Rightarrow> (resp_value \<times> nat) parse" where
  "parse_simple_error b pos =
     rbind (parse_line (CHR ''-'') b pos) (\<lambda>(value, pos). Inr (RESP_simple_error value, pos))"

definition scan_number :: "char list \<Rightarrow> nat \<Rightarrow> strtol_scan_result parse" where
  \<comment> \<open>\<^verbatim>\<open>strtoull\<close> and \<^verbatim>\<open>strtoll\<close> read up to and including the character that stops them\<close>
  "scan_number b pos =
     (let sc = strtol_scan (drop pos b) in
      if pos + sc_stop sc < length b then Inr sc else Inl (Parse_fault OutOfBounds))"

definition parse_length :: "char \<Rightarrow> char list \<Rightarrow> nat \<Rightarrow> (nat \<times> nat) parse" where
  "parse_length marker b pos =
     rbind (consume_token marker b pos) (\<lambda>pos.
     rbind (scan_number b pos) (\<lambda>sc.
     rbind (consume_crlf b (pos + sc_end sc)) (\<lambda>pos.
       Inr (strtoull_value sc, pos))))"

definition parse_bulk_string :: "char list \<Rightarrow> nat \<Rightarrow> (resp_value \<times> nat) parse" where
  "parse_bulk_string b pos =
     rbind (parse_length (CHR ''$'') b pos) (\<lambda>(n, pos).
     rbind (copy_bytes b pos n) (\<lambda>value.
     rbind (consume_crlf b (pos + n)) (\<lambda>pos.
       Inr (RESP_bulk_string value, pos))))"

definition parse_integer :: "char list \<Rightarrow> nat \<Rightarrow> (resp_value \<times> nat) parse" where
  "parse_integer b pos =
     rbind (consume_token (CHR '':'') b pos) (\<lambda>pos.
     rbind (scan_number b pos) (\<lambda>sc.
     rbind (consume_crlf b (pos + sc_end sc)) (\<lambda>pos.
       Inr (RESP_integer (word_of_int (fst (strtoll_value sc))), pos))))"

definition parse_null :: "char list \<Rightarrow> nat \<Rightarrow> (resp_value \<times> nat) parse" where
  "parse_null b pos =
     rbind (consume_token (CHR ''_'') b pos) (\<lambda>pos.
     rbind (consume_crlf b pos) (\<lambda>pos. Inr (RESP_null, pos)))"

definition array_slots :: "nat \<Rightarrow> nat" where
  \<comment> \<open>elements of 16 bytes that fit the block that is really allocated for \<open>n\<close> of them\<close>
  "array_slots n = (n * 16) mod SIZE_MOD div 16"

primrec array_loop ::
  "(char list \<Rightarrow> nat \<Rightarrow> (resp_value \<times> nat) parse) \<Rightarrow> char list \<Rightarrow> nat \<Rightarrow> nat \<Rightarrow> nat \<Rightarrow>
     (resp_value list \<times> nat) parse" where
  \<comment> \<open>\<open>room\<close> is the number of slots of the block that are still free\<close>
  "array_loop pv b pos room 0 = Inr ([], pos)"
| "array_loop pv b pos room (Suc n) =
     rbind (pv b pos) (\<lambda>(v, pos).
       if room = 0 then Inl (Parse_fault OutOfBounds)
       else rbind (array_loop pv b pos (room - 1) n) (\<lambda>(vs, pos). Inr (v # vs, pos)))"

definition parse_array ::
  "(char list \<Rightarrow> nat \<Rightarrow> (resp_value \<times> nat) parse) \<Rightarrow> char list \<Rightarrow> nat \<Rightarrow> (resp_value \<times> nat) parse" where
  "parse_array pv b pos =
     rbind (parse_length (CHR ''*'') b pos) (\<lambda>(n, pos).
     rbind (array_loop pv b pos (array_slots n) n) (\<lambda>(vs, pos).
       Inr (RESP_array vs, pos)))"

primrec resp_parse_value :: "nat \<Rightarrow> char list \<Rightarrow> nat \<Rightarrow> (resp_value \<times> nat) parse" where
  "resp_parse_value 0 b pos = Inl (Parse_fault OutOfFuel)"
| "resp_parse_value (Suc fuel) b pos =
     rbind (peek b pos) (\<lambda>c.
       if c = CHR '':'' then parse_integer b pos
       else if c = CHR ''+'' then parse_simple_string b pos
       else if c = CHR ''-'' then parse_simple_error b pos
       else if c = CHR ''$'' then parse_bulk_string b pos
       else if c = CHR ''_'' then parse_null b pos
       else if c = CHR ''*'' then parse_array (resp_parse_value fuel) b pos
       else Inl (Parse_return RESP_PARSE_UNKNOWN_DATA_TYPE_MARKER pos))"

definition resp_parse_input :: "char list \<Rightarrow> (resp_value \<times> nat) parse" where
  "resp_parse_input b = resp_parse_value (Suc (length b)) b 0"

section \<open>Serializer\<close>

definition emit :: "nat \<Rightarrow> char list \<Rightarrow> char list \<Rightarrow> char list res" where
  \<comment> \<open>bytes stored at the current position of a buffer of \<open>cap\<close> bytes\<close>
  "emit cap bs out = (if length out + length bs \<le> cap then Inr (out @ bs) else Inl OutOfBounds)"

definition emit_sprintf :: "nat \<Rightarrow> char list \<Rightarrow> char list \<Rightarrow> char list res" where
  \<comment> \<open>\<^verbatim>\<open>sprintf\<close> also stores a terminator, which the next write replaces\<close>
  "emit_sprintf cap bs out =
     (if length out + length bs + 1 \<le> cap then Inr (out @ bs) else Inl OutOfBounds)"

definition c_string :: "char list \<Rightarrow> char list" where
  \<comment> \<open>the bytes that \<^verbatim>\<open>strlen\<close> counts\<close>
  "c_string s = takeWhile (\<lambda>c. c \<noteq> NUL) s"

definition serialize_null :: "nat \<Rightarrow> char list \<Rightarrow> char list res" where
  "serialize_null cap out = emit cap [CHR ''_'', CR, LF] out"

definition serialize_simple_string :: "nat \<Rightarrow> char list \<Rightarrow> char list \<Rightarrow> char list res" where
  "serialize_simple_string cap s out =
     rbind (emit cap ''+'' out) (\<lambda>out.
     rbind (emit cap (c_string s) out) (emit cap [CR, LF]))"

definition serialize_simple_error :: "nat \<Rightarrow> char list \<Rightarrow> char list \<Rightarrow> char list res" where
  "serialize_simple_error cap s out =
     rbind (emit cap ''-'' out) (\<lambda>out.
     rbind (emit cap (c_string s) out) (emit cap [CR, LF]))"

definition serialize_bulk_string :: "nat \<Rightarrow> char list \<Rightarrow> char list \<Rightarrow> char list res" where
  "serialize_bulk_string cap s out =
     rbind (emit cap ''$'' out) (\<lambda>out.
     rbind (emit_sprintf cap (show_nat (length s)) out) (\<lambda>out.
     rbind (emit cap [CR, LF] out) (\<lambda>out.
     rbind (emit cap s out) (emit cap [CR, LF]))))"

definition serialize_integer :: "nat \<Rightarrow> int64 \<Rightarrow> char list \<Rightarrow> char list res" where
  "serialize_integer cap v out =
     rbind (emit cap '':'' out) (\<lambda>out.
     rbind (emit_sprintf cap (show_int (sint v)) out) (emit cap [CR, LF]))"

fun serialize_value_helper :: "nat \<Rightarrow> resp_value \<Rightarrow> char list \<Rightarrow> char list res"
and serialize_items :: "nat \<Rightarrow> resp_value list \<Rightarrow> char list \<Rightarrow> char list res" where
  "serialize_value_helper cap (RESP_integer v) out = serialize_integer cap v out"
| "serialize_value_helper cap (RESP_simple_string s) out = serialize_simple_string cap s out"
| "serialize_value_helper cap (RESP_simple_error s) out = serialize_simple_error cap s out"
| "serialize_value_helper cap (RESP_bulk_string s) out = serialize_bulk_string cap s out"
| "serialize_value_helper cap RESP_null out = serialize_null cap out"
| "serialize_value_helper cap (RESP_array vs) out =
     rbind (emit cap ''*'' out) (\<lambda>out.
     rbind (emit_sprintf cap (show_nat (length vs)) out) (\<lambda>out.
     rbind (emit cap [CR, LF] out) (serialize_items cap vs)))"
| "serialize_items cap [] out = Inr out"
| "serialize_items cap (v # vs) out =
     rbind (serialize_value_helper cap v out) (serialize_items cap vs)"

definition resp_serialize_value :: "nat \<Rightarrow> resp_value \<Rightarrow> char list res" where
  \<comment> \<open>the bytes in front of the final terminator; their number is the result of the C function\<close>
  "resp_serialize_value cap v =
     rbind (serialize_value_helper cap v []) (\<lambda>out.
       if length out < cap then Inr out else Inl OutOfBounds)"

section \<open>Constructors\<close>

definition resp_create_simple_error_value :: "char list \<Rightarrow> resp_value" where
  "resp_create_simple_error_value value = RESP_simple_error value"

definition resp_create_simple_string_value :: "char list \<Rightarrow> resp_value" where
  "resp_create_simple_string_value value = RESP_simple_string value"

definition resp_create_bulk_string_value :: "nat \<Rightarrow> char list \<Rightarrow> resp_value" where
  \<comment> \<open>\<open>len\<close> bytes from the pointer \<open>str\<close>\<close>
  "resp_create_bulk_string_value len str = RESP_bulk_string (take len str)"

definition resp_create_integer_value :: "int64 \<Rightarrow> resp_value" where
  "resp_create_integer_value value = RESP_integer value"

definition resp_create_null_value :: resp_value where
  "resp_create_null_value = RESP_null"

section \<open>The encoding\<close>

fun resp_enc :: "resp_value \<Rightarrow> char list"
and resp_enc_all :: "resp_value list \<Rightarrow> char list" where
  "resp_enc (RESP_simple_string s) = ''+'' @ c_string s @ [CR, LF]"
| "resp_enc (RESP_simple_error s) = ''-'' @ c_string s @ [CR, LF]"
| "resp_enc (RESP_bulk_string s) = ''$'' @ show_nat (length s) @ [CR, LF] @ s @ [CR, LF]"
| "resp_enc RESP_null = ''_'' @ [CR, LF]"
| "resp_enc (RESP_integer v) = '':'' @ show_int (sint v) @ [CR, LF]"
| "resp_enc (RESP_array vs) = ''*'' @ show_nat (length vs) @ [CR, LF] @ resp_enc_all vs"
| "resp_enc_all [] = []"
| "resp_enc_all (v # vs) = resp_enc v @ resp_enc_all vs"

lemmas emit_simps = emit_def emit_sprintf_def rbind_def

lemma serialize_enc:
  shows "serialize_value_helper cap v out =
      (if length out + length (resp_enc v) \<le> cap then Inr (out @ resp_enc v) else Inl OutOfBounds)"
    and "length out \<le> cap \<Longrightarrow> serialize_items cap vs out =
      (if length out + length (resp_enc_all vs) \<le> cap then Inr (out @ resp_enc_all vs) else Inl OutOfBounds)"
proof (induction v and vs arbitrary: out and out rule: resp_enc_resp_enc_all.induct)
  case (6 vs)
  then show ?case by (auto simp: emit_simps)
next
  case (8 v vs)
  then show ?case by (auto simp: rbind_def)
qed (auto simp: serialize_simple_string_def serialize_simple_error_def serialize_bulk_string_def
    serialize_null_def serialize_integer_def emit_simps)

fun resp_wf :: "resp_value \<Rightarrow> bool"
and resp_wf_all :: "resp_value list \<Rightarrow> bool" where
  \<comment> \<open>values whose strings can be written: no line break or terminator in simple strings and
     lengths below the limits of the reader\<close>
  "resp_wf (RESP_simple_string s) = (CR \<notin> set s \<and> LF \<notin> set s \<and> NUL \<notin> set s)"
| "resp_wf (RESP_simple_error s) = (CR \<notin> set s \<and> LF \<notin> set s \<and> NUL \<notin> set s)"
| "resp_wf (RESP_bulk_string s) = (length s < SIZE_MOD)"
| "resp_wf RESP_null = True"
| "resp_wf (RESP_integer v) = True"
| "resp_wf (RESP_array vs) = (length vs * 16 < SIZE_MOD \<and> resp_wf_all vs)"
| "resp_wf_all [] = True"
| "resp_wf_all (v # vs) = (resp_wf v \<and> resp_wf_all vs)"

section \<open>Parsing what was encoded\<close>

text \<open>\<open>here b pos xs\<close>: the buffer holds \<open>xs\<close> from the position on.\<close>

definition here :: "char list \<Rightarrow> nat \<Rightarrow> char list \<Rightarrow> bool" where
  "here b pos xs \<longleftrightarrow> drop pos b = xs"

lemma here_peek: "here b pos (c # xs) \<Longrightarrow> peek b pos = Inr c"
  by (cases "pos < length b") (auto simp: here_def peek_def nth_via_drop)

lemma here_next: "here b pos (xs @ ys) \<Longrightarrow> here b (pos + length xs) ys"
  unfolding here_def by (metis add.commute append_eq_conv_conj drop_drop)

lemma here_token: "here b pos (c # xs) \<Longrightarrow> consume_token c b pos = Inr (pos + 1) \<and> here b (pos + 1) xs"
  using here_peek [of b pos c xs] here_next [of b pos "[c]" xs] by (simp add: consume_token_def)

lemma here_crlf: "here b pos (CR # LF # xs) \<Longrightarrow> consume_crlf b pos = Inr (pos + 2) \<and> here b (pos + 2) xs"
  using here_token [of b pos CR "LF # xs"] here_token [of b "pos + 1" LF xs]
  by (simp add: consume_crlf_def)

lemma here_length:
  assumes "here b pos (xs @ ys)" and "xs @ ys \<noteq> []"
  shows "pos + length xs \<le> length b"
proof -
  have "drop pos b \<noteq> []" using assms by (simp add: here_def)
  then have "pos < length b" by simp
  moreover have "length (drop pos b) = length xs + length ys" using assms(1) by (simp add: here_def)
  ultimately show ?thesis by simp
qed

lemma here_copy: "here b pos (xs @ ys) \<Longrightarrow> ys \<noteq> [] \<Longrightarrow> copy_bytes b pos (length xs) = Inr xs"
  using here_length [of b pos xs ys] by (auto simp: here_def copy_bytes_def)

lemma line_length_eq:
  "CR \<notin> set s \<Longrightarrow> LF \<notin> set s \<Longrightarrow> line_length (s @ CR # xs) = Inr (length s)"
  by (induction s) auto

lemma parse_line_enc:
  assumes "here b pos (m # s @ CR # LF # xs)" and "CR \<notin> set s" and "LF \<notin> set s"
  shows "parse_line m b pos = Inr (s, pos + 1 + length s + 2) \<and> here b (pos + 1 + length s + 2) xs"
proof -
  note t = here_token [OF assms(1)]
  then have p: "here b (pos + 1) (s @ CR # LF # xs)" by simp
  note c = here_copy [OF p] and n = here_next [OF p]
  have "line_length (drop (pos + 1) b) = Inr (length s)"
    using p line_length_eq [OF assms(2,3)] by (simp add: here_def)
  with t c here_crlf [OF n] show ?thesis
    by (simp add: parse_line_def)
qed

lemma cr_stops: "\<not> is_digit CR"
  by (simp add: is_digit_def)

lemma scan_number_enc:
  assumes "here b pos (ds @ CR # xs)"
    and "strtol_scan (ds @ CR # xs) = \<lparr>sc_neg = sg, sc_mag = m, sc_end = length ds, sc_stop = length ds\<rparr>"
  shows "scan_number b pos = Inr \<lparr>sc_neg = sg, sc_mag = m, sc_end = length ds, sc_stop = length ds\<rparr>"
proof -
  have "length (drop pos b) = length ds + 1 + length xs" using assms(1) by (simp add: here_def)
  then show ?thesis using assms by (simp add: scan_number_def here_def Let_def)
qed

lemma parse_length_enc:
  assumes "here b pos (m # show_nat n @ CR # LF # xs)" and "n < SIZE_MOD"
  shows "parse_length m b pos = Inr (n, pos + 1 + length (show_nat n) + 2) \<and>
    here b (pos + 1 + length (show_nat n) + 2) xs"
proof -
  note t = here_token [OF assms(1)]
  then have p: "here b (pos + 1) (show_nat n @ CR # LF # xs)" by simp
  have "scan_number b (pos + 1) = Inr \<lparr>sc_neg = False, sc_mag = n, sc_end = length (show_nat n), sc_stop = length (show_nat n)\<rparr>"
    by (rule scan_number_enc [OF p]) (simp add: strtol_scan_show_nat cr_stops)
  with t here_crlf [OF here_next [OF p]] assms(2) show ?thesis
    by (simp add: parse_length_def strtoull_value_def)
qed

fun depth :: "resp_value \<Rightarrow> nat"
and depth_all :: "resp_value list \<Rightarrow> nat" where
  "depth (RESP_array vs) = Suc (depth_all vs)"
| "depth _ = 0"
| "depth_all [] = 0"
| "depth_all (v # vs) = max (depth v) (depth_all vs)"

lemma c_string_id: "NUL \<notin> set s \<Longrightarrow> c_string s = s"
  by (simp add: c_string_def takeWhile_eq_all_conv) metis

lemma parse_bulk_enc:
  assumes "here b pos (resp_enc (RESP_bulk_string s) @ xs)" and "length s < SIZE_MOD"
  shows "parse_bulk_string b pos = Inr (RESP_bulk_string s, pos + length (resp_enc (RESP_bulk_string s))) \<and>
    here b (pos + length (resp_enc (RESP_bulk_string s))) xs"
proof -
  let ?p = "pos + 1 + length (show_nat (length s)) + 2"
  have "here b pos (CHR ''$'' # show_nat (length s) @ CR # LF # (s @ CR # LF # xs))"
    using assms(1) by simp
  note l = parse_length_enc [OF this assms(2)]
  then have p: "here b ?p (s @ CR # LF # xs)" by simp
  show ?thesis
    using l here_copy [OF p] here_crlf [OF here_next [OF p]]
    by (simp add: parse_bulk_string_def algebra_simps)
qed

lemma parse_integer_enc:
  assumes "here b pos (resp_enc (RESP_integer v) @ xs)"
  shows "parse_integer b pos = Inr (RESP_integer v, pos + length (resp_enc (RESP_integer v))) \<and>
    here b (pos + length (resp_enc (RESP_integer v))) xs"
proof -
  let ?i = "sint v"
  have "here b pos (CHR '':'' # show_int ?i @ CR # LF # xs)" using assms by simp
  note t = here_token [OF this]
  then have p: "here b (pos + 1) (show_int ?i @ CR # LF # xs)" by simp
  have "scan_number b (pos + 1) = Inr \<lparr>sc_neg = (?i < 0), sc_mag = nat \<bar>?i\<bar>,
      sc_end = length (show_int ?i), sc_stop = length (show_int ?i)\<rparr>" (is "_ = Inr ?sc")
    by (rule scan_number_enc [OF p]) (simp add: strtol_scan_show_int cr_stops)
  moreover have "strtoll_value ?sc = (?i, False)" by (rule strtoll_value_int64) simp_all
  ultimately show ?thesis
    using t here_crlf [OF here_next [OF p]] by (simp add: parse_integer_def algebra_simps)
qed

lemma array_loop_enc:
  assumes "\<And>v pos xs. v \<in> set vs \<Longrightarrow> here b pos (resp_enc v @ xs) \<Longrightarrow>
      pv b pos = Inr (v, pos + length (resp_enc v)) \<and> here b (pos + length (resp_enc v)) xs"
    and "here b pos (resp_enc_all vs @ xs)" and "length vs \<le> n"
  shows "array_loop pv b pos n (length vs) = Inr (vs, pos + length (resp_enc_all vs)) \<and>
    here b (pos + length (resp_enc_all vs)) xs"
  using assms
proof (induction vs arbitrary: pos n)
  case (Cons v vs)
  have h: "here b pos (resp_enc v @ (resp_enc_all vs @ xs))" using Cons.prems(2) by simp
  have v: "pv b pos = Inr (v, pos + length (resp_enc v))" "here b (pos + length (resp_enc v)) (resp_enc_all vs @ xs)"
    using Cons.prems(1) [OF _ h] by simp_all
  have "array_loop pv b (pos + length (resp_enc v)) (n - 1) (length vs) =
      Inr (vs, pos + length (resp_enc v) + length (resp_enc_all vs)) \<and>
      here b (pos + length (resp_enc v) + length (resp_enc_all vs)) xs"
    using Cons.prems by (intro Cons.IH [OF _ v(2)]) auto
  with v Cons.prems(3) show ?case by (simp add: add.assoc)
qed simp

lemma wf_all_iff: "resp_wf_all vs \<longleftrightarrow> (\<forall>v\<in>set vs. resp_wf v)"
  by (induction vs) auto

lemma depth_all_iff: "depth_all vs \<le> n \<longleftrightarrow> (\<forall>v\<in>set vs. depth v \<le> n)"
  by (induction vs) auto

lemma parse_enc:
  "resp_wf v \<Longrightarrow> depth v < fuel \<Longrightarrow> here b pos (resp_enc v @ xs) \<Longrightarrow>
     resp_parse_value fuel b pos = Inr (v, pos + length (resp_enc v)) \<and> here b (pos + length (resp_enc v)) xs"
proof (induction fuel arbitrary: v pos xs)
  case (Suc fuel)
  show ?case
  proof (cases v)
    case (RESP_simple_string s)
    then have "here b pos (CHR ''+'' # s @ CR # LF # xs)" "c_string s = s"
      using Suc.prems(1,3) by (simp_all add: c_string_id)
    then show ?thesis
      using parse_line_enc [of b pos "CHR ''+''" s xs] Suc.prems(1) RESP_simple_string
      by (simp add: here_peek parse_simple_string_def)
  next
    case (RESP_simple_error s)
    then have "here b pos (CHR ''-'' # s @ CR # LF # xs)" "c_string s = s"
      using Suc.prems(1,3) by (simp_all add: c_string_id)
    then show ?thesis
      using parse_line_enc [of b pos "CHR ''-''" s xs] Suc.prems(1) RESP_simple_error
      by (simp add: here_peek parse_simple_error_def)
  next
    case (RESP_bulk_string s)
    with Suc.prems parse_bulk_enc [of b pos s xs] show ?thesis
      using here_peek [of b pos "CHR ''$''"] by simp
  next
    case RESP_null
    then have h: "here b pos (CHR ''_'' # CR # LF # xs)" using Suc.prems(3) by simp
    show ?thesis
      using here_token [OF h] here_crlf [of b "pos + 1" xs] here_peek [OF h]
      by (simp add: RESP_null parse_null_def)
  next
    case (RESP_integer i)
    with Suc.prems parse_integer_enc [of b pos i xs] show ?thesis
      using here_peek [of b pos "CHR '':''"] by simp
  next
    case (RESP_array vs)
    let ?n = "length vs" and ?p = "pos + 1 + length (show_nat (length vs)) + 2"
    have h: "here b pos (CHR ''*'' # show_nat ?n @ CR # LF # (resp_enc_all vs @ xs))"
      using Suc.prems(3) RESP_array by simp
    have lim: "?n < SIZE_MOD" "array_slots ?n = ?n"
      using Suc.prems(1) RESP_array by (simp_all add: array_slots_def)
    note l = parse_length_enc [OF h lim(1)]
    have elems: "resp_parse_value fuel b p = Inr (v, p + length (resp_enc v)) \<and> here b (p + length (resp_enc v)) ys"
      if "v \<in> set vs" "here b p (resp_enc v @ ys)" for v p ys
    proof (rule Suc.IH [OF _ _ that(2)])
      show "resp_wf v" using Suc.prems(1) RESP_array that(1) by (simp add: wf_all_iff)
      show "depth v < fuel"
        using Suc.prems(2) RESP_array that(1) depth_all_iff [of vs "fuel - 1"]
        by (cases fuel) (auto simp: less_Suc_eq_le)
    qed
    from l have p: "here b ?p (resp_enc_all vs @ xs)" by simp
    have "array_loop (resp_parse_value fuel) b ?p ?n ?n = Inr (vs, ?p + length (resp_enc_all vs)) \<and>
        here b (?p + length (resp_enc_all vs)) xs"
      by (rule array_loop_enc [where pv = "resp_parse_value fuel", OF elems p]) simp_all
    with l lim show ?thesis
      using here_peek [OF h] by (simp add: RESP_array parse_array_def algebra_simps)
  qed
qed simp

section \<open>Enough fuel\<close>

definition advances :: "(char list \<Rightarrow> nat \<Rightarrow> ('a \<times> nat) parse) \<Rightarrow> bool" where
  "advances p \<longleftrightarrow> (\<forall>b pos v pos'. p b pos = Inr (v, pos') \<longrightarrow> pos < pos')"

lemma consume_token_pos: "consume_token t b pos = Inr pos' \<Longrightarrow> pos' = pos + 1 \<and> pos < length b"
  by (auto simp: consume_token_def peek_def rbind_eq_Inr_iff split: if_splits)

lemma consume_crlf_pos: "consume_crlf b pos = Inr pos' \<Longrightarrow> pos' = pos + 2"
  by (auto simp: consume_crlf_def rbind_eq_Inr_iff dest!: consume_token_pos)

lemma parse_length_pos: "parse_length m b pos = Inr (n, pos') \<Longrightarrow> pos < pos' \<and> pos < length b"
  by (auto simp: parse_length_def rbind_eq_Inr_iff dest!: consume_token_pos consume_crlf_pos)

lemma parse_line_pos: "parse_line m b pos = Inr (s, pos') \<Longrightarrow> pos < pos'"
  by (auto simp: parse_line_def rbind_eq_Inr_iff dest!: consume_token_pos consume_crlf_pos)

lemma array_loop_pos:
  "advances pv \<Longrightarrow> array_loop pv b pos r n = Inr (vs, pos') \<Longrightarrow> pos \<le> pos'"
proof (induction n arbitrary: pos r vs)
  case (Suc n)
  from Suc.prems(2) obtain v p vs' where "pv b pos = Inr (v, p)" "array_loop pv b p (r - 1) n = Inr (vs', pos')"
    by (auto simp: rbind_eq_Inr_iff split: if_splits)
  with Suc.IH [OF Suc.prems(1)] Suc.prems(1) show ?case
    unfolding advances_def by (meson le_trans less_imp_le)
qed simp

lemma parse_value_advances: "advances (resp_parse_value fuel)"
proof (induction fuel)
  case (Suc fuel)
  show ?case
    unfolding advances_def
    by (auto simp: rbind_eq_Inr_iff parse_integer_def parse_simple_string_def parse_simple_error_def
        parse_bulk_string_def parse_null_def parse_array_def split: if_splits
        dest!: consume_token_pos consume_crlf_pos parse_length_pos parse_line_pos
          array_loop_pos [OF Suc.IH])
qed (simp add: advances_def)

definition bounds_only :: "'a parse \<Rightarrow> bool" where
  \<comment> \<open>the only fault is an access outside a block\<close>
  "bounds_only r \<longleftrightarrow> (\<forall>e. r = Inl (Parse_fault e) \<longrightarrow> e = OutOfBounds)"

lemma bounds_only_bind: "bounds_only r \<Longrightarrow> (\<And>x. r = Inr x \<Longrightarrow> bounds_only (f x)) \<Longrightarrow> bounds_only (rbind r f)"
  by (cases r) (auto simp: bounds_only_def)

lemma bounds_only_basic:
  "bounds_only (Inr x)" "bounds_only (peek b pos)" "bounds_only (consume_token t b pos)" "bounds_only (consume_crlf b pos)"
  "bounds_only (copy_bytes b pos n)" "bounds_only (scan_number b pos)" "bounds_only (line_length cs)"
  "bounds_only (Inl (Parse_return c pos))" "bounds_only (Inl (Parse_fault OutOfBounds))"
proof -
  show "bounds_only (line_length cs)" by (induction cs) (auto simp: bounds_only_def rbind_eq_Inl_iff)
qed (auto simp: bounds_only_def peek_def consume_token_def consume_crlf_def copy_bytes_def scan_number_def
    Let_def rbind_eq_Inl_iff)

lemma bounds_only_leaf:
  "bounds_only (parse_length m b pos)" "bounds_only (parse_line m b pos)" "bounds_only (parse_integer b pos)"
  "bounds_only (parse_simple_string b pos)" "bounds_only (parse_simple_error b pos)" "bounds_only (parse_bulk_string b pos)"
  "bounds_only (parse_null b pos)"
  unfolding parse_length_def parse_line_def parse_integer_def parse_simple_string_def
    parse_simple_error_def parse_bulk_string_def parse_null_def
  by (intro bounds_only_bind bounds_only_basic | simp add: bounds_only_basic split_beta)+

lemma array_loop_bounds_only:
  assumes "advances pv" and "\<And>p. pos \<le> p \<Longrightarrow> bounds_only (pv b p)"
  shows "bounds_only (array_loop pv b pos r n)"
  using assms(2)
proof (induction n arbitrary: pos r)
  case (Suc n)
  have step: "bounds_only (array_loop pv b p (r - 1) n)" if "pv b pos = Inr (v, p)" for v p
  proof -
    have "pos < p" using assms(1) that by (auto simp: advances_def)
    then show ?thesis using Suc.prems by (intro Suc.IH) simp
  qed
  show ?case
    by (auto intro!: bounds_only_bind bounds_only_basic step [simplified] Suc.prems split: prod.splits)
qed (simp add: bounds_only_basic)

lemma parse_value_bounds_only: "length b - pos < fuel \<Longrightarrow> bounds_only (resp_parse_value fuel b pos)"
proof (induction fuel arbitrary: pos)
  case (Suc fuel)
  have arr: "bounds_only (parse_array (resp_parse_value fuel) b pos)"
    unfolding parse_array_def
  proof (intro bounds_only_bind bounds_only_leaf, clarify, intro bounds_only_bind)
    fix n p
    assume "parse_length CHR ''*'' b pos = Inr (n, p)"
    then have p: "pos < p" "pos < length b" by (auto dest: parse_length_pos)
    show "bounds_only (array_loop (resp_parse_value fuel) b p (array_slots n) n)"
      using p Suc.prems by (intro array_loop_bounds_only [OF parse_value_advances] Suc.IH) simp
  qed (auto simp: bounds_only_basic)
  show ?case
    by (auto intro!: bounds_only_bind bounds_only_basic bounds_only_leaf arr)
qed simp

lemma depth_le: "depth v \<le> length (resp_enc v)" "depth_all vs \<le> length (resp_enc_all vs)"
  by (induction v and vs rule: depth_depth_all.induct) auto

section \<open>Properties\<close>

text \<open>
  C14: what the serializer writes, the parser reads back: for every value without line breaks in its
  simple strings, of any nesting, the bytes written parse to the same value, consume exactly these
  bytes, and do so whatever stands behind them in the buffer.
\<close>

theorem resp_roundtrip:
  assumes "resp_wf v" and "resp_serialize_value n v = Inr out"
  shows "resp_parse_input (out @ rest) = Inr (v, length out)"
proof -
  have out: "out = resp_enc v"
    using assms(2) serialize_enc(1) [of n v "[]"] by (auto simp: resp_serialize_value_def split: if_splits)
  have h: "here (resp_enc v @ rest) 0 (resp_enc v @ rest)" by (simp add: here_def)
  have "depth v < Suc (length (resp_enc v @ rest))" using depth_le(1) [of v] by simp
  from parse_enc [OF assms(1) this h] show ?thesis by (simp add: out resp_parse_input_def)
qed

theorem resp_roundtrip_witness:
  "resp_parse_input ([CHR ''*'', CHR ''2'', CR, LF, CHR ''_'', CR, LF, CHR ''$'', CHR ''1'', CR, LF, CR, CR, LF] @ ''old'') =
     Inr (RESP_array [RESP_null, RESP_bulk_string [CR]], 14)"
proof -
  let ?v = "RESP_array [RESP_null, RESP_bulk_string [CR]]"
  let ?out = "[CHR ''*'', CHR ''2'', CR, LF, CHR ''_'', CR, LF, CHR ''$'', CHR ''1'', CR, LF, CR, CR, LF]"
  have "show_nat 2 = ''2''" "show_nat 1 = ''1''" by (simp_all add: show_nat.simps char_of_def bit_0)
  then have "resp_enc ?v = ?out" by (simp add: numeral_2_eq_2)
  then have "resp_serialize_value 4096 ?v = Inr ?out"
    using serialize_enc(1) [of 4096 ?v "[]"]
    by (simp add: resp_serialize_value_def del: serialize_value_helper.simps resp_enc.simps)
  from resp_roundtrip [OF _ this] show ?thesis by simp
qed

text \<open>
  C31: the serializer stays inside its buffer exactly when the encoded value and a final
  terminator fit it.
\<close>

theorem resp_serialize_fits:
  "resp_serialize_value n v = (if length (resp_enc v) < n then Inr (resp_enc v) else Inl OutOfBounds)"
  using serialize_enc(1) [of n v "[]"] by (auto simp: resp_serialize_value_def)

text \<open>
  C32: the parser always ends: with a value and a position behind its start, with an error code, or by
  an access out of bounds, which is a read behind the input buffer or a write behind the block of an array whose size in bytes
  wraps. It has no other fault, and the nesting fuel of the model never runs out.
\<close>

theorem resp_parse_input_ends:
  "(\<exists>v pos. resp_parse_input b = Inr (v, pos) \<and> 0 < pos) \<or>
   (\<exists>code pos. resp_parse_input b = Inl (Parse_return code pos)) \<or>
   resp_parse_input b = Inl (Parse_fault OutOfBounds)"
proof -
  have n: "bounds_only (resp_parse_value (Suc (length b)) b 0)" by (rule parse_value_bounds_only) simp
  have a: "advances (resp_parse_value (Suc (length b)))" by (rule parse_value_advances)
  show ?thesis
  proof (cases "resp_parse_input b")
    case (Inl e)
    with n show ?thesis by (cases e) (auto simp: resp_parse_input_def bounds_only_def)
  next
    case (Inr r)
    with a show ?thesis by (cases r) (auto simp: resp_parse_input_def advances_def)
  qed
qed

text \<open>
  The length of a bulk string is not checked against the input. The null bulk string of the
  older protocol, \<^verbatim>\<open>$-1\<close>, is read as the length \<open>2 ^ 64 - 1\<close>, and the copy leaves the buffer.
\<close>

theorem null_bulk_overruns:
  assumes "length xs < 2 ^ 63"
  shows "resp_parse_input (''$-1'' @ [CR, LF] @ xs) = Inl (Parse_fault OutOfBounds)"
proof -
  let ?b = "''$-1'' @ [CR, LF] @ xs"
  have h: "here ?b 0 (CHR ''$'' # ''-1'' @ CR # LF # xs)" by (simp add: here_def)
  have "show_int (- 1) = ''-1''" by (simp add: show_int_def show_nat.simps char_of_def bit_0)
  then have sc: "strtol_scan (''-1'' @ CR # LF # xs) =
      \<lparr>sc_neg = True, sc_mag = 1, sc_end = length ''-1'', sc_stop = length ''-1''\<rparr>"
    using strtol_scan_show_int [of "CR # LF # xs" "- 1"] cr_stops by simp
  note t = here_token [OF h]
  then have p: "here ?b 1 (''-1'' @ CR # LF # xs)" by simp
  have "scan_number ?b 1 = Inr \<lparr>sc_neg = True, sc_mag = 1, sc_end = length ''-1'', sc_stop = length ''-1''\<rparr>"
    by (rule scan_number_enc [OF p sc])
  moreover have "consume_crlf ?b (1 + length ''-1'') = Inr (1 + length ''-1'' + 2)"
    using here_crlf [OF here_next [OF p]] by blast
  ultimately have "parse_length (CHR ''$'') ?b 0 = Inr (SIZE_MOD - 1, 1 + length ''-1'' + 2)"
    using t by (simp add: parse_length_def strtoull_value_def)
  then show ?thesis
    using here_peek [OF h] assms by (simp add: resp_parse_input_def parse_bulk_string_def copy_bytes_def)
qed

theorem null_bulk_overruns_witness:
  "resp_parse_input (''$-1'' @ [CR, LF]) = Inl (Parse_fault OutOfBounds)"
  using null_bulk_overruns [of "[]"] by simp

end
