(* ===== verification/Command_Args.thy ===== *)
theory Command_Args
  imports Data Resp
begin

text \<open>
  The argument parser of the commands (\<^verbatim>\<open>command_arg.c\<close>, \<^verbatim>\<open>command.h\<close>): a list of argument
  definitions is matched against the words of a request. A window \<open>[istart, iend)\<close> of the words
  with a mark for those already taken is the C struct \<^verbatim>\<open>InputArgArray\<close>. A word is the byte list of
  a bulk string, whose memory the RESP parser terminates with a NUL.
\<close>

section \<open>Definitions of arguments\<close>

datatype arg_type =
    ARG_TYPE_STRING
  | ARG_TYPE_INTEGER
  | ARG_TYPE_DOUBLE
  | ARG_TYPE_UNIX_TIME
  | ARG_TYPE_KEY
  | ARG_TYPE_ONEOF
  | ARG_TYPE_PURE_TOKEN

text \<open>\<open>dextra\<close> is \<open>Some\<close> for \<^verbatim>\<open>EXTRA_ARG_ARR\<close> and \<open>None\<close> for \<^verbatim>\<open>EXTRA_DESCR\<close>.\<close>

datatype arg_def = Arg_def
  (dname: "char list")
  (dtyp: arg_type)
  (dopt: bool)
  (dtoken: "char list option")
  (dextra: "arg_def list option")

datatype args_result =
    CMD_ARGS_PARSE_SUCCESS
  | CMD_ARGS_TOO_FEW_ARGS
  | CMD_ARGS_TOO_MANY_ARGS
  | CMD_ARGS_TOKEN_MISMATCH
  | CMD_ARGS_TYPE_MISMATCH

text \<open>
  What an argument's \<^verbatim>\<open>void *value\<close> points to. \<open>V_double\<close> keeps the text that \<^verbatim>\<open>strtod\<close> is given: no
  command uses the type. \<open>V_option\<close> is an \<^verbatim>\<open>Option\<close>, \<open>None\<close> when it is not present.
\<close>

datatype arg_value =
    V_string "char list"
  | V_int int64
  | V_double "char list"
  | V_unix int64
  | V_true
  | V_option "arg_value option"

record command_arg =
  cdef :: arg_def
  cvalue :: arg_value

section \<open>The window of unused words\<close>

record iaa =
  iargs :: "char list list"
  istart :: nat
  iend :: nat
  iresolved :: "bool list"

definition iaa_create :: "char list list \<Rightarrow> iaa" where
  "iaa_create args =
     \<lparr>iargs = args, istart = 0, iend = length args, iresolved = replicate (length args) False\<rparr>"

fun peek_loop :: "bool list \<Rightarrow> nat list \<Rightarrow> nat \<Rightarrow> nat \<Rightarrow> nat option" where
  \<comment> \<open>\<open>i\<close> runs over the window, \<open>j\<close> counts the unused words\<close>
  "peek_loop resolved [] index j = None"
| "peek_loop resolved (i # is) index j =
     (if resolved ! i then peek_loop resolved is index j
      else if index = j then Some i
      else peek_loop resolved is index (Suc j))"

definition iaa_peek_arg_index :: "iaa \<Rightarrow> nat \<Rightarrow> nat option" where
  \<comment> \<open>\<open>None\<close> is \<^verbatim>\<open>-1\<close>\<close>
  "iaa_peek_arg_index a index = peek_loop (iresolved a) [istart a..<iend a] index 0"

definition iaa_peek_arg :: "iaa \<Rightarrow> nat \<Rightarrow> char list option" where
  "iaa_peek_arg a index = map_option (\<lambda>i. iargs a ! i) (iaa_peek_arg_index a index)"

definition iaa_consume_arg :: "iaa \<Rightarrow> nat \<Rightarrow> bool \<times> iaa" where
  "iaa_consume_arg a index =
     (case iaa_peek_arg_index a index of
        None \<Rightarrow> (False, a)
      | Some i \<Rightarrow> (True, a\<lparr>iresolved := (iresolved a)[i := True]\<rparr>))"

definition iaa_clone_shrinked_window_at_index :: "iaa \<Rightarrow> nat \<Rightarrow> iaa" where
  "iaa_clone_shrinked_window_at_index a index =
     (let start = (case iaa_peek_arg_index a index of None \<Rightarrow> iend a | Some i \<Rightarrow> i);
          stop = start + length (takeWhile Not (drop start (iresolved a)))
      in a\<lparr>istart := start, iend := stop\<rparr>)"

section \<open>Parsing\<close>

datatype arg_stop = Arg_fault fault | Arg_return args_result

type_synonym 'a args = "arg_stop + 'a"

definition wrap_optional :: "arg_def \<Rightarrow> arg_value \<Rightarrow> command_arg" where
  "wrap_optional d v = \<lparr>cdef = d, cvalue = (if dopt d then V_option (Some v) else v)\<rparr>"

definition take_word :: "arg_def \<Rightarrow> iaa \<Rightarrow> (char list \<Rightarrow> arg_value args) \<Rightarrow> (command_arg \<times> iaa) args" where
  \<comment> \<open>the common part of the cases that read one word\<close>
  "take_word d a conv =
     (case iaa_peek_arg a 0 of
        None \<Rightarrow> if dopt d then Inr (\<lparr>cdef = d, cvalue = V_option None\<rparr>, a)
                else Inl (Arg_return CMD_ARGS_TOO_FEW_ARGS)
      | Some arg \<Rightarrow> rbind (conv arg) (\<lambda>v. Inr (wrap_optional d v, snd (iaa_consume_arg a 0))))"

fun find_token :: "iaa \<Rightarrow> char list \<Rightarrow> nat list \<Rightarrow> nat option" where
  \<comment> \<open>the first unused word that is the token\<close>
  "find_token a token [] = None"
| "find_token a token (i # is) =
     (case iaa_peek_arg a i of
        None \<Rightarrow> None
      | Some arg \<Rightarrow> if str_eq_ci arg token then Some i else find_token a token is)"

definition unix_time :: "char list \<Rightarrow> int64" where
  \<comment> \<open>\<^verbatim>\<open>strtoll\<close> without any check\<close>
  "unix_time s = word_of_int (fst (strtoll_value (strtol_scan (s @ [NUL]))))"

lemma size_extra: "dextra d = Some ds \<Longrightarrow> Suc (2 * size_list size ds) < 2 * size d"
  by (cases d) auto

function parse_argument :: "arg_def \<Rightarrow> iaa \<Rightarrow> (command_arg \<times> iaa) args"
and parse_command_argument :: "arg_def \<Rightarrow> iaa \<Rightarrow> (command_arg \<times> iaa) args"
and parse_one_of :: "arg_def list \<Rightarrow> iaa \<Rightarrow> (command_arg \<times> iaa) option args" where
  "parse_argument d a =
     (case dtyp d of
        ARG_TYPE_STRING \<Rightarrow> take_word d a (\<lambda>arg. Inr (V_string arg))
      | ARG_TYPE_KEY \<Rightarrow> take_word d a (\<lambda>arg. Inr (V_string arg))
      | ARG_TYPE_INTEGER \<Rightarrow> take_word d a (\<lambda>arg.
          case parse_int64 arg of None \<Rightarrow> Inl (Arg_return CMD_ARGS_TYPE_MISMATCH) | Some n \<Rightarrow> Inr (V_int n))
      | ARG_TYPE_DOUBLE \<Rightarrow> take_word d a (\<lambda>arg. Inr (V_double arg))
      | ARG_TYPE_UNIX_TIME \<Rightarrow> take_word d a (\<lambda>arg. Inr (V_unix (unix_time arg)))
      | ARG_TYPE_ONEOF \<Rightarrow>
          (case dextra d of
             None \<Rightarrow> Inl (Arg_fault Panic)
           | Some defs \<Rightarrow> rbind (parse_one_of defs a) (\<lambda>r.
               case r of
                 Some (c, a') \<Rightarrow>
                   Inr (if dopt d then c\<lparr>cvalue := V_option (Some (cvalue c))\<rparr> else c, a')
               | None \<Rightarrow>
                   if dopt d then Inr (\<lparr>cdef = d, cvalue = V_option None\<rparr>, a)
                   else Inl (Arg_return CMD_ARGS_TYPE_MISMATCH)))
      | ARG_TYPE_PURE_TOKEN \<Rightarrow> Inr (wrap_optional d V_true, a))"
| "parse_command_argument d a =
     (case dtoken d of
        None \<Rightarrow> parse_argument d a
      | Some token \<Rightarrow>
          (case find_token a token [0..<Suc (length (iargs a))] of
             Some i \<Rightarrow>
               let a1 = snd (iaa_consume_arg a i);
                   shrinked = iaa_clone_shrinked_window_at_index a1 i
               in rbind (parse_argument d shrinked) (\<lambda>(c, a2).
                    Inr (c, a1\<lparr>iresolved := iresolved a2\<rparr>))
           | None \<Rightarrow>
               if dopt d then Inr (\<lparr>cdef = d, cvalue = V_option None\<rparr>, a)
               else Inl (Arg_return CMD_ARGS_TOKEN_MISMATCH)))"
| "parse_one_of [] a = Inr None"
| "parse_one_of (d # ds) a =
     (case parse_command_argument d a of
        Inr r \<Rightarrow> Inr (Some r)
      | Inl e \<Rightarrow> if e = Arg_return CMD_ARGS_TOKEN_MISMATCH then parse_one_of ds a else Inl e)"
  by pat_completeness auto
termination
  by (relation "measure (\<lambda>x. case x of
        Inl (d, a) \<Rightarrow> 2 * size d
      | Inr (Inl (d, a)) \<Rightarrow> 2 * size d + 1
      | Inr (Inr (ds, a)) \<Rightarrow> 2 * size_list size ds + 1)")
    (auto dest: size_extra)

fun parse_defs :: "arg_def list \<Rightarrow> iaa \<Rightarrow> (command_arg list \<times> iaa) args" where
  "parse_defs [] a = Inr ([], a)"
| "parse_defs (d # ds) a =
     rbind (parse_command_argument d a) (\<lambda>(c, a).
     rbind (parse_defs ds a) (\<lambda>(cs, a). Inr (c # cs, a)))"

definition parse_command_arguments :: "arg_def list \<Rightarrow> char list list \<Rightarrow> command_arg list args" where
  \<comment> \<open>a right summand is \<^verbatim>\<open>CMD_ARGS_PARSE_SUCCESS\<close>\<close>
  "parse_command_arguments defs args =
     rbind (parse_defs defs (iaa_create args)) (\<lambda>(cs, a).
       if iaa_peek_arg_index a 0 \<noteq> None then Inl (Arg_return CMD_ARGS_TOO_MANY_ARGS) else Inr cs)"

section \<open>Types of the parsed arguments\<close>

fun type_ok :: "arg_type \<Rightarrow> arg_value \<Rightarrow> bool" where
  "type_ok ARG_TYPE_STRING (V_string s) = True"
| "type_ok ARG_TYPE_KEY (V_string s) = True"
| "type_ok ARG_TYPE_INTEGER (V_int n) = True"
| "type_ok ARG_TYPE_DOUBLE (V_double s) = True"
| "type_ok ARG_TYPE_UNIX_TIME (V_unix n) = True"
| "type_ok ARG_TYPE_PURE_TOKEN V_true = True"
| "type_ok _ _ = False"

text \<open>
  \<open>arg_ok d c\<close>: the parsed argument \<open>c\<close> has the shape that code written for the definition \<open>d\<close> casts
  it to. For a choice, the definition recorded in \<open>c\<close> is that of the alternative taken.
\<close>

inductive arg_ok :: "arg_def \<Rightarrow> command_arg \<Rightarrow> bool" where
  plain: "type_ok (dtyp d) v \<Longrightarrow> \<not> dopt d \<Longrightarrow> arg_ok d \<lparr>cdef = d, cvalue = v\<rparr>"
| present: "type_ok (dtyp d) v \<Longrightarrow> dopt d \<Longrightarrow> arg_ok d \<lparr>cdef = d, cvalue = V_option (Some v)\<rparr>"
| absent: "dopt d \<Longrightarrow> arg_ok d \<lparr>cdef = d, cvalue = V_option None\<rparr>"
| one_of: "dtyp d = ARG_TYPE_ONEOF \<Longrightarrow> dextra d = Some ds \<Longrightarrow> d' \<in> set ds \<Longrightarrow> arg_ok d' c \<Longrightarrow> \<not> dopt d \<Longrightarrow>
    arg_ok d c"
| one_of_optional: "dtyp d = ARG_TYPE_ONEOF \<Longrightarrow> dextra d = Some ds \<Longrightarrow> d' \<in> set ds \<Longrightarrow> arg_ok d' c \<Longrightarrow>
    dopt d \<Longrightarrow> arg_ok d (c\<lparr>cvalue := V_option (Some (cvalue c))\<rparr>)"

inductive_cases arg_okE: "arg_ok d c"

lemma type_ok_iff [simp]:
  "type_ok ARG_TYPE_STRING v \<longleftrightarrow> (\<exists>s. v = V_string s)"
  "type_ok ARG_TYPE_INTEGER v \<longleftrightarrow> (\<exists>n. v = V_int n)"
  "type_ok ARG_TYPE_UNIX_TIME v \<longleftrightarrow> (\<exists>n. v = V_unix n)"
  "type_ok ARG_TYPE_PURE_TOKEN v \<longleftrightarrow> v = V_true"
  "\<not> type_ok ARG_TYPE_ONEOF v"
  by (cases v; simp)+

lemma wrap_ok: "type_ok (dtyp d) v \<Longrightarrow> arg_ok d (wrap_optional d v)"
  by (cases "dopt d") (auto simp: wrap_optional_def intro: arg_ok.plain arg_ok.present)

lemma take_word_ok:
  assumes "take_word d a conv = Inr (c, a')" and "\<And>s v. conv s = Inr v \<Longrightarrow> type_ok (dtyp d) v"
  shows "arg_ok d c"
  using assms
  by (auto simp: take_word_def rbind_eq_Inr_iff split: option.splits if_splits
      intro: wrap_ok arg_ok.absent)

lemma parse_typed:
  shows "\<forall>c a'. parse_argument d a = Inr (c, a') \<longrightarrow> arg_ok d c"
    and "\<forall>c a'. parse_command_argument d a = Inr (c, a') \<longrightarrow> arg_ok d c"
    and "\<forall>c a'. parse_one_of ds a = Inr (Some (c, a')) \<longrightarrow> (\<exists>d\<in>set ds. arg_ok d c)"
proof (induction d a and d a and ds a rule: parse_argument_parse_command_argument_parse_one_of.induct)
  case (1 d a)
  show ?case
  proof (intro allI impI)
    fix c a'
    assume p: "parse_argument d a = Inr (c, a')"
    show "arg_ok d c"
    proof (cases "dtyp d")
      case ARG_TYPE_ONEOF
      with p obtain ds r where ds: "dextra d = Some ds" "parse_one_of ds a = Inr r"
        by (auto simp: rbind_eq_Inr_iff split: option.splits)
      show ?thesis
      proof (cases r)
        case None
        with p ds ARG_TYPE_ONEOF show ?thesis by (auto split: if_splits intro: arg_ok.absent)
      next
        case (Some x)
        obtain c1 a1 where x: "x = (c1, a1)" by (cases x)
        from 1 [OF ARG_TYPE_ONEOF ds(1)] ds(2) Some x obtain d' where "d' \<in> set ds" "arg_ok d' c1"
          by blast
        with p ds Some x ARG_TYPE_ONEOF show ?thesis
          by (auto split: if_splits intro: arg_ok.one_of arg_ok.one_of_optional)
      qed
    next
      case ARG_TYPE_PURE_TOKEN
      with p wrap_ok [of d V_true] show ?thesis by auto
    qed (use p in \<open>auto elim!: take_word_ok split: option.splits\<close>)
  qed
next
  case (2 d a)
  then show ?case
    by (auto simp: rbind_eq_Inr_iff Let_def split: option.splits if_splits intro: arg_ok.absent)
next
  case (3 a)
  then show ?case by simp
next
  case (4 d ds a)
  then show ?case
    by (auto split: sum.splits if_splits)
qed

lemma parse_defs_typed: "parse_defs ds a = Inr (cs, a') \<Longrightarrow> list_all2 arg_ok ds cs"
  by (induction ds a arbitrary: cs rule: parse_defs.induct)
    (auto simp: rbind_eq_Inr_iff simp del: parse_command_argument.simps dest: parse_typed(2) [rule_format])

section \<open>Properties\<close>

text \<open>
  C19: whatever the words of a request are, each parsed argument has the type that its definition
  announces and the command's handler casts it to; an optional argument is an option, and for a
  choice the recorded definition is that of an alternative of the choice.
\<close>

theorem parsed_arguments_typed:
  assumes "parse_command_arguments defs words = Inr cs"
  shows "list_all2 arg_ok defs cs"
  using assms by (auto simp: parse_command_arguments_def rbind_eq_Inr_iff split: if_splits intro: parse_defs_typed)

theorem parsed_arguments_typed_witness:
  "\<exists>cs. parse_command_arguments [Arg_def ''key'' ARG_TYPE_STRING False None (Some []),
       Arg_def ''get'' ARG_TYPE_PURE_TOKEN True (Some ''GET'') (Some [])] [''k'', ''get''] = Inr cs \<and>
     list_all2 arg_ok [Arg_def ''key'' ARG_TYPE_STRING False None (Some []),
       Arg_def ''get'' ARG_TYPE_PURE_TOKEN True (Some ''GET'') (Some [])] cs"
proof -
  let ?defs = "[Arg_def ''key'' ARG_TYPE_STRING False None (Some []),
       Arg_def ''get'' ARG_TYPE_PURE_TOKEN True (Some ''GET'') (Some [])]"
  have "\<exists>cs. parse_command_arguments ?defs [''k'', ''get''] = Inr cs"
    by (simp add: parse_command_arguments_def iaa_create_def take_word_def iaa_peek_arg_def
        iaa_peek_arg_index_def iaa_consume_arg_def iaa_clone_shrinked_window_at_index_def wrap_optional_def
        str_eq_ci_def ascii_lower_def upt_conv_Cons char_of_def bit_0)
  then obtain cs where "parse_command_arguments ?defs [''k'', ''get''] = Inr cs" by blast
  with parsed_arguments_typed [OF this] show ?thesis by blast
qed

end
