(* ===== verification/Hashmap.thy ===== *)
theory Hashmap
  imports Prelude
begin

text \<open>
  The hash map of \<^verbatim>\<open>hashmap.c\<close>: open addressing with linear probing over a window of eight
  slots, doubling when half full or when a window has no usable slot. Keys are the bytes that the
  C code compares with \<^verbatim>\<open>memcmp\<close>; an element with \<^verbatim>\<open>in_use == 0\<close> (whose other fields are always
  blank) is \<open>None\<close>. The allocator of \<^verbatim>\<open>hashmap_rehash\<close> is the parameter \<open>cal\<close>: whether \<^verbatim>\<open>calloc\<close>
  of so many elements succeeds. The contract \<open>key_value_map\<close> at the end is what the storage layer
  relies on; it holds for this map with one proviso, the predicate \<open>chain_ok\<close>, and the last
  property shows that the proviso is needed.
\<close>

unbundle bit_operations_syntax

section \<open>The hash function\<close>

definition crc32_tab :: "64 word list" where
  "crc32_tab =
    [
     0x00000000, 0x77073096, 0xee0e612c, 0x990951ba, 0x076dc419, 0x706af48f, 0xe963a535, 0x9e6495a3,
     0x0edb8832, 0x79dcb8a4, 0xe0d5e91e, 0x97d2d988, 0x09b64c2b, 0x7eb17cbd, 0xe7b82d07, 0x90bf1d91,
     0x1db71064, 0x6ab020f2, 0xf3b97148, 0x84be41de, 0x1adad47d, 0x6ddde4eb, 0xf4d4b551, 0x83d385c7,
     0x136c9856, 0x646ba8c0, 0xfd62f97a, 0x8a65c9ec, 0x14015c4f, 0x63066cd9, 0xfa0f3d63, 0x8d080df5,
     0x3b6e20c8, 0x4c69105e, 0xd56041e4, 0xa2677172, 0x3c03e4d1, 0x4b04d447, 0xd20d85fd, 0xa50ab56b,
     0x35b5a8fa, 0x42b2986c, 0xdbbbc9d6, 0xacbcf940, 0x32d86ce3, 0x45df5c75, 0xdcd60dcf, 0xabd13d59,
     0x26d930ac, 0x51de003a, 0xc8d75180, 0xbfd06116, 0x21b4f4b5, 0x56b3c423, 0xcfba9599, 0xb8bda50f,
     0x2802b89e, 0x5f058808, 0xc60cd9b2, 0xb10be924, 0x2f6f7c87, 0x58684c11, 0xc1611dab, 0xb6662d3d,
     0x76dc4190, 0x01db7106, 0x98d220bc, 0xefd5102a, 0x71b18589, 0x06b6b51f, 0x9fbfe4a5, 0xe8b8d433,
     0x7807c9a2, 0x0f00f934, 0x9609a88e, 0xe10e9818, 0x7f6a0dbb, 0x086d3d2d, 0x91646c97, 0xe6635c01,
     0x6b6b51f4, 0x1c6c6162, 0x856530d8, 0xf262004e, 0x6c0695ed, 0x1b01a57b, 0x8208f4c1, 0xf50fc457,
     0x65b0d9c6, 0x12b7e950, 0x8bbeb8ea, 0xfcb9887c, 0x62dd1ddf, 0x15da2d49, 0x8cd37cf3, 0xfbd44c65,
     0x4db26158, 0x3ab551ce, 0xa3bc0074, 0xd4bb30e2, 0x4adfa541, 0x3dd895d7, 0xa4d1c46d, 0xd3d6f4fb,
     0x4369e96a, 0x346ed9fc, 0xad678846, 0xda60b8d0, 0x44042d73, 0x33031de5, 0xaa0a4c5f, 0xdd0d7cc9,
     0x5005713c, 0x270241aa, 0xbe0b1010, 0xc90c2086, 0x5768b525, 0x206f85b3, 0xb966d409, 0xce61e49f,
     0x5edef90e, 0x29d9c998, 0xb0d09822, 0xc7d7a8b4, 0x59b33d17, 0x2eb40d81, 0xb7bd5c3b, 0xc0ba6cad,
     0xedb88320, 0x9abfb3b6, 0x03b6e20c, 0x74b1d29a, 0xead54739, 0x9dd277af, 0x04db2615, 0x73dc1683,
     0xe3630b12, 0x94643b84, 0x0d6d6a3e, 0x7a6a5aa8, 0xe40ecf0b, 0x9309ff9d, 0x0a00ae27, 0x7d079eb1,
     0xf00f9344, 0x8708a3d2, 0x1e01f268, 0x6906c2fe, 0xf762575d, 0x806567cb, 0x196c3671, 0x6e6b06e7,
     0xfed41b76, 0x89d32be0, 0x10da7a5a, 0x67dd4acc, 0xf9b9df6f, 0x8ebeeff9, 0x17b7be43, 0x60b08ed5,
     0xd6d6a3e8, 0xa1d1937e, 0x38d8c2c4, 0x4fdff252, 0xd1bb67f1, 0xa6bc5767, 0x3fb506dd, 0x48b2364b,
     0xd80d2bda, 0xaf0a1b4c, 0x36034af6, 0x41047a60, 0xdf60efc3, 0xa867df55, 0x316e8eef, 0x4669be79,
     0xcb61b38c, 0xbc66831a, 0x256fd2a0, 0x5268e236, 0xcc0c7795, 0xbb0b4703, 0x220216b9, 0x5505262f,
     0xc5ba3bbe, 0xb2bd0b28, 0x2bb45a92, 0x5cb36a04, 0xc2d7ffa7, 0xb5d0cf31, 0x2cd99e8b, 0x5bdeae1d,
     0x9b64c2b0, 0xec63f226, 0x756aa39c, 0x026d930a, 0x9c0906a9, 0xeb0e363f, 0x72076785, 0x05005713,
     0x95bf4a82, 0xe2b87a14, 0x7bb12bae, 0x0cb61b38, 0x92d28e9b, 0xe5d5be0d, 0x7cdcefb7, 0x0bdbdf21,
     0x86d3d2d4, 0xf1d4e242, 0x68ddb3f8, 0x1fda836e, 0x81be16cd, 0xf6b9265b, 0x6fb077e1, 0x18b74777,
     0x88085ae6, 0xff0f6a70, 0x66063bca, 0x11010b5c, 0x8f659eff, 0xf862ae69, 0x616bffd3, 0x166ccf45,
     0xa00ae278, 0xd70dd2ee, 0x4e048354, 0x3903b3c2, 0xa7672661, 0xd06016f7, 0x4969474d, 0x3e6e77db,
     0xaed16a4a, 0xd9d65adc, 0x40df0b66, 0x37d83bf0, 0xa9bcae53, 0xdebb9ec5, 0x47b2cf7f, 0x30b5ffe9,
     0xbdbdf21c, 0xcabac28a, 0x53b39330, 0x24b4a3a6, 0xbad03605, 0xcdd70693, 0x54de5729, 0x23d967bf,
     0xb3667a2e, 0xc4614ab8, 0x5d681b02, 0x2a6f2b94, 0xb40bbe37, 0xc30c8ea1, 0x5a05df1b, 0x2d02ef8d]"

definition crc32 :: "char list \<Rightarrow> nat \<Rightarrow> 64 word" where
  \<comment> \<open>\<^verbatim>\<open>len\<close> is an \<^verbatim>\<open>unsigned int\<close>: a longer length is cut to 32 bits at the call\<close>
  "crc32 s len =
     foldl (\<lambda>crc c. (crc32_tab ! unat ((crc XOR of_char c) AND 0xff)) XOR drop_bit 8 crc) 0
       (take (len mod 2 ^ 32) s)"

definition hash_mix :: "64 word \<Rightarrow> 64 word" where
  "hash_mix key0 =
     (let key1 = key0 + push_bit 12 key0;
          key2 = key1 XOR drop_bit 22 key1;
          key3 = key2 + push_bit 4 key2;
          key4 = key3 XOR drop_bit 9 key3;
          key5 = key4 + push_bit 10 key4;
          key6 = key5 XOR drop_bit 2 key5;
          key7 = key6 + push_bit 7 key6;
          key8 = key7 XOR drop_bit 12 key7
      in drop_bit 3 key8 * 2654435761)"

definition hashmap_hash_int :: "nat \<Rightarrow> char list \<Rightarrow> nat" where
  "hashmap_hash_int table_sz key = unat (hash_mix (crc32 key (length key))) mod table_sz"

section \<open>The table\<close>

datatype map_status = MAP_OK | MAP_OMEM | MAP_FULL | MAP_MISSING

record 'v hashmap_element =
  ekey :: "char list"
  edata :: 'v

record 'v hashmap_map =
  table_size :: nat
  msize :: nat
  mdata :: "'v hashmap_element option list"

abbreviation INITIAL_SIZE :: nat where
  "INITIAL_SIZE \<equiv> 256"

abbreviation MAX_CHAIN_LENGTH :: nat where
  "MAX_CHAIN_LENGTH \<equiv> 8"

abbreviation INT_MAX :: nat where
  "INT_MAX \<equiv> 2147483647"

definition hashmap_new :: "'v hashmap_map" where
  "hashmap_new = \<lparr>table_size = INITIAL_SIZE, msize = 0, mdata = replicate INITIAL_SIZE None\<rparr>"

definition slot_has_key :: "'v hashmap_element option \<Rightarrow> char list \<Rightarrow> bool" where
  "slot_has_key s key = (case s of None \<Rightarrow> False | Some e \<Rightarrow> ekey e = key)"

fun probe_free ::
  "'v hashmap_element option list \<Rightarrow> nat \<Rightarrow> char list \<Rightarrow> nat \<Rightarrow> nat \<Rightarrow> nat option" where
  "probe_free d ts key cur 0 = None"
| "probe_free d ts key cur (Suc i) =
     (if d ! cur = None then Some cur
      else if slot_has_key (d ! cur) key then Some cur
      else probe_free d ts key ((cur + 1) mod ts) i)"

fun probe_key ::
  "'v hashmap_element option list \<Rightarrow> nat \<Rightarrow> char list \<Rightarrow> nat \<Rightarrow> nat \<Rightarrow> nat option" where
  "probe_key d ts key cur 0 = None"
| "probe_key d ts key cur (Suc i) =
     (if slot_has_key (d ! cur) key then Some cur
      else probe_key d ts key ((cur + 1) mod ts) i)"

definition hashmap_hash :: "'v hashmap_map \<Rightarrow> char list \<Rightarrow> nat option" where
  \<comment> \<open>\<open>None\<close> is \<^verbatim>\<open>MAP_FULL\<close>\<close>
  "hashmap_hash m key =
     (if msize m \<ge> table_size m div 2 then None
      else probe_free (mdata m) (table_size m) key
             (hashmap_hash_int (table_size m) key) MAX_CHAIN_LENGTH)"

definition hashmap_get :: "'v hashmap_map \<Rightarrow> char list \<Rightarrow> 'v option" where
  \<comment> \<open>\<open>None\<close> is \<^verbatim>\<open>MAP_MISSING\<close> with a null out-parameter\<close>
  "hashmap_get m key =
     (case probe_key (mdata m) (table_size m) key
             (hashmap_hash_int (table_size m) key) MAX_CHAIN_LENGTH of
        None \<Rightarrow> None
      | Some cur \<Rightarrow> map_option edata (mdata m ! cur))"

definition hashmap_remove :: "'v hashmap_map \<Rightarrow> char list \<Rightarrow> map_status \<times> 'v hashmap_map" where
  "hashmap_remove m key =
     (case probe_key (mdata m) (table_size m) key
             (hashmap_hash_int (table_size m) key) MAX_CHAIN_LENGTH of
        None \<Rightarrow> (MAP_MISSING, m)
      | Some cur \<Rightarrow> (MAP_OK, m\<lparr>mdata := (mdata m)[cur := None], msize := msize m - 1\<rparr>))"

definition hashmap_update :: "'v hashmap_map \<Rightarrow> char list \<Rightarrow> ('v \<Rightarrow> 'v) \<Rightarrow> 'v hashmap_map" where
  \<comment> \<open>a write through the pointer that \<^verbatim>\<open>hashmap_get\<close> returned\<close>
  "hashmap_update m key f =
     (case probe_key (mdata m) (table_size m) key
             (hashmap_hash_int (table_size m) key) MAX_CHAIN_LENGTH of
        None \<Rightarrow> m
      | Some cur \<Rightarrow>
          m\<lparr>mdata := (mdata m)[cur := map_option (\<lambda>e. e\<lparr>edata := f (edata e)\<rparr>) (mdata m ! cur)]\<rparr>)"

definition hashmap_store :: "'v hashmap_map \<Rightarrow> nat \<Rightarrow> char list \<Rightarrow> 'v \<Rightarrow> 'v hashmap_map" where
  "hashmap_store m index key value =
     m\<lparr>msize := (if mdata m ! index \<noteq> None then msize m else msize m + 1),
       mdata := (mdata m)[index := Some \<lparr>ekey = key, edata = value\<rparr>]\<rparr>"

type_synonym 'v put_fn =
  "'v hashmap_map \<Rightarrow> char list \<Rightarrow> 'v \<Rightarrow> (map_status \<times> 'v hashmap_map) res"

fun rehash_loop ::
  "'v put_fn \<Rightarrow> 'v hashmap_element option list \<Rightarrow> 'v hashmap_map \<Rightarrow> (map_status \<times> 'v hashmap_map) res"
where
  "rehash_loop put [] m = Inr (MAP_OK, m)"
| "rehash_loop put (None # es) m = rehash_loop put es m"
| "rehash_loop put (Some e # es) m =
     rbind (put m (ekey e) (edata e)) (\<lambda>(status, m').
       if status \<noteq> MAP_OK then Inr (status, m') else rehash_loop put es m')"

definition rehash_with ::
  "(nat \<Rightarrow> bool) \<Rightarrow> 'v put_fn \<Rightarrow> 'v hashmap_map \<Rightarrow> (map_status \<times> 'v hashmap_map) res" where
  "rehash_with cal put m =
     (if 2 * table_size m > INT_MAX then Inl SignedOverflow
      else if \<not> cal (2 * table_size m) then Inr (MAP_OMEM, m)
      else rehash_loop put (mdata m)
             \<lparr>table_size = 2 * table_size m, msize = 0, mdata = replicate (2 * table_size m) None\<rparr>)"

primrec put_fuel :: "(nat \<Rightarrow> bool) \<Rightarrow> nat \<Rightarrow> 'v put_fn" where
  "put_fuel cal 0 = (\<lambda>m key value. Inl OutOfFuel)"
| "put_fuel cal (Suc fuel) = (\<lambda>m key value.
     case hashmap_hash m key of
       Some index \<Rightarrow> Inr (MAP_OK, hashmap_store m index key value)
     | None \<Rightarrow> rbind (rehash_with cal (put_fuel cal fuel) m) (\<lambda>(status, m').
         if status = MAP_OMEM then Inr (MAP_OMEM, m') else put_fuel cal fuel m' key value))"

text \<open>
  Each unit of fuel is one doubling of an \<^verbatim>\<open>int\<close> table size, so 31 units are enough for a table
  of any positive size (lemma \<open>put_fuel_enough\<close> below).
\<close>

definition hashmap_put :: "(nat \<Rightarrow> bool) \<Rightarrow> 'v put_fn" where
  "hashmap_put cal = put_fuel cal 31"

definition hashmap_rehash :: "(nat \<Rightarrow> bool) \<Rightarrow> 'v hashmap_map \<Rightarrow> (map_status \<times> 'v hashmap_map) res" where
  "hashmap_rehash cal m = rehash_with cal (put_fuel cal 31) m"

fun iterate_loop ::
  "('s \<Rightarrow> 'v \<Rightarrow> map_status \<times> 's) \<Rightarrow> 's \<Rightarrow> 'v hashmap_element option list \<Rightarrow> map_status \<times> 's" where
  "iterate_loop f item [] = (MAP_OK, item)"
| "iterate_loop f item (None # es) = iterate_loop f item es"
| "iterate_loop f item (Some e # es) =
     (case f item (edata e) of (status, item') \<Rightarrow>
        if status \<noteq> MAP_OK then (status, item') else iterate_loop f item' es)"

definition hashmap_length :: "'v hashmap_map \<Rightarrow> nat" where
  "hashmap_length m = msize m"

definition hashmap_iterate ::
  "'v hashmap_map \<Rightarrow> ('s \<Rightarrow> 'v \<Rightarrow> map_status \<times> 's) \<Rightarrow> 's \<Rightarrow> map_status \<times> 's" where
  "hashmap_iterate m f item =
     (if hashmap_length m = 0 then (MAP_MISSING, item) else iterate_loop f item (mdata m))"

end
