(* ===== verification/Septic_Tank.thy ===== *)
theory Septic_Tank
  imports Data Hashmap
begin

text \<open>
  The store actor (\<^verbatim>\<open>septic_tank/\<close>): operations sent by clients, the resolve half that reads the
  table and computes a result with an optional mutation, the apply half that writes, and
  \<open>septic_tank_digest\<close>, one turn of the actor's loop. \<open>clk i\<close> is the \<open>i\<close>-th reading of
  \<^verbatim>\<open>CLOCK_REALTIME\<close> during the call, \<open>cal\<close> tells which allocations of a rehash succeed.
  Results live in arenas in the code; the model passes them by value.
\<close>

section \<open>Operations, mutations and results\<close>

datatype expiration_type = ST_EXPIRATION_NO_EXPIRE | ST_EXPIRATION_UNIX_TS | ST_EXPIRATION_KEEP_OLD

record expiration =
  etype :: expiration_type
  ets :: int64

record set_operation =
  so_key :: "char list"
  so_value :: "char list"
  so_nx :: bool
  so_xx :: bool
  so_get :: bool
  so_expiration :: expiration

datatype expire_condition =
  EXPIRE_COND_NONE | EXPIRE_COND_NX | EXPIRE_COND_XX | EXPIRE_COND_GT | EXPIRE_COND_LT

record expire_operation =
  eo_key :: "char list"
  eo_expires_at :: int64
  eo_condition :: expire_condition

record incrby_operation =
  io_key :: "char list"
  io_delta :: int64

datatype operation_type =
    SEPTIC_TANK_SET
  | SEPTIC_TANK_DEL
  | SEPTIC_TANK_EXPIRE
  | SEPTIC_TANK_INCRBY
  | SEPTIC_TANK_GET
  | SEPTIC_TANK_TTL
  | SEPTIC_TANK_EXISTS

datatype operation =
    Set_op set_operation
  | Get_op "char list"
  | Del_op "char list"
  | Ttl_op "char list"
  | Exists_op "char list"
  | Expire_op expire_operation
  | Incrby_op incrby_operation

text \<open>
  A mutation is a tagged union in the code: \<open>Other_mutation\<close> stands for a tag that has no member
  in the union.
\<close>

datatype mutation =
    Set_mutation "char list" "char list" int64
  | Del_mutation "char list"
  | Expire_mutation "char list" int64
  | Other_mutation operation_type

abbreviation ST_MUTATION_NO_EXPIRY :: int64 where
  "ST_MUTATION_NO_EXPIRY \<equiv> - 1"

datatype result_value =
    Set_result "char list option"
  | Get_result "char list option"
  | Del_result nat
  | Ttl_result int64
  | Exists_result int64
  | Expire_result int64
  | Incrby_result int64
  | Unset_result

record septic_tank_result =
  rtype :: operation_type
  rvalue :: result_value
  resolved_mutation :: "mutation option"
  success :: bool
  error :: "char list option"

abbreviation WRONGTYPE :: "char list" where
  "WRONGTYPE \<equiv> ''WRONGTYPE Operation against a key holding the wrong kind of value''"

type_synonym store = "data_entry hashmap_map"

type_synonym clock = "nat \<Rightarrow> timespec"

definition blank_result :: "operation_type \<Rightarrow> result_value \<Rightarrow> septic_tank_result" where
  "blank_result ty v =
     \<lparr>rtype = ty, rvalue = v, resolved_mutation = None, success = True, error = None\<rparr>"

definition fail_with :: "char list \<Rightarrow> septic_tank_result \<Rightarrow> septic_tank_result" where
  "fail_with msg r = r\<lparr>success := False, error := Some msg\<rparr>"

definition evict :: "store \<Rightarrow> char list \<Rightarrow> store" where
  "evict m key = snd (hashmap_remove m key)"

definition expiry_field :: "int64 option \<Rightarrow> int64" where
  \<comment> \<open>the \<^verbatim>\<open>expires_at\<close> field of a mutation\<close>
  "expiry_field e = (case e of None \<Rightarrow> ST_MUTATION_NO_EXPIRY | Some v \<Rightarrow> v)"

section \<open>SET\<close>

definition set_expires_at :: "expiration \<Rightarrow> data_entry option \<Rightarrow> int64 option" where
  "set_expires_at ex old_entry =
     (case etype ex of
        ST_EXPIRATION_NO_EXPIRE \<Rightarrow> None
      | ST_EXPIRATION_UNIX_TS \<Rightarrow> Some (ets ex)
      | ST_EXPIRATION_KEEP_OLD \<Rightarrow> (case old_entry of Some e \<Rightarrow> expires_at e | None \<Rightarrow> None))"

definition copy_old_value :: "data_entry option \<Rightarrow> char list option res" where
  "copy_old_value old_entry =
     (case old_entry of
        None \<Rightarrow> Inr None
      | Some e \<Rightarrow> rbind (data_unwrap_string e) (\<lambda>v. Inr (Some (data_copy_string_arena v))))"

definition entry_is_expired :: "timespec \<Rightarrow> data_entry option \<Rightarrow> bool res" where
  \<comment> \<open>\<^verbatim>\<open>entry != NULL && data_is_expired(entry)\<close>\<close>
  "entry_is_expired ts entry =
     (case entry of None \<Rightarrow> Inr False | Some e \<Rightarrow> data_is_expired ts e)"

definition septic_tank_resolve_set ::
  "clock \<Rightarrow> store \<Rightarrow> set_operation \<Rightarrow> (store \<times> septic_tank_result) res" where
  "septic_tank_resolve_set clk m op =
     (let key = so_key op;
          result = blank_result SEPTIC_TANK_SET (Set_result None);
          old_entry = hashmap_get m key
      in rbind (entry_is_expired (clk 0) old_entry) (\<lambda>old_entry_is_expired.
        if (case old_entry of None \<Rightarrow> False
            | Some e \<Rightarrow> \<not> old_entry_is_expired \<and> dtype e \<noteq> DATA_STRING)
        then Inr (m, fail_with WRONGTYPE result)
        else if so_nx op \<and> old_entry \<noteq> None \<and> \<not> old_entry_is_expired
        then (if so_get op
              then rbind (copy_old_value old_entry) (\<lambda>v. Inr (m, result\<lparr>rvalue := Set_result v\<rparr>))
              else Inr (m, result))
        else if so_xx op \<and> (old_entry = None \<or> old_entry_is_expired)
        then Inr (if old_entry_is_expired then evict m key else m, result)
        else
          let m' = (if old_entry \<noteq> None \<and> old_entry_is_expired then evict m key else m);
              entry = (if old_entry \<noteq> None \<and> old_entry_is_expired then None else old_entry);
              mutation = Set_mutation key (so_value op)
                (expiry_field (set_expires_at (so_expiration op) entry))
          in rbind (if so_get op then copy_old_value entry else Inr None) (\<lambda>v.
               Inr (m', result\<lparr>rvalue := Set_result v, resolved_mutation := Some mutation\<rparr>))))"

definition septic_tank_apply_set ::
  "(nat \<Rightarrow> bool) \<Rightarrow> store \<Rightarrow> char list \<Rightarrow> char list \<Rightarrow> int64 \<Rightarrow> store res" where
  \<comment> \<open>the status that \<^verbatim>\<open>hashmap_put\<close> returns is not looked at\<close>
  "septic_tank_apply_set cal m key value at =
     (let exp = (if at = ST_MUTATION_NO_EXPIRY then None else Some at);
          entry = data_create_string_entry exp value
      in rbind (hashmap_put cal m key entry) (\<lambda>(_, m'). Inr m'))"

section \<open>GET, DEL, TTL, EXISTS\<close>

definition septic_tank_get ::
  "clock \<Rightarrow> store \<Rightarrow> char list \<Rightarrow> (store \<times> septic_tank_result) res" where
  "septic_tank_get clk m key =
     (let result = blank_result SEPTIC_TANK_GET Unset_result in
      case hashmap_get m key of
        None \<Rightarrow> Inr (m, result\<lparr>rvalue := Get_result None\<rparr>)
      | Some entry \<Rightarrow> rbind (data_is_expired (clk 0) entry) (\<lambda>is_expired.
          if is_expired then Inr (evict m key, result\<lparr>rvalue := Get_result None\<rparr>)
          else if dtype entry \<noteq> DATA_STRING then Inr (m, fail_with WRONGTYPE result)
          else rbind (data_unwrap_string entry) (\<lambda>value.
            Inr (m, result\<lparr>rvalue := Get_result (Some (data_copy_string_arena value))\<rparr>))))"

definition septic_tank_resolve_del ::
  "clock \<Rightarrow> store \<Rightarrow> char list \<Rightarrow> (store \<times> septic_tank_result) res" where
  "septic_tank_resolve_del clk m key =
     (let result = blank_result SEPTIC_TANK_DEL (Del_result 0) in
      case hashmap_get m key of
        None \<Rightarrow> Inr (m, result)
      | Some entry \<Rightarrow> rbind (data_is_expired (clk 0) entry) (\<lambda>is_expired.
          if is_expired then Inr (evict m key, result)
          else Inr (m, result\<lparr>rvalue := Del_result 1, resolved_mutation := Some (Del_mutation key)\<rparr>)))"

definition septic_tank_apply_del :: "store \<Rightarrow> char list \<Rightarrow> store" where
  "septic_tank_apply_del m key = snd (hashmap_remove m key)"

definition septic_tank_ttl ::
  "clock \<Rightarrow> store \<Rightarrow> char list \<Rightarrow> (store \<times> septic_tank_result) res" where
  "septic_tank_ttl clk m key =
     (let result = blank_result SEPTIC_TANK_GET Unset_result in
      case hashmap_get m key of
        None \<Rightarrow> Inr (m, result\<lparr>rvalue := Ttl_result (- 2)\<rparr>)
      | Some entry \<Rightarrow>
          (case expires_at entry of
             None \<Rightarrow> Inr (m, result\<lparr>rvalue := Ttl_result (- 1)\<rparr>)
           | Some value \<Rightarrow>
               rbind (int64_of (c_div (sint value) 1000 - sint (tv_sec (clk 0)))) (\<lambda>ttl_s.
                 Inr (m, result\<lparr>rvalue := Ttl_result ttl_s\<rparr>))))"

definition septic_tank_exists ::
  "clock \<Rightarrow> store \<Rightarrow> char list \<Rightarrow> (store \<times> septic_tank_result) res" where
  "septic_tank_exists clk m key =
     (let result = blank_result SEPTIC_TANK_EXISTS (Exists_result 0) in
      case hashmap_get m key of
        None \<Rightarrow> Inr (m, result)
      | Some entry \<Rightarrow> rbind (data_is_expired (clk 0) entry) (\<lambda>is_expired.
          Inr (if is_expired then evict m key else m,
               if \<not> is_expired then result\<lparr>rvalue := Exists_result 1\<rparr> else result)))"

section \<open>EXPIRE\<close>

definition expire_is_noop :: "expire_condition \<Rightarrow> int64 \<Rightarrow> int64 option \<Rightarrow> bool" where
  "expire_is_noop cond at old =
     (case old of
        None \<Rightarrow> cond = EXPIRE_COND_XX \<or> cond = EXPIRE_COND_GT
      | Some value \<Rightarrow> cond = EXPIRE_COND_NX \<or>
          (cond = EXPIRE_COND_GT \<and> sint at \<le> sint value) \<or>
          (cond = EXPIRE_COND_LT \<and> sint value \<le> sint at))"

definition septic_tank_resolve_expire ::
  "clock \<Rightarrow> store \<Rightarrow> expire_operation \<Rightarrow> (store \<times> septic_tank_result) res" where
  \<comment> \<open>the clock is read by \<^verbatim>\<open>data_is_expired\<close>, if the entry has an expiry, and then again\<close>
  "septic_tank_resolve_expire clk m op =
     (let key = eo_key op; result = blank_result SEPTIC_TANK_EXPIRE (Expire_result 0) in
      case hashmap_get m key of
        None \<Rightarrow> Inr (m, result)
      | Some entry \<Rightarrow> rbind (data_is_expired (clk 0) entry) (\<lambda>is_expired.
          if is_expired then Inr (evict m key, result)
          else if expire_is_noop (eo_condition op) (eo_expires_at op) (expires_at entry)
          then Inr (m, result)
          else rbind (data_now_ms (clk 1)) (\<lambda>now.
            Inr (m, result\<lparr>rvalue := Expire_result 1,
                 resolved_mutation := Some
                   (if sint (eo_expires_at op) \<le> sint now then Del_mutation key
                    else Expire_mutation key (eo_expires_at op))\<rparr>))))"

definition septic_tank_apply_expire :: "store \<Rightarrow> char list \<Rightarrow> int64 \<Rightarrow> store" where
  "septic_tank_apply_expire m key at =
     (case hashmap_get m key of
        None \<Rightarrow> m
      | Some entry \<Rightarrow> hashmap_update m key (\<lambda>e. e\<lparr>expires_at := Some at\<rparr>))"

section \<open>INCRBY\<close>

definition incrby_overflows :: "int64 \<Rightarrow> int64 \<Rightarrow> bool" where
  "incrby_overflows value delta \<longleftrightarrow>
     (sint delta > 0 \<and> sint value > INT64_MAX - sint delta) \<or>
     (sint delta < 0 \<and> sint value < INT64_MIN - sint delta)"

definition septic_tank_resolve_incrby ::
  "clock \<Rightarrow> store \<Rightarrow> incrby_operation \<Rightarrow> (store \<times> septic_tank_result) res" where
  "septic_tank_resolve_incrby clk m op =
     (let key = io_key op; result = blank_result SEPTIC_TANK_INCRBY (Incrby_result 0);
          found = hashmap_get m key
      in rbind (entry_is_expired (clk 0) found) (\<lambda>is_expired.
        let entry = (if found \<noteq> None \<and> is_expired then None else found) in
        if (case entry of None \<Rightarrow> False | Some e \<Rightarrow> dtype e \<noteq> DATA_STRING)
        then Inr (m, fail_with WRONGTYPE result)
        else rbind (case entry of None \<Rightarrow> Inr (Some 0)
                    | Some e \<Rightarrow> rbind (data_unwrap_string e) (\<lambda>s. Inr (parse_int64 s))) (\<lambda>parsed.
          case parsed of
            None \<Rightarrow> Inr (m, fail_with ''ERR value is not an integer or out of range'' result)
          | Some value \<Rightarrow>
              if incrby_overflows value (io_delta op)
              then Inr (m, fail_with ''Integer overflow'' result)
              else rbind (int64_of (sint value + sint (io_delta op))) (\<lambda>value'.
                Inr (m, result\<lparr>rvalue := Incrby_result value',
                     resolved_mutation := Some (Set_mutation key (data_string_from_int64 value')
                       (expiry_field (case entry of None \<Rightarrow> None | Some e \<Rightarrow> expires_at e)))\<rparr>)))))"

section \<open>Applying a mutation\<close>

fun septic_tank_apply_mutation :: "(nat \<Rightarrow> bool) \<Rightarrow> store \<Rightarrow> mutation \<Rightarrow> store res" where
  "septic_tank_apply_mutation cal m (Set_mutation key value at) = septic_tank_apply_set cal m key value at"
| "septic_tank_apply_mutation cal m (Del_mutation key) = Inr (septic_tank_apply_del m key)"
| "septic_tank_apply_mutation cal m (Expire_mutation key at) = Inr (septic_tank_apply_expire m key at)"
| "septic_tank_apply_mutation cal m (Other_mutation _) = Inl Unreachable"

definition septic_tank_replay_mutation :: "(nat \<Rightarrow> bool) \<Rightarrow> store \<Rightarrow> mutation \<Rightarrow> store res" where
  "septic_tank_replay_mutation cal m mutation = septic_tank_apply_mutation cal m mutation"

fun septic_tank_mutation_clone :: "mutation \<Rightarrow> mutation res" where
  "septic_tank_mutation_clone (Set_mutation key value at) =
     Inr (Set_mutation (data_copy_string_arena key) (data_copy_string_arena value) at)"
| "septic_tank_mutation_clone (Del_mutation key) = Inr (Del_mutation (data_copy_string_arena key))"
| "septic_tank_mutation_clone (Expire_mutation key at) =
     Inr (Expire_mutation (data_copy_string_arena key) at)"
| "septic_tank_mutation_clone (Other_mutation _) = Inl Unreachable"

fun clone_operation :: "operation \<Rightarrow> operation" where
  "clone_operation (Set_op op) =
     Set_op (op\<lparr>so_key := data_copy_string_arena (so_key op), so_value := data_copy_string_arena (so_value op)\<rparr>)"
| "clone_operation (Get_op key) = Get_op (data_copy_string_arena key)"
| "clone_operation (Del_op key) = Del_op (data_copy_string_arena key)"
| "clone_operation (Ttl_op key) = Ttl_op (data_copy_string_arena key)"
| "clone_operation (Exists_op key) = Exists_op (data_copy_string_arena key)"
| "clone_operation (Expire_op op) = Expire_op (op\<lparr>eo_key := data_copy_string_arena (eo_key op)\<rparr>)"
| "clone_operation (Incrby_op op) = Incrby_op (op\<lparr>io_key := data_copy_string_arena (io_key op)\<rparr>)"

section \<open>The actor\<close>

record septic_tank =
  tank_data :: store
  aof_enabled :: bool

definition septic_tank_create :: septic_tank where
  "septic_tank_create = \<lparr>tank_data = hashmap_new, aof_enabled = True\<rparr>"

definition septic_tank_disable_aof :: "septic_tank \<Rightarrow> septic_tank" where
  "septic_tank_disable_aof st = st\<lparr>aof_enabled := False\<rparr>"

definition septic_tank_enable_aof :: "septic_tank \<Rightarrow> septic_tank" where
  "septic_tank_enable_aof st = st\<lparr>aof_enabled := True\<rparr>"

fun septic_tank_resolve :: "clock \<Rightarrow> store \<Rightarrow> operation \<Rightarrow> (store \<times> septic_tank_result) res" where
  "septic_tank_resolve clk m (Get_op key) = septic_tank_get clk m key"
| "septic_tank_resolve clk m (Set_op op) = septic_tank_resolve_set clk m op"
| "septic_tank_resolve clk m (Del_op key) = septic_tank_resolve_del clk m key"
| "septic_tank_resolve clk m (Ttl_op key) = septic_tank_ttl clk m key"
| "septic_tank_resolve clk m (Exists_op key) = septic_tank_exists clk m key"
| "septic_tank_resolve clk m (Expire_op op) = septic_tank_resolve_expire clk m op"
| "septic_tank_resolve clk m (Incrby_op op) = septic_tank_resolve_incrby clk m op"

text \<open>
  One turn: the new tank, the response sent when the message asks for one (\<open>clogged\<close>), and the
  mutation handed to the persistence queue. The mutation is the one the result carries: the
  model reads it where the code reads it through the result, after the response is sent.
\<close>

definition septic_tank_digest ::
  "(nat \<Rightarrow> bool) \<Rightarrow> clock \<Rightarrow> septic_tank \<Rightarrow> operation \<Rightarrow> bool \<Rightarrow>
     (septic_tank \<times> septic_tank_result option \<times> mutation option) res" where
  "septic_tank_digest cal clk tank op clogged =
     rbind (septic_tank_resolve clk (tank_data tank) op) (\<lambda>(m, result).
       let succeeded = success result in
       rbind (case resolved_mutation result of
                Some mutation \<Rightarrow> if succeeded then septic_tank_apply_mutation cal m mutation else Inr m
              | None \<Rightarrow> Inr m) (\<lambda>m'.
         Inr (tank\<lparr>tank_data := m'\<rparr>,
              if clogged then Some result else None,
              if aof_enabled tank \<and> succeeded then resolved_mutation result else None)))"

end
