(* ===== verification/Hashmap_Correct.thy ===== *)
theory Hashmap_Correct
  imports Hashmap
begin

text \<open>
  Correctness of the hash map. A table is well-formed (\<open>map_inv\<close>) when every element lies in the
  probe window of its key, no key occurs twice and the element count is right. On such tables
  lookups and removals implement those of a finite map, and so do insertions as long as the probe
  of the key does not meet a free slot in front of an existing element of that key (\<open>chain_ok\<close>).
  Tables that were only ever inserted into (\<open>chain_closed\<close>) satisfy the proviso for every key.
\<close>

section \<open>Probing\<close>

lemma mod_step: "(Suc c mod ts + j) mod ts = Suc (c + j) mod (ts :: nat)"
  using mod_add_left_eq [of "Suc c" ts j] by simp

lemma probe_key_Some_iff:
  assumes "c < ts"
  shows "probe_key d ts k c n = Some i \<longleftrightarrow>
    (\<exists>j<n. i = (c + j) mod ts \<and> slot_has_key (d ! i) k \<and>
       (\<forall>j'<j. \<not> slot_has_key (d ! ((c + j') mod ts)) k))"
  using assms
proof (induction n arbitrary: c)
  case (Suc n)
  have "0 < ts" using Suc.prems by simp
  then have lt: "Suc c mod ts < ts" by simp
  show ?case
  proof (cases "slot_has_key (d ! c) k")
    case True
    then show ?thesis
      using Suc.prems by (auto simp: less_Suc_eq_0_disj intro: gr0I)
  next
    case False
    then show ?thesis
      using Suc.IH [OF lt] Suc.prems
      by (auto simp: Ex_less_Suc2 All_less_Suc2 mod_step)
  qed
qed simp

lemma probe_key_None_iff:
  assumes "c < ts"
  shows "probe_key d ts k c n = None \<longleftrightarrow> (\<forall>j<n. \<not> slot_has_key (d ! ((c + j) mod ts)) k)"
  using assms
proof (induction n arbitrary: c)
  case (Suc n)
  have "0 < ts" using Suc.prems by simp
  then have lt: "Suc c mod ts < ts" by simp
  show ?case
    using Suc.IH [OF lt] Suc.prems by (simp add: All_less_Suc2 mod_step)
qed simp

lemma probe_free_Some_iff:
  assumes "c < ts"
  shows "probe_free d ts k c n = Some i \<longleftrightarrow>
    (\<exists>j<n. i = (c + j) mod ts \<and> (d ! i = None \<or> slot_has_key (d ! i) k) \<and>
       (\<forall>j'<j. d ! ((c + j') mod ts) \<noteq> None \<and> \<not> slot_has_key (d ! ((c + j') mod ts)) k))"
  using assms
proof (induction n arbitrary: c)
  case (Suc n)
  have "0 < ts" using Suc.prems by simp
  then have lt: "Suc c mod ts < ts" by simp
  show ?case
  proof (cases "d ! c = None \<or> slot_has_key (d ! c) k")
    case True
    then show ?thesis
      using Suc.prems by (auto simp: less_Suc_eq_0_disj intro: gr0I)
  next
    case False
    then show ?thesis
      using Suc.IH [OF lt] Suc.prems
      by (auto simp: Ex_less_Suc2 All_less_Suc2 mod_step)
  qed
qed simp

section \<open>Well-formed tables\<close>

definition home :: "'v hashmap_map \<Rightarrow> char list \<Rightarrow> nat" where
  "home m k = hashmap_hash_int (table_size m) k"

definition occupied :: "'v hashmap_map \<Rightarrow> nat set" where
  "occupied m = {i. i < table_size m \<and> mdata m ! i \<noteq> None}"

definition map_inv :: "'v hashmap_map \<Rightarrow> bool" where
  "map_inv m \<longleftrightarrow>
     length (mdata m) = table_size m \<and> MAX_CHAIN_LENGTH \<le> table_size m \<and> table_size m \<le> INT_MAX \<and>
     msize m = card (occupied m) \<and>
     (\<forall>i<table_size m. \<forall>e. mdata m ! i = Some e \<longrightarrow>
        (\<exists>j<MAX_CHAIN_LENGTH. i = (home m (ekey e) + j) mod table_size m)) \<and>
     (\<forall>i<table_size m. \<forall>j<table_size m. \<forall>e f. mdata m ! i = Some e \<longrightarrow> mdata m ! j = Some f \<longrightarrow>
        ekey e = ekey f \<longrightarrow> i = j)"

definition chain_ok :: "'v hashmap_map \<Rightarrow> char list \<Rightarrow> bool" where
  "chain_ok m k \<longleftrightarrow>
     (case probe_free (mdata m) (table_size m) k (home m k) MAX_CHAIN_LENGTH of
        None \<Rightarrow> True
      | Some i \<Rightarrow> mdata m ! i = None \<longrightarrow> hashmap_get m k = None)"

definition chain_closed :: "'v hashmap_map \<Rightarrow> bool" where
  "chain_closed m \<longleftrightarrow>
     (\<forall>i<table_size m. \<forall>e. \<forall>j<MAX_CHAIN_LENGTH. mdata m ! i = Some e \<longrightarrow>
        i = (home m (ekey e) + j) mod table_size m \<longrightarrow>
        (\<forall>j'<j. mdata m ! ((home m (ekey e) + j') mod table_size m) \<noteq> None))"

lemma finite_occupied [simp]: "finite (occupied m)"
  by (simp add: occupied_def)

lemma map_inv_pos: "map_inv m \<Longrightarrow> 0 < table_size m"
  by (simp add: map_inv_def)

lemma home_less: "map_inv m \<Longrightarrow> home m k < table_size m"
  using map_inv_pos [of m] by (simp add: home_def hashmap_hash_int_def)

lemma slot_has_key_iff: "slot_has_key s k \<longleftrightarrow> (\<exists>v. s = Some \<lparr>ekey = k, edata = v\<rparr>)"
  by (auto simp: slot_has_key_def split: option.splits) (metis hashmap_element.surjective old.unit.exhaust)

lemma map_invI:
  assumes "length (mdata m) = table_size m" "MAX_CHAIN_LENGTH \<le> table_size m" "table_size m \<le> INT_MAX"
    and "msize m = card (occupied m)"
    and "\<And>i e. i < table_size m \<Longrightarrow> mdata m ! i = Some e \<Longrightarrow>
      \<exists>j<MAX_CHAIN_LENGTH. i = (home m (ekey e) + j) mod table_size m"
    and "\<And>i j e f. i < table_size m \<Longrightarrow> j < table_size m \<Longrightarrow> mdata m ! i = Some e \<Longrightarrow>
      mdata m ! j = Some f \<Longrightarrow> ekey e = ekey f \<Longrightarrow> i = j"
  shows "map_inv m"
  unfolding map_inv_def using assms by blast

lemma map_inv_windowD:
  "map_inv m \<Longrightarrow> i < table_size m \<Longrightarrow> mdata m ! i = Some e \<Longrightarrow>
     \<exists>j<MAX_CHAIN_LENGTH. i = (home m (ekey e) + j) mod table_size m"
  by (auto simp: map_inv_def)

lemma map_inv_uniqueD:
  "map_inv m \<Longrightarrow> i < table_size m \<Longrightarrow> j < table_size m \<Longrightarrow> mdata m ! i = Some e \<Longrightarrow>
     mdata m ! j = Some f \<Longrightarrow> ekey e = ekey f \<Longrightarrow> i = j"
  unfolding map_inv_def by blast

lemma probe_key_iff:
  assumes inv: "map_inv m"
  shows "probe_key (mdata m) (table_size m) k (hashmap_hash_int (table_size m) k) MAX_CHAIN_LENGTH = Some i
    \<longleftrightarrow> i < table_size m \<and> slot_has_key (mdata m ! i) k"
  (is "?P = Some i \<longleftrightarrow> _")
proof -
  note h = home_less [OF inv, of k]
  note pk = probe_key_Some_iff [OF h, of "mdata m" k MAX_CHAIN_LENGTH, folded home_def]
  show ?thesis
  proof
    assume "?P = Some i"
    then show "i < table_size m \<and> slot_has_key (mdata m ! i) k"
      using pk [of i] map_inv_pos [OF inv] by (auto simp: home_def)
  next
    assume i: "i < table_size m \<and> slot_has_key (mdata m ! i) k"
    then obtain v where v: "mdata m ! i = Some \<lparr>ekey = k, edata = v\<rparr>"
      by (auto simp: slot_has_key_iff)
    then obtain j where j: "j < MAX_CHAIN_LENGTH" "i = (home m k + j) mod table_size m"
      using map_inv_windowD [OF inv _ v] i by auto
    have "\<not> ?P = None"
      using probe_key_None_iff [OF h, of "mdata m" k MAX_CHAIN_LENGTH] i j
      unfolding home_def by blast
    then obtain i' where i': "?P = Some i'" by blast
    then have "i' < table_size m" "slot_has_key (mdata m ! i') k"
      using pk [of i'] map_inv_pos [OF inv] by (auto simp: home_def)
    then have "i' = i"
      using map_inv_uniqueD [OF inv] i by (auto simp: slot_has_key_iff)
    with i' show "?P = Some i" by simp
  qed
qed

lemma get_Some_iff:
  assumes "map_inv m"
  shows "hashmap_get m k = Some v \<longleftrightarrow>
    (\<exists>i<table_size m. mdata m ! i = Some \<lparr>ekey = k, edata = v\<rparr>)"
proof (cases "probe_key (mdata m) (table_size m) k (hashmap_hash_int (table_size m) k) MAX_CHAIN_LENGTH")
  case None
  then show ?thesis
    using probe_key_iff [OF assms, of k] by (auto simp: hashmap_get_def slot_has_key_iff)
next
  case (Some c)
  then have c: "c < table_size m" "slot_has_key (mdata m ! c) k"
    using probe_key_iff [OF assms, of k c] by auto
  then obtain w where w: "mdata m ! c = Some \<lparr>ekey = k, edata = w\<rparr>"
    by (auto simp: slot_has_key_iff)
  have "w = v" if "i < table_size m" "mdata m ! i = Some \<lparr>ekey = k, edata = v\<rparr>" for i
    using map_inv_uniqueD [OF assms that(1) c(1) that(2) w] that(2) w by simp
  moreover have "\<exists>i<table_size m. mdata m ! i = Some \<lparr>ekey = k, edata = v\<rparr>" if "w = v"
    using w c(1) that by blast
  ultimately have "w = v \<longleftrightarrow> (\<exists>i<table_size m. mdata m ! i = Some \<lparr>ekey = k, edata = v\<rparr>)"
    by blast
  with Some w show ?thesis by (simp add: hashmap_get_def)
qed

lemma get_None_iff:
  assumes "map_inv m"
  shows "hashmap_get m k = None \<longleftrightarrow> (\<forall>i<table_size m. \<not> slot_has_key (mdata m ! i) k)"
proof -
  have "hashmap_get m k = None \<longleftrightarrow> (\<forall>v. hashmap_get m k \<noteq> Some v)" by auto
  then show ?thesis by (auto simp: get_Some_iff [OF assms] slot_has_key_iff)
qed

lemma slot_update_lookup:
  assumes nth: "\<And>i. i < n \<Longrightarrow> d' i = (if i = c then x else d i)" and c: "c < (n :: nat)"
    and x: "x = None \<or> slot_has_key x k"
    and only: "\<And>i. i < n \<Longrightarrow> i \<noteq> c \<Longrightarrow> \<not> slot_has_key (d i) k"
    and old: "d c = None \<or> slot_has_key (d c) k"
  shows "(\<exists>i<n. d' i = Some \<lparr>ekey = k', edata = v'\<rparr>) \<longleftrightarrow>
    (if k' = k then x = Some \<lparr>ekey = k', edata = v'\<rparr>
     else \<exists>i<n. d i = Some \<lparr>ekey = k', edata = v'\<rparr>)"
proof -
  let ?y = "Some \<lparr>ekey = k', edata = v'\<rparr>"
  have split: "(\<exists>i<n. d' i = ?y) \<longleftrightarrow> x = ?y \<or> (\<exists>i<n. i \<noteq> c \<and> d i = ?y)"
    using nth c by metis
  show ?thesis
  proof (cases "k' = k")
    case True
    have "\<not> (\<exists>i<n. i \<noteq> c \<and> d i = ?y)"
      using only True by (auto simp: slot_has_key_iff)
    with split True show ?thesis by metis
  next
    case False
    then have "x \<noteq> ?y" and "d c \<noteq> ?y"
      using x old by (auto simp: slot_has_key_def)
    then have "(\<exists>i<n. i \<noteq> c \<and> d i = ?y) \<longleftrightarrow> (\<exists>i<n. d i = ?y)" by metis
    with split False \<open>x \<noteq> ?y\<close> show ?thesis by simp
  qed
qed

lemma map_eqI: "(\<And>k v. f k = Some v \<longleftrightarrow> g k = Some v) \<Longrightarrow> f = g"
  by (rule ext) (metis not_None_eq)


section \<open>Lookup, removal and update in place\<close>

lemma map_inv_new: "map_inv hashmap_new" and chain_closed_new: "chain_closed hashmap_new"
  by (auto simp: map_inv_def hashmap_new_def occupied_def chain_closed_def)

lemma get_new: "hashmap_get hashmap_new k = None"
  by (subst get_None_iff [OF map_inv_new]) (simp add: hashmap_new_def slot_has_key_def)

lemma remove_ok:
  assumes inv: "map_inv m" and rm: "hashmap_remove m k = (st, m')"
  shows "map_inv m'" and "hashmap_get m' = (hashmap_get m)(k := None)"
    and "st = (if hashmap_get m k = None then MAP_MISSING else MAP_OK)"
proof -
  let ?P = "probe_key (mdata m) (table_size m) k (hashmap_hash_int (table_size m) k) MAX_CHAIN_LENGTH"
  have "map_inv m' \<and> hashmap_get m' = (hashmap_get m)(k := None) \<and>
      st = (if hashmap_get m k = None then MAP_MISSING else MAP_OK)"
  proof (cases ?P)
    case None
    then have "hashmap_get m k = None" by (simp add: hashmap_get_def)
    with None rm inv show ?thesis by (auto simp: hashmap_remove_def)
  next
    case (Some c)
    then have c: "c < table_size m" "slot_has_key (mdata m ! c) k"
      using probe_key_iff [OF inv, of k c] by auto
    then obtain w where w: "mdata m ! c = Some \<lparr>ekey = k, edata = w\<rparr>"
      by (auto simp: slot_has_key_iff)
    have m': "m' = m\<lparr>mdata := (mdata m)[c := None], msize := msize m - 1\<rparr>" and st: "st = MAP_OK"
      using rm Some by (auto simp: hashmap_remove_def)
    have len: "length (mdata m) = table_size m" using inv by (simp add: map_inv_def)
    have nth: "mdata m' ! i = (if i = c then None else mdata m ! i)" if "i < table_size m" for i
      using that len by (simp add: m' nth_list_update)
    have "occupied m' = occupied m - {c}" and "c \<in> occupied m"
      using nth c(1) w by (auto simp: occupied_def m' nth_list_update len split: if_splits)
    then have "card (occupied m') = msize m'"
      using inv by (simp add: map_inv_def m')
    moreover have same: "table_size m' = table_size m" "home m' = home m"
        "length (mdata m') = table_size m'"
      by (auto simp: m' home_def len fun_eq_iff)
    ultimately have inv': "map_inv m'"
      using inv nth unfolding map_inv_def by simp
    have only: "\<not> slot_has_key (mdata m ! i) k" if "i < table_size m" "i \<noteq> c" for i
      using map_inv_uniqueD [OF inv that(1) c(1) _ w] that(2) by (auto simp: slot_has_key_iff)
    have "hashmap_get m' = (hashmap_get m)(k := None)"
    proof (rule map_eqI)
      fix k' v
      show "hashmap_get m' k' = Some v \<longleftrightarrow> ((hashmap_get m)(k := None)) k' = Some v"
        using slot_update_lookup [OF nth c(1) _ only, of k' v] c(2)
        by (simp add: get_Some_iff [OF inv'] get_Some_iff [OF inv] same)
    qed
    moreover have "hashmap_get m k \<noteq> None"
      using Some w by (simp add: hashmap_get_def)
    ultimately show ?thesis using inv' st by simp
  qed
  then show "map_inv m'" and "hashmap_get m' = (hashmap_get m)(k := None)"
    and "st = (if hashmap_get m k = None then MAP_MISSING else MAP_OK)" by auto
qed

text \<open>
  Writing one slot: if the slot is in the window of the key and no other slot holds the key, the
  table stays well-formed and maps the key to the written value.
\<close>

lemma write_slot:
  assumes inv: "map_inv m" and c: "c = (home m k + j) mod table_size m" "j < MAX_CHAIN_LENGTH"
    and only: "\<And>i. i < table_size m \<Longrightarrow> i \<noteq> c \<Longrightarrow> \<not> slot_has_key (mdata m ! i) k"
    and free: "mdata m ! c = None \<or> slot_has_key (mdata m ! c) k"
    and m': "m' = hashmap_store m c k v"
  shows "map_inv m' \<and> hashmap_get m' = (hashmap_get m)(k \<mapsto> v)"
proof -
  have lt: "c < table_size m" using c map_inv_pos [OF inv] by simp
  have len: "length (mdata m) = table_size m" using inv by (simp add: map_inv_def)
  have nth: "mdata m' ! i = (if i = c then Some \<lparr>ekey = k, edata = v\<rparr> else mdata m ! i)"
    if "i < table_size m" for i
    using that len by (simp add: m' hashmap_store_def nth_list_update)
  have same: "table_size m' = table_size m" "length (mdata m') = table_size m'" "home m' = home m"
    by (auto simp: m' hashmap_store_def home_def len fun_eq_iff)
  have "occupied m' = insert c (occupied m)"
    using nth lt same by (auto simp: occupied_def split: if_splits)
  moreover have "c \<in> occupied m \<longleftrightarrow> mdata m ! c \<noteq> None"
    using lt by (simp add: occupied_def)
  ultimately have "msize m' = card (occupied m')"
    using inv by (auto simp: map_inv_def m' hashmap_store_def card_insert_if)
  moreover have "\<exists>j<MAX_CHAIN_LENGTH. i = (home m (ekey e) + j) mod table_size m"
    if "i < table_size m" "mdata m' ! i = Some e" for i e
    using that nth [OF that(1)] c map_inv_windowD [OF inv that(1)] by (cases "i = c") auto
  moreover have "i = i'" if "i < table_size m" "i' < table_size m" "mdata m' ! i = Some e"
      "mdata m' ! i' = Some f" "ekey e = ekey f" for i i' e f
  proof (cases "i = c \<or> i' = c")
    case True
    then have "ekey e = k" using nth [OF that(1)] nth [OF that(2)] that by auto
    then show ?thesis
      using only [OF that(1)] only [OF that(2)] nth [OF that(1)] nth [OF that(2)] that True
      by (auto simp: slot_has_key_def split: if_splits option.splits)
  next
    case False
    then show ?thesis
      using map_inv_uniqueD [OF inv that(1,2) _ _ that(5)] nth [OF that(1)] nth [OF that(2)] that
      by simp
  qed
  ultimately have inv': "map_inv m'"
    using inv same by (intro map_invI) (auto simp: map_inv_def)
  have "hashmap_get m' = (hashmap_get m)(k \<mapsto> v)"
  proof (rule map_eqI)
    fix k' v'
    show "hashmap_get m' k' = Some v' \<longleftrightarrow> ((hashmap_get m)(k \<mapsto> v)) k' = Some v'"
      using slot_update_lookup [OF nth lt _ only free, of k' v']
      by (auto simp: get_Some_iff [OF inv'] get_Some_iff [OF inv] same slot_has_key_def)
  qed
  with inv' show ?thesis by simp
qed

lemma update_ok:
  assumes inv: "map_inv m"
  shows "map_inv (hashmap_update m k f)"
    and "hashmap_get (hashmap_update m k f) =
      (case hashmap_get m k of None \<Rightarrow> hashmap_get m | Some v \<Rightarrow> (hashmap_get m)(k \<mapsto> f v))"
proof -
  let ?P = "probe_key (mdata m) (table_size m) k (hashmap_hash_int (table_size m) k) MAX_CHAIN_LENGTH"
  have "map_inv (hashmap_update m k f) \<and> hashmap_get (hashmap_update m k f) =
      (case hashmap_get m k of None \<Rightarrow> hashmap_get m | Some v \<Rightarrow> (hashmap_get m)(k \<mapsto> f v))"
  proof (cases ?P)
    case None
    then have "hashmap_get m k = None" by (simp add: hashmap_get_def)
    with None inv show ?thesis by (simp add: hashmap_update_def)
  next
    case (Some c)
    then have c: "c < table_size m" "slot_has_key (mdata m ! c) k"
      using probe_key_iff [OF inv, of k c] by auto
    then obtain w where w: "mdata m ! c = Some \<lparr>ekey = k, edata = w\<rparr>"
      by (auto simp: slot_has_key_iff)
    obtain j where j: "c = (home m k + j) mod table_size m" "j < MAX_CHAIN_LENGTH"
      using map_inv_windowD [OF inv c(1) w] by auto
    have only: "\<not> slot_has_key (mdata m ! i) k" if "i < table_size m" "i \<noteq> c" for i
      using map_inv_uniqueD [OF inv that(1) c(1) _ w] that(2) by (auto simp: slot_has_key_iff)
    have "hashmap_update m k f = hashmap_store m c k (f w)"
      using Some w by (simp add: hashmap_update_def hashmap_store_def)
    moreover have "hashmap_get m k = Some w"
      using Some w by (simp add: hashmap_get_def)
    ultimately show ?thesis
      using write_slot [OF inv j only _ refl, of "f w"] c(2) by simp
  qed
  then show "map_inv (hashmap_update m k f)" and "hashmap_get (hashmap_update m k f) =
      (case hashmap_get m k of None \<Rightarrow> hashmap_get m | Some v \<Rightarrow> (hashmap_get m)(k \<mapsto> f v))"
    by auto
qed

section \<open>Insertion\<close>

lemma chain_ok_absent: "hashmap_get m k = None \<Longrightarrow> chain_ok m k"
  by (simp add: chain_ok_def split: option.split)

lemma probe_freeD:
  assumes inv: "map_inv m" and p: "probe_free (mdata m) (table_size m) k (home m k) MAX_CHAIN_LENGTH = Some i"
  obtains j where "j < MAX_CHAIN_LENGTH" "i = (home m k + j) mod table_size m"
    "mdata m ! i = None \<or> slot_has_key (mdata m ! i) k"
    "\<And>j'. j' < j \<Longrightarrow> mdata m ! ((home m k + j') mod table_size m) \<noteq> None \<and>
       \<not> slot_has_key (mdata m ! ((home m k + j') mod table_size m)) k"
  using p probe_free_Some_iff [OF home_less [OF inv], of "mdata m" k k MAX_CHAIN_LENGTH i] that
  by blast

lemma chain_closedD:
  "chain_closed m \<Longrightarrow> i < table_size m \<Longrightarrow> j < MAX_CHAIN_LENGTH \<Longrightarrow> mdata m ! i = Some e \<Longrightarrow>
     i = (home m (ekey e) + j) mod table_size m \<Longrightarrow> j' < j \<Longrightarrow>
     mdata m ! ((home m (ekey e) + j') mod table_size m) \<noteq> None"
  unfolding chain_closed_def by blast

lemma chain_closed_ok:
  assumes inv: "map_inv m" and closed: "chain_closed m"
  shows "chain_ok m k"
proof -
  have "hashmap_get m k = None"
    if p: "probe_free (mdata m) (table_size m) k (home m k) MAX_CHAIN_LENGTH = Some i"
      and free: "mdata m ! i = None" for i
  proof (rule ccontr)
    assume "hashmap_get m k \<noteq> None"
    then obtain v i2 where i2: "i2 < table_size m" "mdata m ! i2 = Some \<lparr>ekey = k, edata = v\<rparr>"
      using get_Some_iff [OF inv, of k] by auto
    obtain j2 where j2: "j2 < MAX_CHAIN_LENGTH" "i2 = (home m k + j2) mod table_size m"
      using map_inv_windowD [OF inv i2] by auto
    obtain j where j: "j < MAX_CHAIN_LENGTH" "i = (home m k + j) mod table_size m"
        "\<And>j'. j' < j \<Longrightarrow> \<not> slot_has_key (mdata m ! ((home m k + j') mod table_size m)) k"
      using probe_freeD [OF inv p] by metis
    have "\<not> j2 < j" using j(3) [of j2] i2 j2 by (auto simp: slot_has_key_def)
    moreover have "j2 \<noteq> j" using i2 j2 j(2) free by auto
    ultimately have "mdata m ! i \<noteq> None"
      using chain_closedD [OF closed i2(1) j2(1) i2(2), of j] j2(2) j(2) by simp
    with free show False by simp
  qed
  then show ?thesis by (auto simp: chain_ok_def split: option.splits)
qed

lemma store_closed:
  assumes inv: "map_inv m" and closed: "chain_closed m"
    and p: "probe_free (mdata m) (table_size m) k (home m k) MAX_CHAIN_LENGTH = Some c"
  shows "chain_closed (hashmap_store m c k v)"
proof -
  let ?m = "hashmap_store m c k v"
  have len: "length (mdata m) = table_size m" using inv by (simp add: map_inv_def)
  have same: "table_size ?m = table_size m" "home ?m = home m"
    by (auto simp: hashmap_store_def home_def fun_eq_iff)
  have nth: "mdata ?m ! i = (if i = c then Some \<lparr>ekey = k, edata = v\<rparr> else mdata m ! i)"
    if "i < table_size m" for i
    using that len by (simp add: hashmap_store_def nth_list_update)
  then have keep: "mdata ?m ! i \<noteq> None" if "i < table_size m" "mdata m ! i \<noteq> None" for i
    using that by simp
  have lt: "x mod table_size m < table_size m" for x
    using map_inv_pos [OF inv] by simp
  obtain j0 where j0: "j0 < MAX_CHAIN_LENGTH" "c = (home m k + j0) mod table_size m"
      "\<And>j'. j' < j0 \<Longrightarrow> mdata m ! ((home m k + j') mod table_size m) \<noteq> None"
    using probe_freeD [OF inv p] by metis
  have "mdata ?m ! ((home m (ekey e) + j') mod table_size m) \<noteq> None"
    if h: "i < table_size m" "j < MAX_CHAIN_LENGTH" "mdata ?m ! i = Some e"
      "i = (home m (ekey e) + j) mod table_size m" "j' < j" for i e j j'
  proof (cases "i = c")
    case True
    then have "ekey e = k" using h(3) nth [OF h(1)] by auto
    moreover have "j = j0"
      using mod_shift_inj [of "home m k" j "table_size m" j0] h(2,4) j0(1,2) True inv \<open>ekey e = k\<close>
      by (simp add: map_inv_def)
    ultimately show ?thesis using keep [OF lt] j0(3) h(5) by simp
  next
    case False
    then have "mdata m ! i = Some e" using h(3) nth [OF h(1)] by simp
    then show ?thesis using keep [OF lt] chain_closedD [OF closed h(1,2) _ h(4,5)] by simp
  qed
  then show ?thesis
    unfolding chain_closed_def same by blast
qed

lemma store_ok:
  assumes inv: "map_inv m" and hash: "hashmap_hash m k = Some c" and ok: "chain_ok m k"
  shows "map_inv (hashmap_store m c k v)"
    and "hashmap_get (hashmap_store m c k v) = (hashmap_get m)(k \<mapsto> v)"
    and "chain_closed m \<Longrightarrow> chain_closed (hashmap_store m c k v)"
proof -
  have p: "probe_free (mdata m) (table_size m) k (home m k) MAX_CHAIN_LENGTH = Some c"
    using hash by (simp add: hashmap_hash_def home_def split: if_splits)
  obtain j where j: "j < MAX_CHAIN_LENGTH" "c = (home m k + j) mod table_size m"
      "mdata m ! c = None \<or> slot_has_key (mdata m ! c) k"
    using probe_freeD [OF inv p] by metis
  have c: "c < table_size m" using j(2) map_inv_pos [OF inv] by simp
  have only: "\<not> slot_has_key (mdata m ! i) k" if "i < table_size m" "i \<noteq> c" for i
  proof (cases "mdata m ! c = None")
    case True
    then have "hashmap_get m k = None" using ok p by (simp add: chain_ok_def)
    then show ?thesis using get_None_iff [OF inv] that by simp
  next
    case False
    then obtain w where w: "mdata m ! c = Some \<lparr>ekey = k, edata = w\<rparr>"
      using j(3) by (auto simp: slot_has_key_iff)
    then show ?thesis
      using map_inv_uniqueD [OF inv that(1) c _ w] that(2) by (auto simp: slot_has_key_iff)
  qed
  show "map_inv (hashmap_store m c k v)"
    and "hashmap_get (hashmap_store m c k v) = (hashmap_get m)(k \<mapsto> v)"
    using write_slot [OF inv j(2,1) only j(3) refl] by auto
  show "chain_closed (hashmap_store m c k v)" if "chain_closed m"
    using store_closed [OF inv that p] .
qed

section \<open>Rehashing\<close>

fun put_all :: "(char list \<rightharpoonup> 'v) \<Rightarrow> 'v hashmap_element option list \<Rightarrow> (char list \<rightharpoonup> 'v)" where
  "put_all g [] = g"
| "put_all g (None # es) = put_all g es"
| "put_all g (Some e # es) = put_all (g(ekey e \<mapsto> edata e)) es"

definition unique_keys :: "'v hashmap_element option list \<Rightarrow> bool" where
  "unique_keys es \<longleftrightarrow> (\<forall>i<length es. \<forall>j<length es. \<forall>k. slot_has_key (es ! i) k \<longrightarrow>
     slot_has_key (es ! j) k \<longrightarrow> i = j)"

lemma unique_keys_Cons: "unique_keys (s # es) \<Longrightarrow> unique_keys es"
  unfolding unique_keys_def by (metis Suc_inject Suc_less_eq length_Cons nth_Cons_Suc)

lemma unique_keys_hd: "unique_keys (s # es) \<Longrightarrow> slot_has_key s k \<Longrightarrow> i < length es \<Longrightarrow> \<not> slot_has_key (es ! i) k"
  unfolding unique_keys_def
  by (metis Suc_less_eq length_Cons nat.distinct(1) nth_Cons_0 nth_Cons_Suc zero_less_Suc)

lemma put_all_iff:
  "unique_keys es \<Longrightarrow> put_all g es k = Some v \<longleftrightarrow>
     (\<exists>i<length es. es ! i = Some \<lparr>ekey = k, edata = v\<rparr>) \<or>
     g k = Some v \<and> (\<forall>i<length es. \<not> slot_has_key (es ! i) k)"
proof (induction g es rule: put_all.induct)
  case (2 g es)
  then have "unique_keys es" using unique_keys_Cons by blast
  from "2.IH" [OF this] show ?case
    by (simp add: All_less_Suc2 Ex_less_Suc2 slot_has_key_def)
next
  case (3 g e es)
  have IH: "put_all (g(ekey e \<mapsto> edata e)) es k = Some v \<longleftrightarrow>
      (\<exists>i<length es. es ! i = Some \<lparr>ekey = k, edata = v\<rparr>) \<or>
      (g(ekey e \<mapsto> edata e)) k = Some v \<and> (\<forall>i<length es. \<not> slot_has_key (es ! i) k)"
    using 3 unique_keys_Cons by blast
  show ?case
  proof (cases "ekey e = k")
    case True
    then have none: "\<forall>i<length es. \<not> slot_has_key (es ! i) k"
      using unique_keys_hd [OF "3.prems"] by (simp add: slot_has_key_def)
    then have "\<not> (\<exists>i<length es. es ! i = Some \<lparr>ekey = k, edata = v\<rparr>)"
      by (auto simp: slot_has_key_iff)
    moreover have "e = \<lparr>ekey = k, edata = v\<rparr> \<longleftrightarrow> edata e = v"
      using True by (cases e) auto
    moreover have "\<not> (\<forall>i<Suc (length es). \<not> slot_has_key ((Some e # es) ! i) k)"
      using True by (auto simp: All_less_Suc2 slot_has_key_def)
    ultimately show ?thesis
      using IH none True by (auto simp: Ex_less_Suc2)
  next
    case False
    then have "\<not> slot_has_key (Some e) k" by (simp add: slot_has_key_def)
    with False IH show ?thesis
      by (auto simp: Ex_less_Suc2 All_less_Suc2)
  qed
qed simp

lemma unique_keys_inv: "map_inv m \<Longrightarrow> unique_keys (mdata m)"
proof -
  assume inv: "map_inv m"
  have "i = j" if "i < table_size m" "j < table_size m" "slot_has_key (mdata m ! i) k"
      "slot_has_key (mdata m ! j) k" for i j k
    using map_inv_uniqueD [OF inv that(1,2)] that(3,4) by (auto simp: slot_has_key_iff)
  moreover have "length (mdata m) = table_size m" using inv by (simp add: map_inv_def)
  ultimately show ?thesis by (auto simp: unique_keys_def)
qed

lemma put_all_inv:
  assumes "map_inv m"
  shows "put_all Map.empty (mdata m) = hashmap_get m"
proof (rule map_eqI)
  fix k v
  show "put_all Map.empty (mdata m) k = Some v \<longleftrightarrow> hashmap_get m k = Some v"
    using put_all_iff [OF unique_keys_inv [OF assms], of Map.empty k v] get_Some_iff [OF assms, of k v] assms
    by (simp add: map_inv_def)
qed

definition put_ok :: "'v put_fn \<Rightarrow> bool" where
  "put_ok put \<longleftrightarrow> (\<forall>m k v m'. map_inv m \<longrightarrow> chain_ok m k \<longrightarrow> put m k v = Inr (MAP_OK, m') \<longrightarrow>
     map_inv m' \<and> hashmap_get m' = (hashmap_get m)(k \<mapsto> v) \<and> (chain_closed m \<longrightarrow> chain_closed m'))"

lemma put_okD:
  "put_ok put \<Longrightarrow> map_inv m \<Longrightarrow> chain_ok m k \<Longrightarrow> put m k v = Inr (MAP_OK, m') \<Longrightarrow>
     map_inv m' \<and> hashmap_get m' = (hashmap_get m)(k \<mapsto> v) \<and> (chain_closed m \<longrightarrow> chain_closed m')"
  unfolding put_ok_def by blast

lemma rehash_loop_ok:
  assumes "put_ok put"
  shows "rehash_loop put es m = Inr (MAP_OK, m') \<Longrightarrow> map_inv m \<Longrightarrow> chain_closed m \<Longrightarrow>
    map_inv m' \<and> chain_closed m' \<and> hashmap_get m' = put_all (hashmap_get m) es"
proof (induction es arbitrary: m)
  case (Cons s es)
  show ?case
  proof (cases s)
    case None
    with Cons show ?thesis by simp
  next
    case (Some e)
    then obtain m1 where m1: "put m (ekey e) (edata e) = Inr (MAP_OK, m1)"
        "rehash_loop put es m1 = Inr (MAP_OK, m')"
      using Cons.prems(1) by (auto simp: rbind_eq_Inr_iff split: if_splits prod.splits)
    have "map_inv m1" "chain_closed m1" "hashmap_get m1 = (hashmap_get m)(ekey e \<mapsto> edata e)"
      using put_okD [OF assms Cons.prems(2) chain_closed_ok [OF Cons.prems(2,3)] m1(1)] Cons.prems(3)
      by auto
    moreover have "map_inv m' \<and> chain_closed m' \<and> hashmap_get m' = put_all (hashmap_get m1) es"
      using Cons.IH [OF m1(2)] calculation by blast
    ultimately show ?thesis by (simp only: Some put_all.simps)
  qed
qed simp

lemma empty_table:
  assumes "MAX_CHAIN_LENGTH \<le> n" and "n \<le> INT_MAX"
  shows "map_inv \<lparr>table_size = n, msize = 0, mdata = replicate n None\<rparr>"
    and "chain_closed \<lparr>table_size = n, msize = 0, mdata = replicate n None\<rparr>"
    and "hashmap_get \<lparr>table_size = n, msize = 0, mdata = replicate n None\<rparr> = Map.empty"
proof -
  let ?m = "\<lparr>table_size = n, msize = 0, mdata = replicate n None\<rparr>"
  show inv: "map_inv ?m" and "chain_closed ?m"
    using assms by (auto simp: map_inv_def occupied_def chain_closed_def)
  show "hashmap_get ?m = Map.empty"
    by (rule ext) (simp add: get_None_iff [OF inv] slot_has_key_def)
qed

lemma rehash_with_ok:
  assumes "put_ok put" and inv: "map_inv m" and r: "rehash_with cal put m = Inr (MAP_OK, m')"
  shows "map_inv m' \<and> chain_closed m' \<and> hashmap_get m' = hashmap_get m"
proof -
  have n: "2 * table_size m \<le> INT_MAX" "MAX_CHAIN_LENGTH \<le> 2 * table_size m"
    using r inv by (auto simp: rehash_with_def map_inv_def split: if_splits)
  let ?e = "\<lparr>table_size = 2 * table_size m, msize = 0, mdata = replicate (2 * table_size m) None\<rparr>"
  have "rehash_loop put (mdata m) ?e = Inr (MAP_OK, m')"
    using r n by (auto simp: rehash_with_def split: if_splits)
  then have "map_inv m' \<and> chain_closed m' \<and> hashmap_get m' = put_all (hashmap_get ?e) (mdata m)"
    by (rule rehash_loop_ok [OF assms(1)]) (simp_all only: empty_table [OF n(2,1)])
  then show ?thesis
    by (simp only: empty_table(3) [OF n(2,1)] put_all_inv [OF inv])
qed

definition put_status :: "'v put_fn \<Rightarrow> bool" where
  "put_status put \<longleftrightarrow> (\<forall>m k v st m'. put m k v = Inr (st, m') \<longrightarrow> st = MAP_OK \<or> st = MAP_OMEM)"

lemma put_statusD: "put_status put \<Longrightarrow> put m k v = Inr (st, m') \<Longrightarrow> st = MAP_OK \<or> st = MAP_OMEM"
  unfolding put_status_def by blast

lemma rehash_loop_status:
  assumes "put_status put"
  shows "rehash_loop put es m = Inr (st, m') \<Longrightarrow> st = MAP_OK \<or> st = MAP_OMEM"
proof (induction es arbitrary: m)
  case (Cons s es)
  then show ?case
    using put_statusD [OF assms]
    by (cases s) (fastforce simp: rbind_eq_Inr_iff split: if_splits prod.splits)+
qed simp

lemma rehash_with_status:
  "put_status put \<Longrightarrow> rehash_with cal put m = Inr (st, m') \<Longrightarrow> st = MAP_OK \<or> st = MAP_OMEM"
  by (auto simp: rehash_with_def dest!: rehash_loop_status split: if_splits)

lemma put_fuel_status: "put_status (put_fuel cal f)"
proof (induction f)
  case (Suc f)
  then show ?case
    unfolding put_status_def
    by (fastforce simp: rbind_eq_Inr_iff split: option.splits if_splits prod.splits)
qed (simp add: put_status_def)

lemma put_fuel_ok: "put_ok (put_fuel cal f :: 'a put_fn)"
proof (induction f)
  case 0
  show ?case by (simp add: put_ok_def)
next
  case (Suc f)
  show ?case
    unfolding put_ok_def
  proof (intro allI impI)
    fix m m' :: "'a hashmap_map" and k v
    assume inv: "map_inv m" and ok: "chain_ok m k" and put: "put_fuel cal (Suc f) m k v = Inr (MAP_OK, m')"
    show "map_inv m' \<and> hashmap_get m' = (hashmap_get m)(k \<mapsto> v) \<and> (chain_closed m \<longrightarrow> chain_closed m')"
    proof (cases "hashmap_hash m k")
      case None
      with put obtain m1 st where r: "rehash_with cal (put_fuel cal f) m = Inr (st, m1)" "st \<noteq> MAP_OMEM"
          "put_fuel cal f m1 k v = Inr (MAP_OK, m')"
        by (auto simp: rbind_eq_Inr_iff split: if_splits prod.splits)
      then have "st = MAP_OK"
        using rehash_with_status [OF put_fuel_status r(1)] by blast
      then have m1: "map_inv m1" "chain_closed m1" "hashmap_get m1 = hashmap_get m"
        using rehash_with_ok [OF Suc.IH inv] r(1) by auto
      then show ?thesis
        using put_okD [OF Suc.IH m1(1) chain_closed_ok [OF m1(1,2)] r(3)] by simp
    next
      case (Some c)
      with put show ?thesis using store_ok [OF inv Some ok, of v] by auto
    qed
  qed
qed

section \<open>Termination of the doubling\<close>

definition fuel_ok :: "'v hashmap_map \<Rightarrow> nat \<Rightarrow> bool" where
  "fuel_ok m f \<longleftrightarrow> 0 < table_size m \<and> table_size m \<le> INT_MAX \<and> INT_MAX < table_size m * 2 ^ f"

lemma fuel_ok_grow: "fuel_ok m f \<Longrightarrow> table_size m \<le> table_size m' \<Longrightarrow> table_size m' \<le> INT_MAX \<Longrightarrow> fuel_ok m' f"
  by (auto simp: fuel_ok_def intro: less_le_trans)

definition put_total :: "'v put_fn \<Rightarrow> nat \<Rightarrow> bool" where
  "put_total put f \<longleftrightarrow> (\<forall>m k v. fuel_ok m f \<longrightarrow> put m k v \<noteq> Inl OutOfFuel \<and>
     (\<forall>st m'. put m k v = Inr (st, m') \<longrightarrow> table_size m \<le> table_size m' \<and> table_size m' \<le> INT_MAX))"

lemma put_totalD: "put_total put f \<Longrightarrow> fuel_ok m f \<Longrightarrow> put m k v \<noteq> Inl OutOfFuel"
  unfolding put_total_def by blast

lemma rehash_loop_total:
  assumes "put_total put f"
  shows "fuel_ok m f \<Longrightarrow> rehash_loop put es m \<noteq> Inl OutOfFuel \<and>
    (\<forall>st m'. rehash_loop put es m = Inr (st, m') \<longrightarrow> table_size m \<le> table_size m' \<and> table_size m' \<le> INT_MAX)"
proof (induction es arbitrary: m)
  case Nil
  then show ?case by (simp add: fuel_ok_def)
next
  case (Cons s es)
  show ?case
  proof (cases s)
    case None
    with Cons show ?thesis by simp
  next
    case (Some e)
    have p: "put m (ekey e) (edata e) \<noteq> Inl OutOfFuel"
      "\<And>st m1. put m (ekey e) (edata e) = Inr (st, m1) \<Longrightarrow> table_size m \<le> table_size m1 \<and> table_size m1 \<le> INT_MAX"
      using assms Cons.prems unfolding put_total_def by blast+
    show ?thesis
    proof (cases "put m (ekey e) (edata e)")
      case (Inl a)
      with p Some show ?thesis by auto
    next
      case (Inr r)
      obtain st m1 where r: "r = (st, m1)" by (cases r)
      have g: "table_size m \<le> table_size m1 \<and> table_size m1 \<le> INT_MAX" using p(2) Inr r by simp
      then have "fuel_ok m1 f" using fuel_ok_grow [OF Cons.prems] by blast
      with Cons.IH [OF this] g Some Inr r show ?thesis
        by (auto intro: le_trans)
    qed
  qed
qed

lemma put_fuel_total: "put_total (put_fuel cal f :: 'a put_fn) f"
proof (induction f)
  case 0
  show ?case by (simp add: put_total_def fuel_ok_def)
next
  case (Suc f)
  have "put_fuel cal (Suc f) m k v \<noteq> Inl OutOfFuel \<and> (\<forall>st m'. put_fuel cal (Suc f) m k v = Inr (st, m') \<longrightarrow>
      table_size m \<le> table_size m' \<and> table_size m' \<le> INT_MAX)" if fu: "fuel_ok m (Suc f)" for m k and v :: 'a
  proof (cases "hashmap_hash m k")
    case (Some c)
    with fu show ?thesis by (auto simp: hashmap_store_def fuel_ok_def)
  next
    case None
    let ?e = "\<lparr>table_size = 2 * table_size m, msize = 0, mdata = replicate (2 * table_size m) None\<rparr>"
    have e: "fuel_ok ?e f" if "2 * table_size m \<le> INT_MAX"
      using fu that by (simp add: fuel_ok_def mult.left_commute mult.assoc)
    have rl: "rehash_with cal (put_fuel cal f) m \<noteq> Inl OutOfFuel"
      using rehash_loop_total [OF Suc.IH e, of "mdata m"] fu
      by (auto simp: rehash_with_def fuel_ok_def)
    have grow: "table_size m \<le> table_size m1 \<and> table_size m1 \<le> INT_MAX \<and> (st \<noteq> MAP_OMEM \<longrightarrow> fuel_ok m1 f)"
      if r: "rehash_with cal (put_fuel cal f) m = Inr (st, m1)" for st m1
    proof (cases "cal (2 * table_size m)")
      case True
      have n: "2 * table_size m \<le> INT_MAX" and l: "rehash_loop (put_fuel cal f) (mdata m) ?e = Inr (st, m1)"
        using r True by (auto simp: rehash_with_def split: if_splits)
      have t: "2 * table_size m \<le> table_size m1 \<and> table_size m1 \<le> INT_MAX"
        using rehash_loop_total [OF Suc.IH e [OF n], of "mdata m"] l by simp
      moreover have "fuel_ok m1 f" using fuel_ok_grow [OF e [OF n], of m1] t by simp
      ultimately show ?thesis by simp
    next
      case False
      with r fu show ?thesis by (auto simp: rehash_with_def fuel_ok_def split: if_splits)
    qed
    show ?thesis
    proof (cases "rehash_with cal (put_fuel cal f) m")
      case (Inl a)
      with rl None show ?thesis by auto
    next
      case (Inr r)
      obtain st m1 where r: "r = (st, m1)" by (cases r)
      show ?thesis
      proof (cases "st = MAP_OMEM")
        case True
        with grow None Inr r show ?thesis by auto
      next
        case False
        then have "fuel_ok m1 f" using grow Inr r by blast
        then have "put_fuel cal f m1 k v \<noteq> Inl OutOfFuel \<and> (\<forall>st m'. put_fuel cal f m1 k v = Inr (st, m') \<longrightarrow>
            table_size m1 \<le> table_size m' \<and> table_size m' \<le> INT_MAX)"
          using Suc.IH unfolding put_total_def by blast
        moreover have "table_size m \<le> table_size m1" using grow Inr r by blast
        ultimately show ?thesis using None Inr r False by (auto intro: le_trans)
      qed
    qed
  qed
  then show ?case unfolding put_total_def by blast
qed

lemma put_fuel_enough: "0 < table_size m \<Longrightarrow> table_size m \<le> INT_MAX \<Longrightarrow> fuel_ok m 31"
  by (simp add: fuel_ok_def)

text \<open>
  The doubling overflows only behind \<open>2 ^ 30\<close> slots: with an allocator that refuses tables of that size it never does.
\<close>

definition stays_small :: "(map_status \<times> 'v hashmap_map) res \<Rightarrow> bool" where
  "stays_small r \<longleftrightarrow> (case r of Inl e \<Rightarrow> e \<noteq> SignedOverflow | Inr (st, m) \<Rightarrow> table_size m < 2 ^ 30)"

lemma stays_small_simps [simp]:
  "stays_small (Inl e) \<longleftrightarrow> e \<noteq> SignedOverflow" "stays_small (Inr (st, m)) \<longleftrightarrow> table_size m < 2 ^ 30"
  by (simp_all add: stays_small_def)

lemma stays_small_bind:
  "stays_small r \<Longrightarrow> (\<And>st m. r = Inr (st, m) \<Longrightarrow> table_size m < 2 ^ 30 \<Longrightarrow> stays_small (f (st, m))) \<Longrightarrow> stays_small (rbind r f)"
  by (cases r) auto

lemma rehash_loop_small:
  assumes "\<And>m k v. table_size m < 2 ^ 30 \<Longrightarrow> stays_small (put m k v)"
  shows "table_size m < 2 ^ 30 \<Longrightarrow> stays_small (rehash_loop put es m)"
  using assms
proof (induction put es m rule: rehash_loop.induct)
  case (3 put e es m)
  have "stays_small (put m (ekey e) (edata e))" using 3 by blast
  with 3 show ?case by (auto intro!: stays_small_bind)
qed simp_all

lemma put_fuel_small:
  assumes "\<forall>n. cal n \<longrightarrow> n < 2 ^ 30"
  shows "table_size m < 2 ^ 30 \<Longrightarrow> stays_small (put_fuel cal f m k v)"
proof (induction f arbitrary: m k v)
  case (Suc f)
  have "stays_small (rehash_with cal (put_fuel cal f) m)"
    using assms Suc.prems by (auto simp: rehash_with_def intro!: rehash_loop_small Suc.IH)
  then show ?case
    using Suc by (auto simp: hashmap_store_def intro!: stays_small_bind split: option.split)
qed simp

section \<open>The contract of the storage layer\<close>

text \<open>
  What a client of the map may rely on. The predicate \<open>safe\<close> marks the keys for which an
  insertion overwrites rather than duplicates; it holds for every absent key.
\<close>

locale key_value_map =
  fixes new :: 'm
    and get :: "'m \<Rightarrow> 'k \<Rightarrow> 'v option"
    and put :: "'m \<Rightarrow> 'k \<Rightarrow> 'v \<Rightarrow> (map_status \<times> 'm) res"
    and remove :: "'m \<Rightarrow> 'k \<Rightarrow> map_status \<times> 'm"
    and update :: "'m \<Rightarrow> 'k \<Rightarrow> ('v \<Rightarrow> 'v) \<Rightarrow> 'm"
    and invar :: "'m \<Rightarrow> bool"
    and safe :: "'m \<Rightarrow> 'k \<Rightarrow> bool"
  assumes new: "invar new" "get new = Map.empty"
    and put: "invar m \<Longrightarrow> safe m k \<Longrightarrow> put m k v = Inr (MAP_OK, m') \<Longrightarrow>
      invar m' \<and> get m' = (get m)(k \<mapsto> v)"
    and safe_absent: "get m k = None \<Longrightarrow> safe m k"
    and remove: "invar m \<Longrightarrow> remove m k = (st, m') \<Longrightarrow> invar m' \<and> get m' = (get m)(k := None) \<and>
      st = (if get m k = None then MAP_MISSING else MAP_OK)"
    and update: "invar m \<Longrightarrow> invar (update m k f) \<and>
      get (update m k f) = (case get m k of None \<Rightarrow> get m | Some v \<Rightarrow> (get m)(k \<mapsto> f v))"
begin

lemma remove_then_put:
  assumes "invar m" and "put (snd (remove m k)) k v = Inr (MAP_OK, m')"
  shows "invar m' \<and> get m' = (get m)(k \<mapsto> v)"
proof -
  obtain st m1 where r: "remove m k = (st, m1)" by (cases "remove m k")
  from remove [OF assms(1) r] have "invar m1" "get m1 = (get m)(k := None)" by auto
  moreover from this have "safe m1 k" by (simp add: safe_absent)
  ultimately show ?thesis
    using put [of m1 k v m'] assms(2) r by simp
qed

lemma get_put_other:
  "invar m \<Longrightarrow> safe m k \<Longrightarrow> put m k v = Inr (MAP_OK, m') \<Longrightarrow> k' \<noteq> k \<Longrightarrow> get m' k' = get m k'"
  using put by fastforce

end

interpretation hm: key_value_map hashmap_new hashmap_get "hashmap_put cal" hashmap_remove hashmap_update
  map_inv chain_ok for cal
proof (unfold_locales, goal_cases)
  case 1
  show ?case by (rule map_inv_new)
next
  case 2
  show ?case by (rule ext) (rule get_new)
next
  case (3 m k v m')
  then show ?case
    using put_okD [OF put_fuel_ok "3"(1,2) "3"(3) [unfolded hashmap_put_def]] by simp
next
  case (4 m k)
  then show ?case by (rule chain_ok_absent)
next
  case (5 m k st m')
  then show ?case using remove_ok [OF 5] by simp
next
  case (6 m k f)
  then show ?case using update_ok [OF 6] by simp
qed

lemma hashmap_put_direct:
  "hashmap_hash m k = Some i \<Longrightarrow> hashmap_put cal m k v = Inr (MAP_OK, hashmap_store m i k v)"
  by (simp add: hashmap_put_def eval_nat_numeral)

lemma put_keeps_closed:
  assumes "map_inv m" and "chain_closed m" and "hashmap_put cal m k v = Inr (MAP_OK, m')"
  shows "map_inv m' \<and> chain_closed m' \<and> hashmap_get m' = (hashmap_get m)(k \<mapsto> v)"
  using put_okD [OF put_fuel_ok assms(1) chain_closed_ok [OF assms(1,2)]
      assms(3) [unfolded hashmap_put_def]] assms(2)
  by simp

definition only_faults :: "'v put_fn \<Rightarrow> bool" where
  "only_faults put \<longleftrightarrow> (\<forall>m k v e. put m k v = Inl e \<longrightarrow> e = SignedOverflow \<or> e = OutOfFuel)"

lemma only_faultsD: "only_faults put \<Longrightarrow> put m k v = Inl e \<Longrightarrow> e = SignedOverflow \<or> e = OutOfFuel"
  unfolding only_faults_def by blast

lemma rehash_loop_faults:
  assumes "only_faults put"
  shows "rehash_loop put es m = Inl e \<Longrightarrow> e = SignedOverflow \<or> e = OutOfFuel"
proof (induction es arbitrary: m)
  case (Cons s es)
  then show ?case
    using assms unfolding only_faults_def
    by (cases s) (fastforce simp: rbind_eq_Inl_iff split: if_splits prod.splits)+
qed simp

lemma put_fuel_faults: "only_faults (put_fuel cal f :: 'a put_fn)"
proof (induction f)
  case (Suc f)
  have "rehash_with cal (put_fuel cal f) m = Inl e \<Longrightarrow> e = SignedOverflow \<or> e = OutOfFuel"
    for m :: "'a hashmap_map" and e
    by (auto simp: rehash_with_def split: if_splits dest: rehash_loop_faults [OF Suc.IH])
  with Suc.IH show ?case
    unfolding only_faults_def
    by (fastforce simp: rbind_eq_Inl_iff split: option.splits if_splits prod.splits)
qed (simp add: only_faults_def)

fun hashmap_puts :: "(nat \<Rightarrow> bool) \<Rightarrow> 'v hashmap_map \<Rightarrow> (char list \<times> 'v) list \<Rightarrow> (map_status \<times> 'v hashmap_map) res" where
  \<comment> \<open>a run of insertions that stops at the first one that does not return \<^verbatim>\<open>MAP_OK\<close>\<close>
  "hashmap_puts cal m [] = Inr (MAP_OK, m)"
| "hashmap_puts cal m ((k, v) # kvs) =
     rbind (hashmap_put cal m k v) (\<lambda>(st, m').
       if st \<noteq> MAP_OK then Inr (st, m') else hashmap_puts cal m' kvs)"

lemma hashmap_puts_ok:
  "hashmap_puts cal m kvs = Inr (MAP_OK, m') \<Longrightarrow> map_inv m \<Longrightarrow> chain_closed m \<Longrightarrow>
     map_inv m' \<and> chain_closed m' \<and> hashmap_get m' = hashmap_get m ++ map_of (rev kvs)"
proof (induction kvs arbitrary: m)
  case (Cons kv kvs)
  obtain k v where kv: "kv = (k, v)" by (cases kv)
  then obtain m1 where m1: "hashmap_put cal m k v = Inr (MAP_OK, m1)" "hashmap_puts cal m1 kvs = Inr (MAP_OK, m')"
    using Cons.prems(1) by (auto simp: rbind_eq_Inr_iff split: if_splits prod.splits)
  have inv: "map_inv m1" "chain_closed m1" and g: "hashmap_get m1 = (hashmap_get m)(k \<mapsto> v)"
    using put_keeps_closed [OF Cons.prems(2,3) m1(1)] by auto
  have "hashmap_get m' = (hashmap_get m)(k \<mapsto> v) ++ map_of (rev kvs)"
    using Cons.IH [OF m1(2) inv] by (simp only: g)
  also have "\<dots> = hashmap_get m ++ map_of (rev (kv # kvs))"
    by (simp add: kv map_add_def fun_eq_iff split: option.splits)
  finally show ?case using Cons.IH [OF m1(2) inv] by simp
qed simp

lemma hash_c: "hashmap_hash_int 256 ''c'' = 64" and hash_k: "hashmap_hash_int 256 ''k'' = 64"
  by (simp_all add: hashmap_hash_int_def hash_mix_def crc32_def crc32_tab_def Let_def)

lemma probe_free_numeral:
  "probe_free d ts k c (numeral n) =
     (if d ! c = None then Some c else if slot_has_key (d ! c) k then Some c
      else probe_free d ts k ((c + 1) mod ts) (pred_numeral n))"
  by (simp add: numeral_eq_Suc)

lemma probe_key_numeral:
  "probe_key d ts k c (numeral n) =
     (if slot_has_key (d ! c) k then Some c else probe_key d ts k ((c + 1) mod ts) (pred_numeral n))"
  by (simp add: numeral_eq_Suc)

lemmas probe_eval = hashmap_hash_def hashmap_store_def hashmap_get_def hashmap_remove_def
  hashmap_new_def slot_has_key_def hash_c hash_k probe_free_numeral probe_key_numeral nth_list_update

lemma hash_new_c: "hashmap_hash hashmap_new ''c'' = Some 64"
  by (simp add: probe_eval)

lemma put_new_c:
  "hashmap_put cal hashmap_new ''c'' v = Inr (MAP_OK, hashmap_store hashmap_new 64 ''c'' v)"
  by (rule hashmap_put_direct [OF hash_new_c])

lemma map_inv_new_c: "map_inv (hashmap_store hashmap_new 64 ''c'' v)"
  by (rule store_ok(1) [OF map_inv_new hash_new_c chain_ok_absent [OF get_new]])

lemma rehash_loop_blank: "rehash_loop put (replicate n None) m = Inr (MAP_OK, m)"
  by (induction n) auto

section \<open>Properties\<close>

text \<open>
  C16: on a well-formed table, an insertion that returns \<^verbatim>\<open>MAP_OK\<close> maps the key to the new value and
  changes no other key, whatever number of rehashes it went through, provided the probe of the
  key does not meet a free slot in front of an older element of that key.
\<close>

theorem hashmap_put_correct:
  assumes "map_inv m" and "chain_ok m k" and "hashmap_put cal m k v = Inr (MAP_OK, m')"
  shows "map_inv m' \<and> hashmap_get m' = (hashmap_get m)(k \<mapsto> v)"
  by (rule hm.put [OF assms])

theorem hashmap_put_correct_witness:
  "map_inv (hashmap_store hashmap_new 64 ''c'' (7 :: nat)) \<and>
   hashmap_get (hashmap_store hashmap_new 64 ''c'' (7 :: nat)) = (hashmap_get hashmap_new)(''c'' \<mapsto> 7)"
  by (rule hashmap_put_correct [OF map_inv_new chain_ok_absent [OF get_new] put_new_c])

text \<open>
  C35: on a well-formed table \<^verbatim>\<open>hashmap_put\<close> returns, with \<^verbatim>\<open>MAP_OK\<close> or with \<^verbatim>\<open>MAP_OMEM\<close>, as long as the
  allocator refuses tables of \<open>2 ^ 30\<close> slots and more (each slot takes 40 bytes). With any other allocator the
  one further outcome is the signed overflow of the \<^verbatim>\<open>int\<close> table size when it is doubled from \<open>2 ^ 30\<close>. The fuel of the
  model never runs out.
\<close>

theorem hashmap_put_returns:
  assumes "map_inv m"
  shows "(\<exists>m'. hashmap_put cal m k v = Inr (MAP_OK, m') \<or> hashmap_put cal m k v = Inr (MAP_OMEM, m')) \<or>
    hashmap_put cal m k v = Inl SignedOverflow \<and> \<not> (table_size m < 2 ^ 30 \<and> (\<forall>n. cal n \<longrightarrow> n < 2 ^ 30))"
proof -
  have small: "put_fuel cal 31 m k v \<noteq> Inl SignedOverflow" if "table_size m < 2 ^ 30 \<and> (\<forall>n. cal n \<longrightarrow> n < 2 ^ 30)"
    using put_fuel_small [of cal m 31 k v] that by auto
  have "fuel_ok m 31" using assms by (simp add: put_fuel_enough map_inv_def)
  then have no_fuel: "put_fuel cal 31 m k v \<noteq> Inl OutOfFuel"
    by (rule put_totalD [OF put_fuel_total])
  show ?thesis
  proof (cases "put_fuel cal 31 m k v")
    case (Inl e)
    with no_fuel small show ?thesis
      using only_faultsD [OF put_fuel_faults Inl] by (auto simp: hashmap_put_def)
  next
    case (Inr r)
    then show ?thesis
      using put_statusD [OF put_fuel_status, of cal 31 m k v "fst r" "snd r"]
      by (cases r) (auto simp: hashmap_put_def)
  qed
qed

theorem hashmap_put_returns_witness:
  "\<exists>m'. hashmap_put (\<lambda>n. n < 2 ^ 30) hashmap_new ''key'' (7 :: nat) = Inr (MAP_OK, m') \<or>
     hashmap_put (\<lambda>n. n < 2 ^ 30) hashmap_new ''key'' (7 :: nat) = Inr (MAP_OMEM, m')"
  using hashmap_put_returns [OF map_inv_new, of "\<lambda>n. n < 2 ^ 30" "''key''" "7 :: nat"]
  by (simp add: hashmap_new_def)

text \<open>
  Rehashing loses, changes and invents no entry, and leaves a table in which every key may be
  inserted safely.
\<close>

theorem hashmap_rehash_preserves:
  assumes "map_inv m" and "hashmap_rehash cal m = Inr (MAP_OK, m')"
  shows "map_inv m' \<and> hashmap_get m' = hashmap_get m \<and> chain_ok m' k"
  using rehash_with_ok [OF put_fuel_ok assms(1) assms(2) [unfolded hashmap_rehash_def]]
    chain_closed_ok by blast

theorem hashmap_rehash_preserves_witness:
  "\<exists>m' :: nat hashmap_map. hashmap_rehash (\<lambda>_. True) hashmap_new = Inr (MAP_OK, m') \<and>
     map_inv m' \<and> hashmap_get m' = hashmap_get hashmap_new \<and> chain_ok m' ''k''"
proof -
  let ?m = "\<lparr>table_size = 512, msize = 0, mdata = replicate 512 None\<rparr> :: nat hashmap_map"
  have "hashmap_rehash (\<lambda>_. True) hashmap_new = Inr (MAP_OK, ?m)"
    by (simp add: hashmap_rehash_def rehash_with_def hashmap_new_def rehash_loop_blank)
  then show ?thesis
    using hashmap_rehash_preserves [OF map_inv_new, of "\<lambda>_. True" ?m "''k''"] by blast
qed

text \<open>
  Removal takes exactly the given key out of a well-formed table and reports whether it was
  there.
\<close>

theorem hashmap_remove_correct:
  assumes "map_inv m" and "hashmap_remove m k = (st, m')"
  shows "map_inv m' \<and> hashmap_get m' = (hashmap_get m)(k := None) \<and>
    st = (if hashmap_get m k = None then MAP_MISSING else MAP_OK)"
  by (rule hm.remove [OF assms])

theorem hashmap_remove_correct_witness:
  "fst (hashmap_remove (hashmap_store hashmap_new 64 ''c'' (7 :: nat)) ''c'') = MAP_OK"
proof -
  let ?m = "hashmap_store hashmap_new 64 ''c'' (7 :: nat)"
  obtain st m' where r: "hashmap_remove ?m ''c'' = (st, m')"
    by (cases "hashmap_remove ?m ''c''")
  have "hashmap_get ?m ''c'' \<noteq> None"
    by (simp add: probe_eval)
  then show ?thesis
    using hashmap_remove_correct [OF map_inv_new_c r] r by simp
qed

text \<open>
  A table filled by insertions only, in any order and with any repetitions, holds for each key
  the value inserted last.
\<close>

theorem hashmap_insert_only:
  assumes "hashmap_puts cal hashmap_new kvs = Inr (MAP_OK, m)"
  shows "hashmap_get m = map_of (rev kvs)"
proof -
  have "hashmap_get m = hashmap_get hashmap_new ++ map_of (rev kvs)"
    using hashmap_puts_ok [OF assms map_inv_new chain_closed_new] by blast
  then show ?thesis
    by (simp add: fun_eq_iff map_add_def get_new split: option.splits)
qed

theorem hashmap_insert_only_witness:
  "\<exists>m. hashmap_puts (\<lambda>_. True) hashmap_new [(''c'', 7 :: nat)] = Inr (MAP_OK, m) \<and>
     hashmap_get m = map_of (rev [(''c'', 7)])"
proof -
  have "hashmap_puts (\<lambda>_. True) hashmap_new [(''c'', 7 :: nat)] =
      Inr (MAP_OK, hashmap_store hashmap_new 64 ''c'' 7)"
    by (simp add: put_new_c)
  then show ?thesis using hashmap_insert_only by blast
qed

text \<open>
  C20: the proviso is needed. The keys \<^verbatim>\<open>c\<close> and \<^verbatim>\<open>k\<close> share a home slot; after inserting both,
  removing \<^verbatim>\<open>c\<close> and overwriting \<^verbatim>\<open>k\<close>, the table holds \<^verbatim>\<open>k\<close> twice, so that removing \<^verbatim>\<open>k\<close> brings its
  old value back.
\<close>

theorem hashmap_remove_resurrects:
  "\<exists>m1 m2 m4. hashmap_put cal hashmap_new ''c'' x = Inr (MAP_OK, m1) \<and>
     hashmap_put cal m1 ''k'' old = Inr (MAP_OK, m2) \<and>
     hashmap_put cal (snd (hashmap_remove m2 ''c'')) ''k'' new = Inr (MAP_OK, m4) \<and>
     hashmap_get m4 ''k'' = Some new \<and>
     fst (hashmap_remove m4 ''k'') = MAP_OK \<and>
     hashmap_get (snd (hashmap_remove m4 ''k'')) ''k'' = Some old"
proof -
  define m1 where "m1 = hashmap_store hashmap_new 64 ''c'' x"
  define m2 where "m2 = hashmap_store m1 65 ''k'' old"
  define m3 where "m3 = snd (hashmap_remove m2 ''c'')"
  define m4 where "m4 = hashmap_store m3 64 ''k'' new"
  have h1: "hashmap_hash hashmap_new ''c'' = Some 64"
    by (simp add: probe_eval)
  have h2: "hashmap_hash m1 ''k'' = Some 65"
    by (simp add: m1_def probe_eval)
  have h3: "hashmap_hash m3 ''k'' = Some 64"
    by (simp add: m3_def m2_def m1_def probe_eval)
  have g: "hashmap_get m4 ''k'' = Some new" "fst (hashmap_remove m4 ''k'') = MAP_OK"
      "hashmap_get (snd (hashmap_remove m4 ''k'')) ''k'' = Some old"
    by (simp_all add: m4_def m3_def m2_def m1_def probe_eval)
  show ?thesis
    using hashmap_put_direct [OF h1, of cal x] hashmap_put_direct [OF h2, of cal old]
      hashmap_put_direct [OF h3, of cal new] g
    by (auto simp: m1_def [symmetric] m2_def [symmetric] m3_def [symmetric] m4_def [symmetric])
qed

end
