(* ===== verification/Septic_Tank_Correct.thy ===== *)
theory Septic_Tank_Correct
  imports Septic_Tank Hashmap_Correct
begin

text \<open>
  What the store promises: an abstract specification over the map of visible keys (those present
  and not expired), and the proof that one turn of the actor implements it. The second part
  relates a live store to the store obtained by applying the logged mutations alone, which is
  what makes a restart possible although evictions of expired keys are never logged.
\<close>

section \<open>Abstract specification\<close>

type_synonym kv = "char list \<Rightarrow> data_entry option"

definition visible :: "int \<Rightarrow> kv \<Rightarrow> kv" where
  "visible t s = (\<lambda>k. case s k of None \<Rightarrow> None | Some e \<Rightarrow> if expired_at t e then None else Some e)"

definition string_entry :: "int64 \<Rightarrow> char list \<Rightarrow> data_entry" where
  "string_entry at v =
     \<lparr>expires_at = (if at = ST_MUTATION_NO_EXPIRY then None else Some at), dtype = DATA_STRING, dvalue = v\<rparr>"

fun spec_apply :: "mutation \<Rightarrow> kv \<Rightarrow> kv" where
  "spec_apply (Set_mutation k v at) s = s(k \<mapsto> string_entry at v)"
| "spec_apply (Del_mutation k) s = s(k := None)"
| "spec_apply (Expire_mutation k at) s =
     (case s k of None \<Rightarrow> s | Some e \<Rightarrow> s(k \<mapsto> e\<lparr>expires_at := Some at\<rparr>))"
| "spec_apply (Other_mutation _) s = s"

definition spec_step :: "mutation option \<Rightarrow> kv \<Rightarrow> kv" where
  "spec_step mu s = (case mu of None \<Rightarrow> s | Some x \<Rightarrow> spec_apply x s)"

text \<open>
  The reply, the error message if any, and the change, as a function of the visible keys, the
  clock reading \<open>t\<close> and a second one \<open>t2\<close> that only EXPIRE takes.
\<close>

definition spec_set :: "kv \<Rightarrow> set_operation \<Rightarrow> result_value \<times> char list option \<times> mutation option" where
  "spec_set s op =
     (let old = s (so_key op);
          blocked = (so_nx op \<and> old \<noteq> None \<or> so_xx op \<and> old = None)
      in (Set_result (if so_get op then map_option dvalue old else None), None,
          if blocked then None
          else Some (Set_mutation (so_key op) (so_value op)
                 (expiry_field (set_expires_at (so_expiration op) old)))))"

definition spec_incrby :: "kv \<Rightarrow> incrby_operation \<Rightarrow> result_value \<times> char list option \<times> mutation option" where
  "spec_incrby s op =
     (case (case s (io_key op) of None \<Rightarrow> Some 0 | Some e \<Rightarrow> parse_int64 (dvalue e)) of
        None \<Rightarrow> (Incrby_result 0, Some ''ERR value is not an integer or out of range'', None)
      | Some n \<Rightarrow>
          if in_int64 (sint n + sint (io_delta op))
          then (Incrby_result (n + io_delta op), None,
                Some (Set_mutation (io_key op) (show_int (sint n + sint (io_delta op)))
                  (expiry_field (Option.bind (s (io_key op)) expires_at))))
          else (Incrby_result 0, Some ''Integer overflow'', None))"

definition spec_expire :: "int \<Rightarrow> kv \<Rightarrow> expire_operation \<Rightarrow> result_value \<times> char list option \<times> mutation option" where
  "spec_expire t2 s op =
     (case s (eo_key op) of
        None \<Rightarrow> (Expire_result 0, None, None)
      | Some e \<Rightarrow>
          if expire_is_noop (eo_condition op) (eo_expires_at op) (expires_at e)
          then (Expire_result 0, None, None)
          else (Expire_result 1, None,
                Some (if sint (eo_expires_at op) \<le> t2 then Del_mutation (eo_key op)
                      else Expire_mutation (eo_key op) (eo_expires_at op))))"

definition spec_ttl :: "int \<Rightarrow> kv \<Rightarrow> char list \<Rightarrow> result_value" where
  "spec_ttl sec s k =
     Ttl_result (case s k of None \<Rightarrow> - 2
       | Some e \<Rightarrow> (case expires_at e of None \<Rightarrow> - 1 | Some v \<Rightarrow> word_of_int (c_div (sint v) 1000 - sec)))"

fun spec :: "timespec \<Rightarrow> timespec \<Rightarrow> kv \<Rightarrow> operation \<Rightarrow> result_value \<times> char list option \<times> mutation option" where
  "spec ts ts2 s (Get_op k) = (Get_result (map_option dvalue (s k)), None, None)"
| "spec ts ts2 s (Exists_op k) = (Exists_result (if s k = None then 0 else 1), None, None)"
| "spec ts ts2 s (Del_op k) =
     (if s k = None then (Del_result 0, None, None) else (Del_result 1, None, Some (Del_mutation k)))"
| "spec ts ts2 s (Ttl_op k) = (spec_ttl (sint (tv_sec ts)) s k, None, None)"
| "spec ts ts2 s (Set_op op) = spec_set s op"
| "spec ts ts2 s (Expire_op op) = spec_expire (ms_of ts2) s op"
| "spec ts ts2 s (Incrby_op op) = spec_incrby s op"

definition outcome :: "septic_tank_result \<Rightarrow> result_value \<times> char list option \<times> mutation option" where
  "outcome r = (rvalue r, error r, resolved_mutation r)"

definition well_formed_result :: "septic_tank_result \<Rightarrow> bool" where
  "well_formed_result r \<longleftrightarrow> success r = (error r = None) \<and> (\<not> success r \<longrightarrow> resolved_mutation r = None)"

section \<open>The resolve half\<close>

lemma evict_ok: "map_inv m \<Longrightarrow> map_inv (evict m k) \<and> hashmap_get (evict m k) = (hashmap_get m)(k := None)"
  using hm.remove [of m k "fst (hashmap_remove m k)" "snd (hashmap_remove m k)"]
  by (simp add: evict_def)

lemma visible_apply:
  "visible t s k = (case s k of None \<Rightarrow> None | Some e \<Rightarrow> if expired_at t e then None else Some e)"
  by (simp add: visible_def)

lemma visible_evict: "visible t s k = None \<Longrightarrow> t \<le> t' \<Longrightarrow> visible t' (s(k := None)) = visible t' s"
  by (auto simp: fun_eq_iff visible_def expired_at_mono split: option.splits if_splits)

lemma visible_visible: "t \<le> t' \<Longrightarrow> visible t' (visible t s) = visible t' s"
  by (auto simp: fun_eq_iff visible_def expired_at_mono split: option.splits)

lemma incrby_overflows_iff: "incrby_overflows v d \<longleftrightarrow> \<not> in_int64 (sint v + sint d)"
proof -
  have "in_int64 (sint v)" "in_int64 (sint d)" by simp_all
  then show ?thesis unfolding in_int64_def incrby_overflows_def by linarith
qed

lemma entry_is_expired_ok:
  "clock_ok ts \<Longrightarrow> entry_is_expired ts e = Inr (case e of None \<Rightarrow> False | Some x \<Rightarrow> expired_at (ms_of ts) x)"
  by (simp add: entry_is_expired_def data_is_expired_ok split: option.splits)

text \<open>The contract of a resolve function: it answers as specified and at most evicts its key.\<close>

definition resolves ::
  "clock \<Rightarrow> store \<Rightarrow> operation \<Rightarrow> char list \<Rightarrow> (store \<times> septic_tank_result) res \<Rightarrow> bool" where
  "resolves clk m op k r \<longleftrightarrow>
     (\<exists>m' res. r = Inr (m', res) \<and> well_formed_result res \<and>
        outcome res = spec (clk 0) (clk 1) (visible (ms_of (clk 0)) (hashmap_get m)) op \<and>
        (m' = m \<or> m' = evict m k \<and> visible (ms_of (clk 0)) (hashmap_get m) k = None))"

lemmas result_simps = blank_result_def fail_with_def well_formed_result_def outcome_def
  data_is_expired_ok entry_is_expired_ok visible_apply copy_old_value_def

lemma resolve_get: "clock_ok (clk 0) \<Longrightarrow> resolves clk m (Get_op k) k (septic_tank_get clk m k)"
  by (auto simp: resolves_def septic_tank_get_def result_simps split: option.splits)

lemma resolve_exists: "clock_ok (clk 0) \<Longrightarrow> resolves clk m (Exists_op k) k (septic_tank_exists clk m k)"
  by (auto simp: resolves_def septic_tank_exists_def result_simps split: option.splits)

lemma resolve_del: "clock_ok (clk 0) \<Longrightarrow> resolves clk m (Del_op k) k (septic_tank_resolve_del clk m k)"
  by (auto simp: resolves_def septic_tank_resolve_del_def result_simps split: option.splits)

lemma resolve_set: "clock_ok (clk 0) \<Longrightarrow> resolves clk m (Set_op op) (so_key op) (septic_tank_resolve_set clk m op)"
  by (auto simp: resolves_def septic_tank_resolve_set_def result_simps spec_set_def Let_def split: option.splits)

lemma resolve_expire:
  "clock_ok (clk 0) \<Longrightarrow> clock_ok (clk 1) \<Longrightarrow>
     resolves clk m (Expire_op op) (eo_key op) (septic_tank_resolve_expire clk m op)"
  using ms_of_range [of "clk 1"]
  by (auto simp: resolves_def septic_tank_resolve_expire_def result_simps spec_expire_def Let_def
      data_now_ms_ok split: option.splits)

lemma int64_of_add:
  "in_int64 (sint a + sint b) \<Longrightarrow> int64_of (sint a + sint b) = Inr (a + b)"
  by (simp add: int64_of_def)

lemma sint_add: "in_int64 (sint a + sint b) \<Longrightarrow> sint (a + b) = sint a + sint (b :: int64)"
  using int64_of_Inr [OF int64_of_add] .

lemma resolve_incrby:
  "clock_ok (clk 0) \<Longrightarrow> resolves clk m (Incrby_op op) (io_key op) (septic_tank_resolve_incrby clk m op)"
  by (auto simp: resolves_def septic_tank_resolve_incrby_def result_simps spec_incrby_def Let_def
      incrby_overflows_iff int64_of_add sint_add data_string_from_int64_eq split: option.splits)

lemma ttl_in_range: "clock_ok ts \<Longrightarrow> in_int64 (c_div (sint (v :: int64)) 1000 - sint (tv_sec ts))"
proof -
  assume ok: "clock_ok ts"
  have "in_int64 (sint v)" by simp
  then have "\<bar>sint v\<bar> div 1000 \<le> 9223372036854775" unfolding in_int64_def by linarith
  then have "- 9223372036854775 \<le> c_div (sint v) 1000" "c_div (sint v) 1000 \<le> 9223372036854775"
    by (auto simp: c_div_def sgn_if)
  with ok show ?thesis by (auto simp: clock_ok_def in_int64_def)
qed

lemma resolve_ttl:
  "clock_ok (clk 0) \<Longrightarrow> visible (ms_of (clk 0)) (hashmap_get m) k = hashmap_get m k \<Longrightarrow>
     resolves clk m (Ttl_op k) k (septic_tank_ttl clk m k)"
  using ttl_in_range [of "clk 0"]
  by (auto simp: resolves_def septic_tank_ttl_def blank_result_def outcome_def well_formed_result_def
      spec_ttl_def int64_of_def split: option.splits)

fun op_key :: "operation \<Rightarrow> char list" where
  "op_key (Set_op op) = so_key op"
| "op_key (Get_op k) = k"
| "op_key (Del_op k) = k"
| "op_key (Ttl_op k) = k"
| "op_key (Exists_op k) = k"
| "op_key (Expire_op op) = eo_key op"
| "op_key (Incrby_op op) = io_key op"

lemma clone_operation_id [simp]: "clone_operation op = op"
  by (cases op) auto

lemma resolve_ok:
  assumes "clock_ok (clk 0)" and "clock_ok (clk 1)"
    and "\<forall>k. op = Ttl_op k \<longrightarrow> visible (ms_of (clk 0)) (hashmap_get m) k = hashmap_get m k"
  shows "resolves clk m op (op_key op) (septic_tank_resolve clk m op)"
  using assms
  by (cases op) (auto simp del: One_nat_def intro: resolve_get resolve_exists resolve_del resolve_set
      resolve_expire resolve_incrby resolve_ttl)

section \<open>The apply half\<close>

definition put_all_ok :: "'v put_fn \<Rightarrow> bool" where
  "put_all_ok put \<longleftrightarrow> (\<forall>m k v st m'. put m k v = Inr (st, m') \<longrightarrow> st = MAP_OK)"

lemma put_all_okD: "put_all_ok put \<Longrightarrow> put m k v = Inr (st, m') \<Longrightarrow> st = MAP_OK"
  unfolding put_all_ok_def by blast

lemma rehash_loop_all_ok:
  assumes "put_all_ok put"
  shows "rehash_loop put es m = Inr (st, m') \<Longrightarrow> st = MAP_OK"
proof (induction es arbitrary: m)
  case (Cons s es)
  then show ?case
    using assms unfolding put_all_ok_def
    by (cases s) (fastforce simp: rbind_eq_Inr_iff split: if_splits prod.splits)+
qed simp

lemma put_fuel_all_ok:
  assumes "\<forall>n. cal n"
  shows "put_all_ok (put_fuel cal f :: 'a put_fn)"
proof (induction f)
  case (Suc f)
  have "rehash_with cal (put_fuel cal f) m = Inr (st, m') \<Longrightarrow> st = MAP_OK" for m m' :: "'a hashmap_map" and st
    using assms [rule_format, of "2 * table_size m"]
    by (auto simp: rehash_with_def split: if_splits dest: rehash_loop_all_ok [OF Suc.IH])
  with Suc.IH show ?case
    unfolding put_all_ok_def
    by (fastforce simp: rbind_eq_Inr_iff split: option.splits if_splits prod.splits)
qed (simp add: put_all_ok_def)

lemma hashmap_put_all_ok: "\<forall>n. cal n \<Longrightarrow> hashmap_put cal m k v = Inr (st, m') \<Longrightarrow> st = MAP_OK"
  unfolding hashmap_put_def by (rule put_all_okD [OF put_fuel_all_ok])

fun set_key_safe :: "store \<Rightarrow> mutation \<Rightarrow> bool" where
  \<comment> \<open>the table position for the written key is the one the key already has, if any\<close>
  "set_key_safe m (Set_mutation k v at) = chain_ok m k"
| "set_key_safe m _ = True"

lemma apply_mutation_ok:
  assumes inv: "map_inv m" and safe: "set_key_safe m mu" and cal: "\<forall>n. cal n"
    and run: "septic_tank_apply_mutation cal m mu = Inr m'"
  shows "map_inv m' \<and> hashmap_get m' = spec_apply mu (hashmap_get m)"
proof (cases mu)
  case (Set_mutation k v at)
  have e: "data_create_string_entry (if at = - 1 then None else Some at) v = string_entry at v"
    by (simp add: data_create_string_entry_def string_entry_def)
  obtain st where p: "hashmap_put cal m k (string_entry at v) = Inr (st, m')"
    using run Set_mutation e
    by (auto simp: septic_tank_apply_set_def rbind_eq_Inr_iff split: prod.splits)
  then have "st = MAP_OK" by (rule hashmap_put_all_ok [OF cal])
  with p safe Set_mutation hm.put [OF inv, of k cal "string_entry at v" m'] show ?thesis by simp
next
  case (Del_mutation k)
  then show ?thesis
    using run evict_ok [OF inv, of k] by (simp add: septic_tank_apply_del_def evict_def)
next
  case (Expire_mutation k at)
  then show ?thesis
    using run hm.update [OF inv, of k "\<lambda>e. e\<lparr>expires_at := Some at\<rparr>"] inv
    by (auto simp: septic_tank_apply_expire_def split: option.splits)
next
  case (Other_mutation x)
  then show ?thesis using run by simp
qed

section \<open>One turn of the actor\<close>

fun mutation_key :: "mutation \<Rightarrow> char list" where
  "mutation_key (Set_mutation k _ _) = k"
| "mutation_key (Del_mutation k) = k"
| "mutation_key (Expire_mutation k _) = k"
| "mutation_key (Other_mutation _) = []"

definition persisted :: "mutation \<Rightarrow> bool" where
  "persisted mu = (case mu of Other_mutation _ \<Rightarrow> False | _ \<Rightarrow> True)"

fun mutation_fits :: "kv \<Rightarrow> mutation \<Rightarrow> bool" where
  \<comment> \<open>deletions and new expiries are only issued for visible keys\<close>
  "mutation_fits s (Set_mutation k v at) = True"
| "mutation_fits s (Del_mutation k) = (s k \<noteq> None)"
| "mutation_fits s (Expire_mutation k at) = (s k \<noteq> None)"
| "mutation_fits s (Other_mutation _) = False"

lemma spec_mutation_fits:
  "spec ts ts2 s op = (v, er, Some mu) \<Longrightarrow> mutation_fits s mu \<and> mutation_key mu = op_key op"
  by (cases op) (auto simp: spec_set_def spec_expire_def spec_incrby_def Let_def
      split: if_splits option.splits)

lemma visible_spec_apply:
  assumes "t \<le> t'" and "mutation_fits (visible t s) mu" and "visible t s1 = visible t s"
    and "s1 = s \<or> s1 = s(k := None)"
  shows "visible t' (spec_apply mu s1) = visible t' (spec_apply mu (visible t s))"
proof -
  have eq: "visible t' s1 = visible t' s"
    using assms(1,3) by (metis visible_visible)
  then have eqk: "visible t' s1 x = visible t' s x" for x by simp
  have vv: "visible t' (visible t s) x = visible t' s x" for x
    using visible_visible [OF assms(1)] by simp
  have same: "visible t s1 x = visible t s x" for x using assms(3) by simp
  show ?thesis
  proof (cases mu)
    case (Expire_mutation x at)
    from assms(2) Expire_mutation obtain e where e: "visible t s x = Some e" by auto
    moreover have "s1 x = Some e"
      using same [of x] e by (auto simp: visible_apply split: option.splits if_splits)
    ultimately show ?thesis
      using eqk vv Expire_mutation by (auto simp: fun_eq_iff visible_apply)
  qed (use eqk vv assms(2) in \<open>auto simp: fun_eq_iff visible_apply\<close>)
qed

text \<open>
  What a turn does to the table, whatever the operation: it evicts at most one key that is not
  visible, then applies the mutation that it also hands to the log.
\<close>

lemma resolve_effect:
  assumes clk: "clock_ok (clk 0)" "clock_ok (clk 1)"
    and res: "septic_tank_resolve clk m op = Inr (m1, result)"
  shows "well_formed_result result"
    and "resolved_mutation result = Some mu \<Longrightarrow>
      mutation_fits (visible (ms_of (clk 0)) (hashmap_get m)) mu \<and> mutation_key mu = op_key op"
    and "m1 = m \<or> m1 = evict m (op_key op) \<and> visible (ms_of (clk 0)) (hashmap_get m) (op_key op) = None"
proof -
  let ?s = "visible (ms_of (clk 0)) (hashmap_get m)"
  have "well_formed_result result \<and>
    (\<forall>mu. resolved_mutation result = Some mu \<longrightarrow> mutation_fits ?s mu \<and> mutation_key mu = op_key op) \<and>
    (m1 = m \<or> m1 = evict m (op_key op) \<and> ?s (op_key op) = None)"
  proof (cases "\<exists>k. op = Ttl_op k")
    case True
    then show ?thesis
      using res by (auto simp: septic_tank_ttl_def blank_result_def well_formed_result_def Let_def
          rbind_eq_Inr_iff split: option.splits)
  next
    case False
    then have r: "resolves clk m op (op_key op) (Inr (m1, result))"
      using resolve_ok [OF clk, of op m] res by simp
    then have "resolved_mutation result = Some mu \<Longrightarrow> mutation_fits ?s mu \<and> mutation_key mu = op_key op" for mu
      using spec_mutation_fits [of "clk 0" "clk 1" ?s op "rvalue result" "error result" mu]
      by (simp add: resolves_def outcome_def del: One_nat_def)
    with r show ?thesis by (auto simp: resolves_def)
  qed
  then show "well_formed_result result"
    and "resolved_mutation result = Some mu \<Longrightarrow> mutation_fits ?s mu \<and> mutation_key mu = op_key op"
    and "m1 = m \<or> m1 = evict m (op_key op) \<and> ?s (op_key op) = None" by auto
qed

text \<open>A write is safe when the probe chain of the operation's key is unbroken before the turn.\<close>

lemma resolved_write_safe:
  assumes "clock_ok (clk 0)" "clock_ok (clk 1)" and "map_inv m" and "chain_ok m (op_key op)"
    and "septic_tank_resolve clk m op = Inr (m1, result)" and "resolved_mutation result = Some mu"
  shows "set_key_safe m1 mu"
proof -
  note eff = resolve_effect [OF assms(1,2,5)]
  have "chain_ok m1 (op_key op)"
    using eff(3) assms(4) chain_ok_absent [of "evict m (op_key op)"] evict_ok [OF assms(3)] by auto
  with eff(2) [OF assms(6)] show ?thesis by (cases mu) auto
qed

lemma digest_effect:
  assumes inv: "map_inv (tank_data tank)" and cal: "\<forall>n. cal n"
    and clk: "clock_ok (clk 0)" "clock_ok (clk 1)"
    and res: "septic_tank_resolve clk (tank_data tank) op = Inr (m1, result)"
    and chain: "chain_ok (tank_data tank) (op_key op)"
    and dig: "septic_tank_digest cal clk tank op clogged = Inr (tank', reply, fed)"
  shows "map_inv (tank_data tank')"
    and "hashmap_get (tank_data tank') = spec_step (resolved_mutation result) (hashmap_get m1)"
    and "reply = (if clogged then Some result else None)"
    and "fed = (if aof_enabled tank then resolved_mutation result else None)"
    and "aof_enabled tank' = aof_enabled tank"
    and "visible (ms_of (clk 0)) (hashmap_get m1) = visible (ms_of (clk 0)) (hashmap_get (tank_data tank))"
    and "hashmap_get m1 = hashmap_get (tank_data tank) \<or>
      hashmap_get m1 = (hashmap_get (tank_data tank))(op_key op := None) \<and>
        visible (ms_of (clk 0)) (hashmap_get (tank_data tank)) (op_key op) = None"
proof -
  let ?m = "tank_data tank"
  let ?s = "visible (ms_of (clk 0)) (hashmap_get ?m)"
  note eff = resolve_effect [OF clk res]
  have inv1: "map_inv m1"
    and g1: "hashmap_get m1 = hashmap_get ?m \<or>
      hashmap_get m1 = (hashmap_get ?m)(op_key op := None) \<and> ?s (op_key op) = None"
    using inv evict_ok [OF inv] eff(3) by auto
  then show "visible (ms_of (clk 0)) (hashmap_get m1) = ?s"
    using visible_evict [of "ms_of (clk 0)" "hashmap_get ?m"] by auto
  show "hashmap_get m1 = hashmap_get ?m \<or>
      hashmap_get m1 = (hashmap_get ?m)(op_key op := None) \<and> ?s (op_key op) = None"
    by (rule g1)
  define m' where "m' = tank_data tank'"
  have suc: "success result \<or> resolved_mutation result = None"
    using eff(1) by (auto simp: well_formed_result_def)
  have "tank' = tank\<lparr>tank_data := m'\<rparr>" "reply = (if clogged then Some result else None)"
      "fed = (if aof_enabled tank \<and> success result then resolved_mutation result else None)"
    using dig res by (auto simp: septic_tank_digest_def rbind_eq_Inr_iff Let_def m'_def)
  then show "reply = (if clogged then Some result else None)"
    and "fed = (if aof_enabled tank then resolved_mutation result else None)"
    and "aof_enabled tank' = aof_enabled tank"
    using suc by auto
  have "map_inv m' \<and> hashmap_get m' = spec_step (resolved_mutation result) (hashmap_get m1)"
  proof (cases "resolved_mutation result")
    case None
    then show ?thesis
      using dig res inv1 by (auto simp: septic_tank_digest_def rbind_eq_Inr_iff Let_def m'_def spec_step_def)
  next
    case (Some mu)
    then have "septic_tank_apply_mutation cal m1 mu = Inr m'"
      using dig res suc by (auto simp: septic_tank_digest_def rbind_eq_Inr_iff Let_def m'_def)
    then show ?thesis
      using apply_mutation_ok [OF inv1 _ cal, of mu m'] resolved_write_safe [OF clk inv chain res Some] Some
      by (simp add: spec_step_def)
  qed
  then show "map_inv (tank_data tank')"
    and "hashmap_get (tank_data tank') = spec_step (resolved_mutation result) (hashmap_get m1)"
    by (auto simp: m'_def)
qed

lemma visible_spec_step:
  assumes "t \<le> t'" and "visible t s1 = s" and "\<And>mu. mo = Some mu \<Longrightarrow> mutation_fits s mu"
  shows "visible t' (spec_step mo s1) = visible t' (spec_step mo s)"
  using assms visible_spec_apply [of t t' s1 _ s1] visible_visible [OF assms(1), of s1]
  by (cases mo) (auto simp: spec_step_def)

section \<open>Live store and logged store\<close>

definition shadows :: "int \<Rightarrow> kv \<Rightarrow> kv \<Rightarrow> bool" where
  "shadows t log live \<longleftrightarrow>
     (\<forall>k. live k = log k \<or> live k = None \<and> (\<exists>e. log k = Some e \<and> expired_at t e))"

lemma shadows_refl: "shadows t s s"
  by (simp add: shadows_def)

lemma shadows_mono: "shadows t log live \<Longrightarrow> t \<le> t' \<Longrightarrow> shadows t' log live"
  unfolding shadows_def using expired_at_mono by blast

lemma shadowsD:
  "shadows t log live \<Longrightarrow> live k = log k \<or> live k = None \<and> (\<exists>e. log k = Some e \<and> expired_at t e)"
  by (simp add: shadows_def)

lemma shadows_visible: "shadows t log live \<Longrightarrow> visible t log = visible t live"
proof (rule ext)
  fix k
  assume "shadows t log live"
  from shadowsD [OF this, of k] show "visible t log k = visible t live k"
    by (auto simp: visible_apply)
qed

lemma shadows_evict:
  assumes "shadows t log live" and "visible t live k = None"
  shows "shadows t log (live(k := None))"
proof (unfold shadows_def, rule allI)
  fix x
  show "(live(k := None)) x = log x \<or>
      (live(k := None)) x = None \<and> (\<exists>e. log x = Some e \<and> expired_at t e)"
    using shadowsD [OF assms(1), of x] assms(2) by (auto simp: visible_apply split: option.splits if_splits)
qed

lemma shadows_apply:
  assumes "shadows t log live" and "mutation_fits (visible t live) mu"
  shows "shadows t (spec_apply mu log) (spec_apply mu live)"
proof (cases mu)
  case (Expire_mutation k at)
  then obtain e where "live k = Some e"
    using assms(2) by (auto simp: visible_apply split: option.splits)
  moreover from this have "log k = Some e"
    using assms(1) unfolding shadows_def by (metis option.distinct(1))
  ultimately show ?thesis
    using assms(1) Expire_mutation by (auto simp: shadows_def)
qed (use assms in \<open>auto simp: shadows_def\<close>)

section \<open>Runs\<close>

text \<open>
  The loop of the actor over a finite sequence of messages, with the clock readings taken during
  each turn: the final tank and the mutations handed to the log, in order.
\<close>

fun septic_tank_pump ::
  "(nat \<Rightarrow> bool) \<Rightarrow> septic_tank \<Rightarrow> (operation \<times> clock) list \<Rightarrow> (septic_tank \<times> mutation list) res" where
  "septic_tank_pump cal tank [] = Inr (tank, [])"
| "septic_tank_pump cal tank ((op, clk) # msgs) =
     rbind (septic_tank_digest cal clk tank op True) (\<lambda>(tank', reply, fed).
       rbind (septic_tank_pump cal tank' msgs) (\<lambda>(tank'', log).
         Inr (tank'', (case fed of None \<Rightarrow> log | Some mu \<Rightarrow> mu # log))))"

fun replay_mutations :: "(nat \<Rightarrow> bool) \<Rightarrow> store \<Rightarrow> mutation list \<Rightarrow> store res" where
  "replay_mutations cal m [] = Inr m"
| "replay_mutations cal m (mu # mus) =
     rbind (septic_tank_replay_mutation cal m mu) (\<lambda>m'. replay_mutations cal m' mus)"

text \<open>
  The condition on the hash table along both runs: every write finds the probe chain of its key
  unbroken by an earlier removal (see \<open>hashmap_remove_resurrects\<close> for what happens otherwise).
\<close>

fun run_safe :: "(nat \<Rightarrow> bool) \<Rightarrow> septic_tank \<Rightarrow> (operation \<times> clock) list \<Rightarrow> bool" where
  "run_safe cal tank [] = True"
| "run_safe cal tank ((op, clk) # msgs) =
     (chain_ok (tank_data tank) (op_key op) \<and>
      (case septic_tank_digest cal clk tank op True of
         Inl _ \<Rightarrow> True
       | Inr (tank', _, _) \<Rightarrow> run_safe cal tank' msgs))"

fun replay_safe :: "(nat \<Rightarrow> bool) \<Rightarrow> store \<Rightarrow> mutation list \<Rightarrow> bool" where
  "replay_safe cal m [] = True"
| "replay_safe cal m (mu # mus) =
     (set_key_safe m mu \<and>
      (case septic_tank_replay_mutation cal m mu of Inl _ \<Rightarrow> True | Inr m' \<Rightarrow> replay_safe cal m' mus))"

fun clocks_ok :: "int \<Rightarrow> (operation \<times> clock) list \<Rightarrow> bool" where
  \<comment> \<open>documented readings that never go back from one turn to the next\<close>
  "clocks_ok t [] = True"
| "clocks_ok t ((op, clk) # msgs) =
     (clock_ok (clk 0) \<and> clock_ok (clk 1) \<and> t \<le> ms_of (clk 0) \<and> clocks_ok (ms_of (clk 0)) msgs)"

fun last_reading :: "int \<Rightarrow> (operation \<times> clock) list \<Rightarrow> int" where
  "last_reading t [] = t"
| "last_reading t ((op, clk) # msgs) = last_reading (ms_of (clk 0)) msgs"

lemma replay_ok:
  "\<forall>n. cal n \<Longrightarrow> map_inv m \<Longrightarrow> replay_safe cal m mus \<Longrightarrow> replay_mutations cal m mus = Inr m' \<Longrightarrow>
     map_inv m' \<and> hashmap_get m' = fold spec_apply mus (hashmap_get m)"
proof (induction mus arbitrary: m)
  case (Cons mu mus)
  obtain m1 where m1: "septic_tank_apply_mutation cal m mu = Inr m1" "replay_mutations cal m1 mus = Inr m'"
    using Cons.prems(4) by (auto simp: rbind_eq_Inr_iff septic_tank_replay_mutation_def)
  have ok: "map_inv m1" "hashmap_get m1 = spec_apply mu (hashmap_get m)"
    using apply_mutation_ok [OF Cons.prems(2) _ Cons.prems(1) m1(1)] Cons.prems(3) by auto
  have "replay_safe cal m1 mus"
    using Cons.prems(3) m1(1) by (simp add: septic_tank_replay_mutation_def)
  from Cons.IH [OF Cons.prems(1) ok(1) this m1(2)] show ?case by (simp add: ok(2))
qed simp

lemma pump_shadows:
  "\<forall>n. cal n \<Longrightarrow> map_inv (tank_data tank) \<Longrightarrow> aof_enabled tank \<Longrightarrow> clocks_ok t msgs \<Longrightarrow>
   run_safe cal tank msgs \<Longrightarrow> septic_tank_pump cal tank msgs = Inr (tank', mus) \<Longrightarrow>
   shadows t log (hashmap_get (tank_data tank)) \<Longrightarrow>
     map_inv (tank_data tank') \<and>
     shadows (last_reading t msgs) (fold spec_apply mus log) (hashmap_get (tank_data tank'))"
proof (induction msgs arbitrary: tank t log mus)
  case (Cons msg msgs)
  obtain op clk where msg: "msg = (op, clk)" by (cases msg)
  from Cons.prems(6) obtain tank1 reply fed mus1 where
    dig: "septic_tank_digest cal clk tank op True = Inr (tank1, reply, fed)" and
    run: "septic_tank_pump cal tank1 msgs = Inr (tank', mus1)" and
    mus: "mus = (case fed of None \<Rightarrow> mus1 | Some mu \<Rightarrow> mu # mus1)"
    by (auto simp: msg rbind_eq_Inr_iff split: prod.splits)
  from dig obtain m1 result where res: "septic_tank_resolve clk (tank_data tank) op = Inr (m1, result)"
    by (auto simp: septic_tank_digest_def rbind_eq_Inr_iff)
  have clk: "clock_ok (clk 0)" "clock_ok (clk 1)" and t: "t \<le> ms_of (clk 0)"
    and rest: "clocks_ok (ms_of (clk 0)) msgs" "run_safe cal tank1 msgs"
    using Cons.prems(4,5) dig by (auto simp: msg)
  have safe: "chain_ok (tank_data tank) (op_key op)"
    using Cons.prems(5) by (simp add: msg)
  note eff = digest_effect [OF Cons.prems(2,1) clk res safe dig]
  note fits = resolve_effect(2) [OF clk res]
  let ?t = "ms_of (clk 0)"
  have sh: "shadows ?t log (hashmap_get m1)"
    using eff(7) shadows_mono [OF Cons.prems(7) t] shadows_evict by auto
  have fed: "fed = resolved_mutation result" using eff(4) Cons.prems(3) by simp
  have "shadows ?t (spec_step fed log) (hashmap_get (tank_data tank1))"
  proof (cases fed)
    case None
    then show ?thesis using sh eff(2) fed by (simp add: spec_step_def)
  next
    case (Some mu)
    then have "shadows ?t (spec_apply mu log) (spec_apply mu (hashmap_get m1))"
      using shadows_apply [OF sh, of mu] fits [of mu] eff(6) fed by simp
    then show ?thesis using eff(2) by (simp add: spec_step_def Some fed [symmetric])
  qed
  from Cons.IH [OF Cons.prems(1) eff(1) _ rest run this] eff(5) Cons.prems(3)
  show ?case by (cases fed) (simp_all add: msg mus spec_step_def)
qed (simp add: shadows_def)

section \<open>Faults\<close>

lemma hashmap_put_faults:
  assumes "map_inv m" and "hashmap_put cal m k v = Inl e"
  shows "e = SignedOverflow"
proof -
  have "fuel_ok m 31" using assms(1) by (simp add: put_fuel_enough map_inv_def)
  then have "put_fuel cal 31 m k v \<noteq> Inl OutOfFuel"
    by (rule put_totalD [OF put_fuel_total])
  then show ?thesis
    using assms(2) only_faultsD [OF put_fuel_faults, of cal 31 m k v e] by (auto simp: hashmap_put_def)
qed

lemma apply_faults:
  assumes "map_inv m" and "persisted mu" and "septic_tank_apply_mutation cal m mu = Inl e"
  shows "e = SignedOverflow"
  using assms(2,3) hashmap_put_faults [OF assms(1)]
  by (cases mu) (auto simp: persisted_def septic_tank_apply_set_def rbind_eq_Inl_iff split: prod.splits)

lemma fits_persisted: "mutation_fits s mu \<Longrightarrow> persisted mu"
  by (cases mu) (auto simp: persisted_def)

lemma resolve_returns:
  assumes "clock_ok (clk 0)" and "clock_ok (clk 1)"
  shows "\<exists>m' result. septic_tank_resolve clk m op = Inr (m', result)"
proof (cases "\<exists>k. op = Ttl_op k")
  case True
  then show ?thesis
    using ttl_in_range [OF assms(1)]
    by (auto simp: septic_tank_ttl_def Let_def int64_of_def split: option.splits)
next
  case False
  then show ?thesis
    using resolve_ok [OF assms, of op m] by (auto simp: resolves_def)
qed

text \<open>One turn against the specification: its result, what it logs and what the store shows afterwards.\<close>

lemma digest_spec:
  assumes "map_inv (tank_data tank)" and "\<forall>n. cal n" and "clock_ok (clk 0)" and "clock_ok (clk 1)"
    and "\<forall>k. op = Ttl_op k \<longrightarrow>
      visible (ms_of (clk 0)) (hashmap_get (tank_data tank)) k = hashmap_get (tank_data tank) k"
    and "chain_ok (tank_data tank) (op_key op)"
    and "septic_tank_digest cal clk tank op clogged = Inr (tank', reply, fed)"
  shows "\<exists>result. reply = (if clogged then Some result else None) \<and>
      outcome result = spec (clk 0) (clk 1) (visible (ms_of (clk 0)) (hashmap_get (tank_data tank))) op \<and>
      success result = (error result = None) \<and> fed = (if aof_enabled tank then resolved_mutation result else None) \<and>
      map_inv (tank_data tank') \<and> aof_enabled tank' = aof_enabled tank \<and>
      (\<forall>t \<ge> ms_of (clk 0). visible t (hashmap_get (tank_data tank')) =
         visible t (spec_step (resolved_mutation result) (visible (ms_of (clk 0)) (hashmap_get (tank_data tank)))))"
proof -
  obtain m1 r where res: "septic_tank_resolve clk (tank_data tank) op = Inr (m1, r)"
    using resolve_returns [OF assms(3,4)] by blast
  note eff = digest_effect [OF assms(1-4) res assms(6,7)]
  note ref = resolve_effect [OF assms(3,4) res]
  have "outcome r = spec (clk 0) (clk 1) (visible (ms_of (clk 0)) (hashmap_get (tank_data tank))) op"
    using resolve_ok [OF assms(3-5)] unfolding res by (auto simp: resolves_def simp del: One_nat_def)
  moreover have "visible t (spec_step (resolved_mutation r) (hashmap_get m1)) =
      visible t (spec_step (resolved_mutation r) (visible (ms_of (clk 0)) (hashmap_get (tank_data tank))))"
    if "ms_of (clk 0) \<le> t" for t
    using ref(2) by (intro visible_spec_step [OF that eff(6)]) simp
  ultimately show ?thesis
    using eff(1-5) ref(1)
    by (intro exI [of _ r]) (auto simp: well_formed_result_def)
qed

section \<open>Evaluation at small inputs\<close>

abbreviation at_second :: "int64 \<Rightarrow> clock" where
  "at_second n \<equiv> (\<lambda>_. \<lparr>tv_sec = n, tv_nsec = 0\<rparr>)"

lemma set_absent:
  assumes "clock_ok (clk 0)" and "hashmap_get (tank_data tank) k = None"
    and "hashmap_hash (tank_data tank) k = Some i"
  shows "septic_tank_resolve clk (tank_data tank)
      (Set_op \<lparr>so_key = k, so_value = v, so_nx = False, so_xx = False, so_get = False, so_expiration = ex\<rparr>) =
      Inr (tank_data tank, (blank_result SEPTIC_TANK_SET (Set_result None))
        \<lparr>resolved_mutation := Some (Set_mutation k v (expiry_field (set_expires_at ex None)))\<rparr>)"
    and "septic_tank_digest cal clk tank
      (Set_op \<lparr>so_key = k, so_value = v, so_nx = False, so_xx = False, so_get = False, so_expiration = ex\<rparr>) b =
      Inr (tank\<lparr>tank_data := hashmap_store (tank_data tank) i k
             (string_entry (expiry_field (set_expires_at ex None)) v)\<rparr>,
           if b then Some ((blank_result SEPTIC_TANK_SET (Set_result None))
             \<lparr>resolved_mutation := Some (Set_mutation k v (expiry_field (set_expires_at ex None)))\<rparr>) else None,
           if aof_enabled tank then Some (Set_mutation k v (expiry_field (set_expires_at ex None))) else None)"
proof -
  show r: "septic_tank_resolve clk (tank_data tank)
      (Set_op \<lparr>so_key = k, so_value = v, so_nx = False, so_xx = False, so_get = False, so_expiration = ex\<rparr>) =
      Inr (tank_data tank, (blank_result SEPTIC_TANK_SET (Set_result None))
        \<lparr>resolved_mutation := Some (Set_mutation k v (expiry_field (set_expires_at ex None)))\<rparr>)"
    using assms(1,2) by (simp add: septic_tank_resolve_set_def result_simps)
  have e: "data_create_string_entry (if at = - 1 then None else Some at) v = string_entry at v" for at
    by (simp add: data_create_string_entry_def string_entry_def)
  show "septic_tank_digest cal clk tank
      (Set_op \<lparr>so_key = k, so_value = v, so_nx = False, so_xx = False, so_get = False, so_expiration = ex\<rparr>) b =
      Inr (tank\<lparr>tank_data := hashmap_store (tank_data tank) i k
             (string_entry (expiry_field (set_expires_at ex None)) v)\<rparr>,
           if b then Some ((blank_result SEPTIC_TANK_SET (Set_result None))
             \<lparr>resolved_mutation := Some (Set_mutation k v (expiry_field (set_expires_at ex None)))\<rparr>) else None,
           if aof_enabled tank then Some (Set_mutation k v (expiry_field (set_expires_at ex None))) else None)"
    unfolding septic_tank_digest_def r
    by (simp add: blank_result_def septic_tank_apply_set_def e hashmap_put_direct [OF assms(3)])
qed

section \<open>Properties\<close>

text \<open>
  C3: one turn of the actor implements the specification of the store, on a well-formed table (\<open>map_inv\<close>) in which the probe chain
  of the key is unbroken (\<open>chain_ok\<close>), when \<^verbatim>\<open>calloc\<close> does not fail. It answers an operation
  exactly as the specification prescribes for the keys visible at the time of the turn, hands
  the specified mutation to the log, and from then on, at every later time \<open>t\<close>, shows the keys that the
  specification gives. TTL is included when the table does not hold its key expired. On a broken chain, or when a key is stored twice,
  it fails: \<open>hashmap_remove_resurrects\<close> makes a DEL show an old value.
\<close>

theorem digest_implements_spec:
  assumes "map_inv (tank_data tank)" and "\<forall>n. cal n" and "clock_ok (clk 0)" and "clock_ok (clk 1)"
    and "\<forall>k. op = Ttl_op k \<longrightarrow>
      visible (ms_of (clk 0)) (hashmap_get (tank_data tank)) k = hashmap_get (tank_data tank) k"
    and "chain_ok (tank_data tank) (op_key op)"
    and "septic_tank_digest cal clk tank op clogged = Inr (tank', reply, fed)"
    and "ms_of (clk 0) \<le> t"
    and "spec (clk 0) (clk 1) (visible (ms_of (clk 0)) (hashmap_get (tank_data tank))) op = (v, er, mu)"
  shows "map_inv (tank_data tank') \<and>
    (\<exists>result. reply = (if clogged then Some result else None) \<and>
       rvalue result = v \<and> error result = er \<and> success result = (er = None)) \<and>
    fed = (if aof_enabled tank then mu else None) \<and>
    visible t (hashmap_get (tank_data tank')) =
      visible t (spec_step mu (visible (ms_of (clk 0)) (hashmap_get (tank_data tank))))"
  using digest_spec [OF assms(1-7)] assms(8,9) by (auto simp: outcome_def)

theorem digest_implements_spec_witness:
  "\<exists>tank' reply fed. septic_tank_digest (\<lambda>_. True) (at_second 5) septic_tank_create
       (Set_op \<lparr>so_key = ''c'', so_value = ''v'', so_nx = False, so_xx = False, so_get = False,
          so_expiration = \<lparr>etype = ST_EXPIRATION_UNIX_TS, ets = 9000\<rparr>\<rparr>) True = Inr (tank', reply, fed) \<and>
     visible 6000 (hashmap_get (tank_data tank')) =
       [''c'' \<mapsto> \<lparr>expires_at = Some 9000, dtype = DATA_STRING, dvalue = ''v''\<rparr>] \<and>
     fed = Some (Set_mutation ''c'' ''v'' 9000)"
proof -
  let ?op = "\<lparr>so_key = ''c'', so_value = ''v'', so_nx = False, so_xx = False, so_get = False,
          so_expiration = \<lparr>etype = ST_EXPIRATION_UNIX_TS, ets = 9000\<rparr>\<rparr>"
  have new: "hashmap_get (tank_data septic_tank_create) ''c'' = None" "map_inv (tank_data septic_tank_create)"
      "hashmap_hash (tank_data septic_tank_create) ''c'' = Some 64" "aof_enabled septic_tank_create"
      "hashmap_get (tank_data septic_tank_create) = Map.empty"
    using get_new map_inv_new hash_new_c by (auto simp: septic_tank_create_def fun_eq_iff)
  have clk: "clock_ok (at_second 5 0)" "clock_ok (at_second 5 1)" by (simp_all add: clock_ok_def)
  note d = set_absent(2) [OF clk(1) new(1,3), where v = "''v''" and ex = "\<lparr>etype = ST_EXPIRATION_UNIX_TS, ets = 9000\<rparr>"
      and b = True and cal = "\<lambda>_. True"]
  have safe: "chain_ok (tank_data septic_tank_create) (op_key (Set_op ?op))"
    using chain_ok_absent [OF new(1)] by simp
  have empty: "visible t (hashmap_get (tank_data septic_tank_create)) = Map.empty" for t
    by (simp add: visible_def new(5))
  have sp: "spec (at_second 5 0) (at_second 5 1) (visible (ms_of (at_second 5 0)) (hashmap_get (tank_data septic_tank_create)))
      (Set_op ?op) = (Set_result None, None, Some (Set_mutation ''c'' ''v'' 9000))"
    unfolding empty by (simp add: spec_set_def set_expires_at_def expiry_field_def)
  have le: "ms_of (at_second 5 0) \<le> 6000" by (simp add: ms_of_def)
  have v: "visible 6000 (spec_step (Some (Set_mutation ''c'' ''v'' 9000)) Map.empty) =
      [''c'' \<mapsto> \<lparr>expires_at = Some 9000, dtype = DATA_STRING, dvalue = ''v''\<rparr>]"
    by (simp add: fun_eq_iff visible_def spec_step_def string_entry_def expired_at_def)
  show ?thesis
    using digest_implements_spec [OF new(2) _ clk _ safe d le sp] d new(4) unfolding empty v
    by (simp add: expiry_field_def set_expires_at_def)
qed



text \<open>
  C4: a restart restores the store, for runs in which no operation meets a broken probe chain. Applying, in order, the mutations that a
  run of the actor handed to the log to an empty table gives a table that shows the same keys, values and expiries
  as the live one, at the last turn and at any time after it, although the live table evicted
  expired keys without logging it. Conditions: every operation of the run (\<open>run_safe\<close>) and every write of the replay (\<open>replay_safe\<close>) finds the
  probe chain of its key unbroken; \<^verbatim>\<open>calloc\<close> never fails; clock readings are documented and do not go back. Without
  the first condition it fails: \<open>colliding_keys_diverge\<close> in \<open>Separate_Keys\<close>.
\<close>

theorem replay_restores_store:
  assumes "\<forall>n. cal n" and "clocks_ok t msgs" and "run_safe cal septic_tank_create msgs"
    and "septic_tank_pump cal septic_tank_create msgs = Inr (tank, mus)"
    and "replay_safe cal hashmap_new mus" and "replay_mutations cal hashmap_new mus = Inr m"
    and "last_reading t msgs \<le> now"
  shows "visible now (hashmap_get m) = visible now (hashmap_get (tank_data tank))"
proof -
  have new: "map_inv (tank_data septic_tank_create)" "aof_enabled septic_tank_create"
      "hashmap_get (tank_data septic_tank_create) = hashmap_get hashmap_new"
    by (simp_all add: septic_tank_create_def map_inv_new)
  have "shadows (last_reading t msgs) (fold spec_apply mus (hashmap_get hashmap_new)) (hashmap_get (tank_data tank))"
    using pump_shadows [OF assms(1) new(1,2) assms(2,3,4), of "hashmap_get hashmap_new"] shadows_refl new(3)
    by simp
  moreover have "hashmap_get m = fold spec_apply mus (hashmap_get hashmap_new)"
    using replay_ok [OF assms(1) map_inv_new assms(5,6)] by blast
  ultimately show ?thesis
    using shadows_visible [OF shadows_mono [OF _ assms(7)]] by simp
qed

theorem replay_restores_store_witness:
  "\<exists>tank m. septic_tank_pump (\<lambda>_. True) septic_tank_create
       [(Set_op \<lparr>so_key = ''c'', so_value = ''v'', so_nx = False, so_xx = False, so_get = False,
           so_expiration = \<lparr>etype = ST_EXPIRATION_UNIX_TS, ets = 2000\<rparr>\<rparr>, at_second 1),
        (Get_op ''c'', at_second 3)] = Inr (tank, [Set_mutation ''c'' ''v'' 2000]) \<and>
     hashmap_get (tank_data tank) ''c'' = None \<and>
     replay_mutations (\<lambda>_. True) hashmap_new [Set_mutation ''c'' ''v'' 2000] = Inr m \<and>
     hashmap_get m ''c'' \<noteq> None \<and>
     visible 4000 (hashmap_get m) = visible 4000 (hashmap_get (tank_data tank))"
proof -
  let ?ex = "\<lparr>etype = ST_EXPIRATION_UNIX_TS, ets = 2000\<rparr>"
  let ?op = "Set_op \<lparr>so_key = ''c'', so_value = ''v'', so_nx = False, so_xx = False, so_get = False, so_expiration = ?ex\<rparr>"
  let ?msgs = "[(?op, at_second 1), (Get_op ''c'', at_second 3)]"
  let ?e = "string_entry 2000 ''v''"
  let ?m = "hashmap_store hashmap_new 64 ''c'' ?e"
  let ?t = "septic_tank_create\<lparr>tank_data := ?m\<rparr>"
  let ?cal = "\<lambda>_ :: nat. True"
  have new: "tank_data septic_tank_create = hashmap_new" "aof_enabled septic_tank_create"
    by (simp_all add: septic_tank_create_def)
  have clk: "clock_ok (at_second 1 0)" "clock_ok (at_second 3 0)" by (simp_all add: clock_ok_def)
  have ef: "expiry_field (set_expires_at ?ex None) = 2000"
    by (simp add: expiry_field_def set_expires_at_def)
  have tk: "hashmap_get (tank_data septic_tank_create) ''c'' = None"
      "hashmap_hash (tank_data septic_tank_create) ''c'' = Some 64"
    using get_new hash_new_c by (simp_all add: new)
  note d = set_absent(2) [OF clk(1) tk, where v = "''v''" and ex = ?ex and b = True and cal = ?cal, unfolded ef]
  have g: "hashmap_get ?m ''c'' = Some ?e" by (simp add: probe_eval)
  have exp: "expired_at (ms_of (at_second 3 0)) ?e" by (simp add: expired_at_def string_entry_def ms_of_def)
  have r2: "septic_tank_resolve (at_second 3) (tank_data ?t) (Get_op ''c'') =
      Inr (evict ?m ''c'', (blank_result SEPTIC_TANK_GET Unset_result)\<lparr>rvalue := Get_result None\<rparr>)"
    using exp by (simp add: septic_tank_get_def g data_is_expired_ok [OF clk(2)])
  then have d2: "septic_tank_digest ?cal (at_second 3) ?t (Get_op ''c'') True =
      Inr (?t\<lparr>tank_data := evict ?m ''c''\<rparr>,
        Some ((blank_result SEPTIC_TANK_GET Unset_result)\<lparr>rvalue := Get_result None\<rparr>), None)"
    unfolding septic_tank_digest_def by (simp add: blank_result_def)
  have pump: "septic_tank_pump ?cal septic_tank_create ?msgs =
      Inr (?t\<lparr>tank_data := evict ?m ''c''\<rparr>, [Set_mutation ''c'' ''v'' 2000])"
    using d d2 by (simp add: new del: septic_tank_resolve.simps)
  have e: "data_create_string_entry (Some 2000) ''v'' = ?e"
    by (simp add: data_create_string_entry_def string_entry_def)
  have rep: "replay_mutations ?cal hashmap_new [Set_mutation ''c'' ''v'' 2000] = Inr ?m"
    by (simp add: septic_tank_replay_mutation_def septic_tank_apply_set_def e put_new_c)
  have closed: "chain_closed ?m"
    using put_keeps_closed [OF map_inv_new chain_closed_new put_new_c [where cal = ?cal and v = ?e]] by simp
  have safe: "run_safe ?cal septic_tank_create ?msgs"
    using chain_ok_absent [OF get_new, of "''c''"] chain_closed_ok [OF map_inv_new_c closed] d2
    by (simp only: run_safe.simps d) (simp add: new)
  have rsafe: "replay_safe ?cal hashmap_new [Set_mutation ''c'' ''v'' 2000]"
    using chain_ok_absent [OF get_new, of "''c''"]
    by (simp add: septic_tank_replay_mutation_def septic_tank_apply_set_def e put_new_c)
  have "visible 4000 (hashmap_get ?m) = visible 4000 (hashmap_get (tank_data (?t\<lparr>tank_data := evict ?m ''c''\<rparr>)))"
    by (rule replay_restores_store [OF _ _ safe pump rsafe rep, of 0])
      (simp_all add: clock_ok_def ms_of_def)
  moreover have "hashmap_get (evict ?m ''c'') ''c'' = None"
    using evict_ok [OF map_inv_new_c, of ?e "''c''"] by simp
  ultimately show ?thesis
    using pump rep g by simp
qed

text \<open>
  C21: an increment that reports success returns the exact sum, without wrap-around, of the delta
  and the number the visible value denotes (zero for an absent or expired key), and
  afterwards the key holds the decimal text of that sum under the expiry it had.
\<close>

theorem incrby_exact:
  assumes "map_inv (tank_data tank)" and "\<forall>n. cal n" and "clock_ok (clk 0)" and "clock_ok (clk 1)"
    and "chain_ok (tank_data tank) (io_key op)"
    and "septic_tank_digest cal clk tank (Incrby_op op) True = Inr (tank', Some r, fed)"
    and "success r"
  shows "\<exists>n old at. rvalue r = Incrby_result n \<and> sint n = sint old + sint (io_delta op) \<and>
     (case visible (ms_of (clk 0)) (hashmap_get (tank_data tank)) (io_key op) of
        None \<Rightarrow> old = 0 \<and> at = None
      | Some e \<Rightarrow> parse_int64 (dvalue e) = Some old \<and> at = expires_at e) \<and>
     visible (ms_of (clk 0)) (hashmap_get (tank_data tank')) (io_key op) =
       Some \<lparr>expires_at = at, dtype = DATA_STRING, dvalue = show_int (sint n)\<rparr>"
proof -
  let ?t = "ms_of (clk 0)" and ?k = "io_key op"
  let ?s = "visible ?t (hashmap_get (tank_data tank))"
  let ?old = "case ?s ?k of None \<Rightarrow> Some 0 | Some e \<Rightarrow> parse_int64 (dvalue e)"
  let ?at = "Option.bind (?s ?k) expires_at"
  obtain v er mu where sp: "spec (clk 0) (clk 1) ?s (Incrby_op op) = (v, er, mu)"
    by (cases "spec (clk 0) (clk 1) ?s (Incrby_op op)")
  have noop: "\<forall>k. Incrby_op op = Ttl_op k \<longrightarrow> ?s k = hashmap_get (tank_data tank) k" by simp
  have main: "rvalue r = v" "er = None"
      "visible ?t (hashmap_get (tank_data tank')) = visible ?t (spec_step mu ?s)"
    using digest_implements_spec [OF assms(1-4) noop _ assms(6) order_refl sp] assms(5,7) by auto
  from sp main(2) obtain old where old: "?old = Some old" and
    rng: "in_int64 (sint old + sint (io_delta op))" and v: "v = Incrby_result (old + io_delta op)" and
    mu: "mu = Some (Set_mutation ?k (show_int (sint old + sint (io_delta op))) (expiry_field ?at))"
    by (auto simp: spec_incrby_def split: option.splits if_splits)
  have "0 \<le> ?t" using ms_of_range [OF assms(3)] by simp
  then have live: "?at = Some a \<Longrightarrow> ?t < sint a \<and> a \<noteq> - 1" for a
    by (auto simp: visible_apply expired_at_def bind_eq_Some_conv split: option.splits if_splits)
  then have "visible ?t (spec_step mu ?s) ?k =
      Some \<lparr>expires_at = ?at, dtype = DATA_STRING, dvalue = show_int (sint old + sint (io_delta op))\<rparr>"
    by (cases ?at) (auto simp: mu spec_step_def visible_apply string_entry_def expiry_field_def expired_at_def)
  then have fin: "visible ?t (hashmap_get (tank_data tank')) ?k =
      Some \<lparr>expires_at = ?at, dtype = DATA_STRING, dvalue = show_int (sint (old + io_delta op))\<rparr>"
    by (simp only: main(3) sint_add [OF rng])
  have c: "case ?s ?k of None \<Rightarrow> old = 0 \<and> ?at = None
      | Some e \<Rightarrow> parse_int64 (dvalue e) = Some old \<and> ?at = expires_at e"
    using old by (auto split: option.splits)
  show ?thesis
    by (rule exI [of _ "old + io_delta op"], rule exI [of _ old], rule exI [of _ ?at])
      (use main(1) v fin c sint_add [OF rng] in simp)
qed

theorem incrby_exact_witness:
  "\<exists>tank' r fed n old at. septic_tank_digest (\<lambda>_. True) (at_second 5) septic_tank_create
       (Incrby_op \<lparr>io_key = ''c'', io_delta = - 7\<rparr>) True = Inr (tank', Some r, fed) \<and>
     rvalue r = Incrby_result n \<and> sint n = - 7 \<and>
     visible 5000 (hashmap_get (tank_data tank')) ''c'' =
       Some \<lparr>expires_at = at, dtype = DATA_STRING, dvalue = show_int (sint n)\<rparr>"
proof -
  let ?op = "\<lparr>io_key = ''c'', io_delta = - 7\<rparr> :: incrby_operation"
  let ?r = "(blank_result SEPTIC_TANK_INCRBY (Incrby_result 0))\<lparr>rvalue := Incrby_result (- 7),
    resolved_mutation := Some (Set_mutation ''c'' (show_int (- 7)) (- 1))\<rparr>"
  let ?m = "hashmap_store hashmap_new 64 ''c'' (string_entry (- 1) (show_int (- 7)))"
  have clk: "clock_ok (at_second 5 0)" "clock_ok (at_second 5 1)" by (simp_all add: clock_ok_def)
  have new: "tank_data septic_tank_create = hashmap_new" "aof_enabled septic_tank_create"
    by (simp_all add: septic_tank_create_def)
  have i7: "int64_of (- 7) = Inr (- 7)" by (simp add: int64_of_def in_int64_def)
  have res: "septic_tank_resolve (at_second 5) (tank_data septic_tank_create) (Incrby_op ?op) =
      Inr (hashmap_new, ?r)"
    by (simp add: septic_tank_resolve_incrby_def new get_new result_simps incrby_overflows_def i7
        data_string_from_int64_eq expiry_field_def entry_is_expired_def)
  have e: "data_create_string_entry None (show_int (- 7)) = string_entry (- 1) (show_int (- 7))"
    by (simp add: data_create_string_entry_def string_entry_def)
  have dig: "septic_tank_digest (\<lambda>_. True) (at_second 5) septic_tank_create (Incrby_op ?op) True =
      Inr (septic_tank_create\<lparr>tank_data := ?m\<rparr>, Some ?r, Some (Set_mutation ''c'' (show_int (- 7)) (- 1)))"
    unfolding septic_tank_digest_def res
    by (simp add: blank_result_def septic_tank_apply_set_def e put_new_c new)
  have safe: "chain_ok (tank_data septic_tank_create) (io_key ?op)"
    using chain_ok_absent [OF get_new, of "''c''"] by (simp add: new)
  have inv: "map_inv (tank_data septic_tank_create)" by (simp add: new map_inv_new)
  have vis: "visible (ms_of (at_second 5 0)) (hashmap_get (tank_data septic_tank_create)) ''c'' = None"
    by (simp add: visible_apply new get_new)
  have ms: "ms_of (at_second 5 0) = 5000" by (simp add: ms_of_def)
  show ?thesis
    using incrby_exact [OF inv _ clk safe dig] vis dig unfolding ms by (simp add: blank_result_def)
qed

text \<open>
  C33: TTL does not look at the expiry it reports. On a key that has expired but was not yet evicted
  it answers the (non-positive) difference of seconds and leaves the entry, where GET at the same
  moment answers that there is no such key.
\<close>

theorem ttl_reports_expired_keys:
  assumes "clock_ok (clk 0)" and "hashmap_get m k = Some e" and "expires_at e = Some v"
    and "sint v \<le> ms_of (clk 0)"
  shows "\<exists>n r r'. septic_tank_ttl clk m k = Inr (m, r) \<and> rvalue r = Ttl_result n \<and>
      sint n = c_div (sint v) 1000 - sint (tv_sec (clk 0)) \<and> sint n \<le> 0 \<and>
      septic_tank_get clk m k = Inr (evict m k, r') \<and> rvalue r' = Get_result None"
proof -
  let ?x = "c_div (sint v) 1000 - sint (tv_sec (clk 0))"
  have rng: "in_int64 ?x" by (rule ttl_in_range [OF assms(1)])
  have "ms_of (clk 0) < (sint (tv_sec (clk 0)) + 1) * 1000" "0 \<le> sint (tv_sec (clk 0))"
    using assms(1) by (auto simp: clock_ok_def ms_of_def)
  then have "?x \<le> 0"
    using assms(4) by (cases "0 \<le> sint v") (auto simp: c_div_def sgn_if)
  then show ?thesis
    using assms rng sint_word_of_int64 [OF rng]
    by (auto simp: septic_tank_ttl_def septic_tank_get_def data_is_expired_ok expired_at_def
        int64_of_def blank_result_def simp del: sint_word_of_int64)
qed

theorem ttl_reports_expired_keys_witness:
  "\<exists>n r r'. septic_tank_ttl (at_second 3) (hashmap_store hashmap_new 64 ''c'' (string_entry 2000 ''v'')) ''c'' =
       Inr (hashmap_store hashmap_new 64 ''c'' (string_entry 2000 ''v''), r) \<and>
     rvalue r = Ttl_result n \<and> sint n = - 1 \<and>
     septic_tank_get (at_second 3) (hashmap_store hashmap_new 64 ''c'' (string_entry 2000 ''v'')) ''c'' =
       Inr (evict (hashmap_store hashmap_new 64 ''c'' (string_entry 2000 ''v'')) ''c'', r') \<and>
     rvalue r' = Get_result None"
proof -
  let ?m = "hashmap_store hashmap_new 64 ''c'' (string_entry 2000 ''v'')"
  have g: "hashmap_get ?m ''c'' = Some (string_entry 2000 ''v'')" by (simp add: probe_eval)
  have e: "expires_at (string_entry 2000 ''v'') = Some 2000" by (simp add: string_entry_def)
  have "clock_ok (at_second 3 0)" "sint (2000 :: int64) \<le> ms_of (at_second 3 0)"
    by (simp_all add: clock_ok_def ms_of_def)
  from ttl_reports_expired_keys [OF this(1) g e this(2)] show ?thesis
    by (auto simp: c_div_def)
qed

end
