(* ===== verification/Commands.thy ===== *)
theory Commands
  imports Command_Args Septic_Tank_Correct
begin

text \<open>
  The twelve commands (\<^verbatim>\<open>command/handlers/\<close>) and their dispatch (\<^verbatim>\<open>command.c\<close>). A handler builds an
  operation from its parsed arguments, has the store actor digest it, and turns the result into a
  RESP value. \<open>ts\<close> is the handler's own reading of the clock, \<open>clk\<close> those that the actor takes. The
  state is the store, the mutations it has handed to the log, and whether a master is configured.
\<close>

record world =
  wtank :: septic_tank
  wlog :: "mutation list"
  has_master :: bool

definition septic_tank_feed ::
  "(nat \<Rightarrow> bool) \<Rightarrow> clock \<Rightarrow> world \<Rightarrow> operation \<Rightarrow> (septic_tank_result \<times> world) res" where
  \<comment> \<open>send a copy with a response channel, let the actor digest it, receive the response\<close>
  "septic_tank_feed cal clk w op =
     rbind (septic_tank_digest cal clk (wtank w) (clone_operation op) True) (\<lambda>(tank, reply, fed).
       case reply of
         None \<Rightarrow> Inl NullDeref
       | Some r \<Rightarrow> Inr (r, w\<lparr>wtank := tank,
           wlog := wlog w @ (case fed of None \<Rightarrow> [] | Some mu \<Rightarrow> [mu])\<rparr>))"

section \<open>Reading parsed arguments\<close>

text \<open>Reading an object through a pointer to another type is undefined; the model faults.\<close>

definition arg_at :: "command_arg list \<Rightarrow> nat \<Rightarrow> command_arg res" where
  "arg_at args i = (if i < length args then Inr (args ! i) else Inl OutOfBounds)"

definition as_string :: "arg_value \<Rightarrow> char list res" where
  "as_string v = (case v of V_string s \<Rightarrow> Inr s | _ \<Rightarrow> Inl OutOfBounds)"

definition as_int64 :: "arg_value \<Rightarrow> int64 res" where
  "as_int64 v = (case v of V_int n \<Rightarrow> Inr n | V_unix n \<Rightarrow> Inr n | _ \<Rightarrow> Inl OutOfBounds)"

definition as_option :: "arg_value \<Rightarrow> arg_value option res" where
  "as_option v = (case v of V_option opt \<Rightarrow> Inr opt | _ \<Rightarrow> Inl OutOfBounds)"

definition string_arg :: "command_arg list \<Rightarrow> nat \<Rightarrow> char list res" where
  "string_arg args i = rbind (arg_at args i) (\<lambda>c. as_string (cvalue c))"

definition int64_arg :: "command_arg list \<Rightarrow> nat \<Rightarrow> int64 res" where
  "int64_arg args i = rbind (arg_at args i) (\<lambda>c. as_int64 (cvalue c))"

definition option_arg :: "command_arg list \<Rightarrow> nat \<Rightarrow> arg_value option res" where
  "option_arg args i = rbind (arg_at args i) (\<lambda>c. as_option (cvalue c))"

type_synonym handler =
  "(nat \<Rightarrow> bool) \<Rightarrow> timespec \<Rightarrow> clock \<Rightarrow> world \<Rightarrow> command_arg list \<Rightarrow> (resp_value \<times> world) res"

definition error_reply :: "septic_tank_result \<Rightarrow> resp_value option" where
  \<comment> \<open>the reply of the handlers to an unsuccessful result\<close>
  "error_reply r =
     (if success r then None
      else Some (case error r of
          Some msg \<Rightarrow> resp_create_simple_error_value msg
        | None \<Rightarrow> resp_create_null_value))"

section \<open>Handlers\<close>

abbreviation COMMAND_ARG :: "char list \<Rightarrow> arg_type \<Rightarrow> bool \<Rightarrow> char list option \<Rightarrow> arg_def" where
  "COMMAND_ARG name ty opt token \<equiv> Arg_def name ty opt token (Some [])"

abbreviation COMMAND_ARG_ONE_OF :: "char list \<Rightarrow> bool \<Rightarrow> arg_def list \<Rightarrow> arg_def" where
  "COMMAND_ARG_ONE_OF name opt defs \<equiv> Arg_def name ARG_TYPE_ONEOF opt None (Some defs)"

definition PING_ARGS :: "arg_def list" where
  "PING_ARGS = [COMMAND_ARG ''message'' ARG_TYPE_STRING True None]"

definition process_ping :: handler where
  "process_ping cal ts clk w args =
     rbind (option_arg args 0) (\<lambda>message_arg.
       case message_arg of
         Some v \<Rightarrow> rbind (as_string v) (\<lambda>message.
           Inr (resp_create_bulk_string_value (length message) message, w))
       | None \<Rightarrow> Inr (resp_create_simple_string_value ''PONG'', w))"

definition SET_ARGS :: "arg_def list" where
  "SET_ARGS =
     [COMMAND_ARG ''key'' ARG_TYPE_STRING False None,
      COMMAND_ARG ''value'' ARG_TYPE_STRING False None,
      COMMAND_ARG_ONE_OF ''condition'' True
        [COMMAND_ARG ''nx'' ARG_TYPE_PURE_TOKEN False (Some ''NX''),
         COMMAND_ARG ''xx'' ARG_TYPE_PURE_TOKEN False (Some ''XX'')],
      COMMAND_ARG ''get'' ARG_TYPE_PURE_TOKEN True (Some ''GET''),
      COMMAND_ARG_ONE_OF ''expiration'' True
        [COMMAND_ARG ''seconds'' ARG_TYPE_INTEGER False (Some ''EX''),
         COMMAND_ARG ''milliseconds'' ARG_TYPE_INTEGER False (Some ''PX''),
         COMMAND_ARG ''unix-time-seconds'' ARG_TYPE_UNIX_TIME False (Some ''EXAT''),
         COMMAND_ARG ''unix-time-milliseconds'' ARG_TYPE_UNIX_TIME False (Some ''PXAT''),
         COMMAND_ARG ''keepttl'' ARG_TYPE_PURE_TOKEN False (Some ''KEEPTTL'')]]"

definition get_expire_time :: "timespec \<Rightarrow> command_arg \<Rightarrow> expiration res" where
  "get_expire_time ts arg =
     rbind (as_option (cvalue arg)) (\<lambda>opt.
       case opt of
         None \<Rightarrow> Inr \<lparr>etype = ST_EXPIRATION_NO_EXPIRE, ets = 0\<rparr>
       | Some v \<Rightarrow> rbind (data_now_ms ts) (\<lambda>now_ms.
           if dname (cdef arg) = ''seconds'' then
             rbind (as_int64 v) (\<lambda>s.
             rbind (int64_of (sint s * 1000)) (\<lambda>ms.
             rbind (int64_of (sint now_ms + sint ms)) (\<lambda>t.
               Inr \<lparr>etype = ST_EXPIRATION_UNIX_TS, ets = t\<rparr>)))
           else if dname (cdef arg) = ''milliseconds'' then
             rbind (as_int64 v) (\<lambda>ms.
             rbind (int64_of (sint now_ms + sint ms)) (\<lambda>t.
               Inr \<lparr>etype = ST_EXPIRATION_UNIX_TS, ets = t\<rparr>))
           else if dname (cdef arg) = ''unix-time-seconds'' then
             rbind (as_int64 v) (\<lambda>unix_s.
             rbind (int64_of (sint unix_s * 1000)) (\<lambda>t.
               Inr \<lparr>etype = ST_EXPIRATION_UNIX_TS, ets = t\<rparr>))
           else if dname (cdef arg) = ''unix-time-milliseconds'' then
             rbind (as_int64 v) (\<lambda>unix_ms. Inr \<lparr>etype = ST_EXPIRATION_UNIX_TS, ets = unix_ms\<rparr>)
           else if dname (cdef arg) = ''keepttl'' then Inr \<lparr>etype = ST_EXPIRATION_KEEP_OLD, ets = 0\<rparr>
           else Inl Unreachable))"

definition set_reply :: "bool \<Rightarrow> septic_tank_result \<Rightarrow> resp_value res" where
  "set_reply get_flag r =
     (case error_reply r of
        Some e \<Rightarrow> Inr e
      | None \<Rightarrow>
          if get_flag then
            (case rvalue r of
               Set_result (Some old) \<Rightarrow> Inr (resp_create_bulk_string_value (length old) old)
             | Set_result None \<Rightarrow> Inr resp_create_null_value
             | _ \<Rightarrow> Inl OutOfBounds)
          else if resolved_mutation r \<noteq> None then Inr (resp_create_simple_string_value ''OK'')
          else Inr resp_create_null_value)"

definition process_set :: handler where
  "process_set cal ts clk w args =
     rbind (string_arg args 0) (\<lambda>key.
     rbind (string_arg args 1) (\<lambda>value.
     rbind (arg_at args 2) (\<lambda>condition.
     rbind (as_option (cvalue condition)) (\<lambda>cond_opt.
     rbind (option_arg args 3) (\<lambda>get_opt.
     rbind (arg_at args 4) (\<lambda>expiration.
     rbind (get_expire_time ts expiration) (\<lambda>expiry_time.
       let nx = (cond_opt \<noteq> None \<and> dname (cdef condition) = ''nx'');
           xx = (cond_opt \<noteq> None \<and> dname (cdef condition) = ''xx'');
           get_flag = (get_opt \<noteq> None)
       in rbind (septic_tank_feed cal clk w (Set_op
              \<lparr>so_key = key, so_value = value, so_nx = nx, so_xx = xx, so_get = get_flag,
               so_expiration = expiry_time\<rparr>)) (\<lambda>(r, w').
            rbind (set_reply get_flag r) (\<lambda>reply. Inr (reply, w'))))))))))"

definition KEY_ARGS :: "arg_def list" where
  \<comment> \<open>the arguments of GET, DEL, TTL, EXISTS, INCR and DECR\<close>
  "KEY_ARGS = [COMMAND_ARG ''key'' ARG_TYPE_STRING False None]"

definition process_get :: handler where
  "process_get cal ts clk w args =
     rbind (string_arg args 0) (\<lambda>key.
     rbind (septic_tank_feed cal clk w (Get_op key)) (\<lambda>(r, w').
       case rvalue r of
         Get_result (Some s) \<Rightarrow> Inr (resp_create_bulk_string_value (length s) s, w')
       | Get_result None \<Rightarrow> Inr (resp_create_null_value, w')
       | _ \<Rightarrow> Inl OutOfBounds))"

definition process_del :: handler where
  "process_del cal ts clk w args =
     rbind (string_arg args 0) (\<lambda>key.
     rbind (septic_tank_feed cal clk w (Del_op key)) (\<lambda>(r, w').
       if \<not> success r \<and> error r \<noteq> None
       then Inr (resp_create_simple_error_value (case error r of Some m \<Rightarrow> m | None \<Rightarrow> []), w')
       else case rvalue r of
         Del_result n \<Rightarrow> Inr (resp_create_integer_value (of_nat n), w')
       | _ \<Rightarrow> Inl OutOfBounds))"

definition process_exists :: handler where
  "process_exists cal ts clk w args =
     rbind (string_arg args 0) (\<lambda>key.
     rbind (septic_tank_feed cal clk w (Exists_op key)) (\<lambda>(r, w').
       case rvalue r of
         Exists_result n \<Rightarrow> Inr (resp_create_integer_value n, w')
       | _ \<Rightarrow> Inl OutOfBounds))"

definition process_ttl :: handler where
  "process_ttl cal ts clk w args =
     rbind (string_arg args 0) (\<lambda>key.
     rbind (septic_tank_feed cal clk w (Ttl_op key)) (\<lambda>(r, w').
       case error_reply r of
         Some e \<Rightarrow> Inr (e, w')
       | None \<Rightarrow>
           (case rvalue r of
              Ttl_result n \<Rightarrow> Inr (resp_create_integer_value n, w')
            | _ \<Rightarrow> Inl OutOfBounds)))"

definition EXPIRE_ARGS :: "arg_def list" where
  "EXPIRE_ARGS =
     [COMMAND_ARG ''key'' ARG_TYPE_STRING False None,
      COMMAND_ARG ''seconds'' ARG_TYPE_INTEGER False None,
      COMMAND_ARG_ONE_OF ''condition'' True
        [COMMAND_ARG ''nx'' ARG_TYPE_PURE_TOKEN False (Some ''NX''),
         COMMAND_ARG ''xx'' ARG_TYPE_PURE_TOKEN False (Some ''XX''),
         COMMAND_ARG ''gt'' ARG_TYPE_PURE_TOKEN False (Some ''GT''),
         COMMAND_ARG ''lt'' ARG_TYPE_PURE_TOKEN False (Some ''LT'')]]"

definition resolve_expire_condition :: "command_arg \<Rightarrow> expire_condition res" where
  "resolve_expire_condition condition =
     rbind (as_option (cvalue condition)) (\<lambda>opt.
       let name = dname (cdef condition) in
       if opt = None then Inr EXPIRE_COND_NONE
       else if name = ''nx'' then Inr EXPIRE_COND_NX
       else if name = ''xx'' then Inr EXPIRE_COND_XX
       else if name = ''gt'' then Inr EXPIRE_COND_GT
       else if name = ''lt'' then Inr EXPIRE_COND_LT
       else Inl Unreachable)"

definition process_expire :: handler where
  "process_expire cal ts clk w args =
     rbind (string_arg args 0) (\<lambda>key.
     rbind (int64_arg args 1) (\<lambda>seconds.
     rbind (data_now_ms ts) (\<lambda>now_ms.
     rbind (int64_of (sint seconds * 1000)) (\<lambda>ms.
     rbind (int64_of (sint now_ms + sint ms)) (\<lambda>at.
     rbind (arg_at args 2) (\<lambda>condition.
     rbind (resolve_expire_condition condition) (\<lambda>cond.
     rbind (septic_tank_feed cal clk w (Expire_op
         \<lparr>eo_key = key, eo_expires_at = at, eo_condition = cond\<rparr>)) (\<lambda>(r, w').
       case error_reply r of
         Some e \<Rightarrow> Inr (e, w')
       | None \<Rightarrow>
           (case rvalue r of
              Expire_result n \<Rightarrow> Inr (resp_create_integer_value n, w')
            | _ \<Rightarrow> Inl OutOfBounds)))))))))"

definition incrby_with :: "(nat \<Rightarrow> bool) \<Rightarrow> clock \<Rightarrow> world \<Rightarrow> char list \<Rightarrow> int64 \<Rightarrow> (resp_value \<times> world) res" where
  \<comment> \<open>the common part of INCR, DECR, INCRBY and DECRBY\<close>
  "incrby_with cal clk w key delta =
     rbind (septic_tank_feed cal clk w (Incrby_op \<lparr>io_key = key, io_delta = delta\<rparr>)) (\<lambda>(r, w').
       case error_reply r of
         Some e \<Rightarrow> Inr (e, w')
       | None \<Rightarrow>
           (case rvalue r of
              Incrby_result n \<Rightarrow> Inr (resp_create_integer_value n, w')
            | _ \<Rightarrow> Inl OutOfBounds))"

definition process_incr :: handler where
  "process_incr cal ts clk w args = rbind (string_arg args 0) (\<lambda>key. incrby_with cal clk w key 1)"

definition process_decr :: handler where
  "process_decr cal ts clk w args = rbind (string_arg args 0) (\<lambda>key. incrby_with cal clk w key (- 1))"

definition INCRBY_ARGS :: "arg_def list" where
  "INCRBY_ARGS =
     [COMMAND_ARG ''key'' ARG_TYPE_STRING False None, COMMAND_ARG ''increment'' ARG_TYPE_INTEGER False None]"

definition process_incrby :: handler where
  "process_incrby cal ts clk w args =
     rbind (string_arg args 0) (\<lambda>key. rbind (int64_arg args 1) (\<lambda>increment.
       incrby_with cal clk w key increment))"

definition DECRBY_ARGS :: "arg_def list" where
  "DECRBY_ARGS =
     [COMMAND_ARG ''key'' ARG_TYPE_STRING False None, COMMAND_ARG ''decrement'' ARG_TYPE_INTEGER False None]"

definition process_decrby :: handler where
  "process_decrby cal ts clk w args =
     rbind (string_arg args 0) (\<lambda>key. rbind (int64_arg args 1) (\<lambda>decrement.
     rbind (int64_of (- sint decrement)) (\<lambda>delta. incrby_with cal clk w key delta)))"

definition info_text :: "char list \<Rightarrow> char list" where
  "info_text role = ''# Replication'' @ [LF] @ ''role:'' @ role @ [LF] @ ''connected_slaves:0'' @ [LF] @
     ''master_replid:15'' @ [LF] @ ''master_repl_offset:0''"

definition process_info :: handler where
  \<comment> \<open>the length given for the reply counts the terminator that \<^verbatim>\<open>sprintf\<close> stored\<close>
  "process_info cal ts clk w args =
     (let text = info_text (if has_master w then ''replica'' else ''master''); n = length text
      in Inr (resp_create_bulk_string_value (n + 1) (text @ [NUL]), w))"

section \<open>Dispatch\<close>

record command_definition =
  cname :: "char list"
  cdefs :: "arg_def list"
  processor :: handler

definition PING_COMMAND :: command_definition where
  "PING_COMMAND = \<lparr>cname = ''PING'', cdefs = PING_ARGS, processor = process_ping\<rparr>"

definition SET_COMMAND :: command_definition where
  "SET_COMMAND = \<lparr>cname = ''SET'', cdefs = SET_ARGS, processor = process_set\<rparr>"

definition GET_COMMAND :: command_definition where
  "GET_COMMAND = \<lparr>cname = ''GET'', cdefs = KEY_ARGS, processor = process_get\<rparr>"

definition DEL_COMMAND :: command_definition where
  "DEL_COMMAND = \<lparr>cname = ''DEL'', cdefs = KEY_ARGS, processor = process_del\<rparr>"

definition INFO_COMMAND :: command_definition where
  "INFO_COMMAND = \<lparr>cname = ''INFO'', cdefs = [], processor = process_info\<rparr>"

definition TTL_COMMAND :: command_definition where
  "TTL_COMMAND = \<lparr>cname = ''TTL'', cdefs = KEY_ARGS, processor = process_ttl\<rparr>"

definition EXISTS_COMMAND :: command_definition where
  "EXISTS_COMMAND = \<lparr>cname = ''EXISTS'', cdefs = KEY_ARGS, processor = process_exists\<rparr>"

definition EXPIRE_COMMAND :: command_definition where
  "EXPIRE_COMMAND = \<lparr>cname = ''EXPIRE'', cdefs = EXPIRE_ARGS, processor = process_expire\<rparr>"

definition INCR_COMMAND :: command_definition where
  "INCR_COMMAND = \<lparr>cname = ''INCR'', cdefs = KEY_ARGS, processor = process_incr\<rparr>"

definition DECR_COMMAND :: command_definition where
  "DECR_COMMAND = \<lparr>cname = ''DECR'', cdefs = KEY_ARGS, processor = process_decr\<rparr>"

definition INCRBY_COMMAND :: command_definition where
  "INCRBY_COMMAND = \<lparr>cname = ''INCRBY'', cdefs = INCRBY_ARGS, processor = process_incrby\<rparr>"

definition DECRBY_COMMAND :: command_definition where
  "DECRBY_COMMAND = \<lparr>cname = ''DECRBY'', cdefs = DECRBY_ARGS, processor = process_decrby\<rparr>"

definition COMMANDS :: "command_definition list" where
  "COMMANDS =
     [PING_COMMAND, SET_COMMAND, GET_COMMAND, DEL_COMMAND, INFO_COMMAND, TTL_COMMAND,
      EXISTS_COMMAND, EXPIRE_COMMAND, INCR_COMMAND, DECR_COMMAND, INCRBY_COMMAND, DECRBY_COMMAND]"

lemmas COMMANDS_unfold = COMMANDS_def PING_COMMAND_def SET_COMMAND_def GET_COMMAND_def DEL_COMMAND_def INFO_COMMAND_def TTL_COMMAND_def
  EXISTS_COMMAND_def EXPIRE_COMMAND_def INCR_COMMAND_def DECR_COMMAND_def INCRBY_COMMAND_def DECRBY_COMMAND_def

fun process_command_helper ::
  "command_definition list \<Rightarrow> (nat \<Rightarrow> bool) \<Rightarrow> timespec \<Rightarrow> clock \<Rightarrow> world \<Rightarrow> char list \<Rightarrow> char list list \<Rightarrow>
     (resp_value \<times> world) res" where
  "process_command_helper [] cal ts clk w command words = Inr (resp_create_simple_error_value ''UNKNOWN COMMAND'', w)"
| "process_command_helper (d # ds) cal ts clk w command words =
     (if str_eq_ci command (cname d) then
        (case parse_command_arguments (cdefs d) words of
           Inl (Arg_fault e) \<Rightarrow> Inl e
         | Inl (Arg_return _) \<Rightarrow> Inr (resp_create_simple_error_value ''Invalid command arguments'', w)
         | Inr args \<Rightarrow> processor d cal ts clk w args)
      else process_command_helper ds cal ts clk w command words)"

fun bulk_words :: "resp_value list \<Rightarrow> char list list option" where
  \<comment> \<open>the data of the elements, if all are bulk strings\<close>
  "bulk_words [] = Some []"
| "bulk_words (RESP_bulk_string s # vs) = map_option (\<lambda>ws. s # ws) (bulk_words vs)"
| "bulk_words (_ # vs) = None"

definition is_valid_bulk_string_array_command :: "resp_value list \<Rightarrow> bool" where
  "is_valid_bulk_string_array_command vs \<longleftrightarrow>
     vs \<noteq> [] \<and> list_all (\<lambda>v. case v of RESP_bulk_string _ \<Rightarrow> True | _ \<Rightarrow> False) vs"

definition process_command ::
  "(nat \<Rightarrow> bool) \<Rightarrow> timespec \<Rightarrow> clock \<Rightarrow> world \<Rightarrow> resp_value option \<Rightarrow> (resp_value \<times> world) res" where
  \<comment> \<open>\<open>None\<close> is the zeroed value that a failed parse leaves\<close>
  "process_command cal ts clk w input =
     (case input of
        Some (RESP_array vs) \<Rightarrow>
          if \<not> is_valid_bulk_string_array_command vs then Inl Unimplemented
          else (case bulk_words vs of
              Some (command # words) \<Rightarrow> process_command_helper COMMANDS cal ts clk w command words
            | _ \<Rightarrow> Inl Unimplemented)
      | _ \<Rightarrow> Inl Unimplemented)"

section \<open>Faults of the handlers\<close>

definition overflow_only :: "'a res \<Rightarrow> bool" where
  "overflow_only r \<longleftrightarrow> (\<forall>e. r = Inl e \<longrightarrow> e = SignedOverflow)"

lemma overflow_only_Inr [simp]: "overflow_only (Inr x)"
  by (simp add: overflow_only_def)

lemma overflow_only_bind:
  "overflow_only r \<Longrightarrow> (\<And>x. r = Inr x \<Longrightarrow> overflow_only (f x)) \<Longrightarrow> overflow_only (rbind r f)"
  by (cases r) (auto simp: overflow_only_def)

lemma overflow_only_int64 [simp]: "overflow_only (int64_of x)"
  by (simp add: overflow_only_def int64_of_def)

lemma overflow_only_now [simp]: "overflow_only (data_now_ms ts)"
  unfolding data_now_ms_def by (intro overflow_only_bind) simp_all

fun result_fits :: "operation \<Rightarrow> result_value \<Rightarrow> bool" where
  "result_fits (Set_op _) (Set_result _) = True"
| "result_fits (Get_op _) (Get_result _) = True"
| "result_fits (Del_op _) (Del_result _) = True"
| "result_fits (Ttl_op _) (Ttl_result _) = True"
| "result_fits (Exists_op _) (Exists_result _) = True"
| "result_fits (Expire_op _) (Expire_result _) = True"
| "result_fits (Incrby_op _) (Incrby_result _) = True"
| "result_fits _ _ = False"

lemma spec_fits: "spec ts ts2 s op = (v, er, mu) \<Longrightarrow> result_fits op v"
  by (cases op) (auto simp: spec_set_def spec_ttl_def spec_expire_def spec_incrby_def Let_def
      split: if_splits option.splits)

lemma resolve_fits:
  assumes "clock_ok (clk 0)" and "clock_ok (clk 1)" and "septic_tank_resolve clk m op = Inr (m', r)"
  shows "result_fits op (rvalue r)"
proof (cases "\<exists>k. op = Ttl_op k")
  case True
  then show ?thesis
    using assms(3) by (auto simp: septic_tank_ttl_def blank_result_def Let_def rbind_eq_Inr_iff split: option.splits)
next
  case False
  then have "resolves clk m op (op_key op) (Inr (m', r))"
    using resolve_ok [OF assms(1,2), of op m] assms(3) by simp
  then have "outcome r = spec (clk 0) (clk 1) (visible (ms_of (clk 0)) (hashmap_get m)) op"
    by (simp add: resolves_def del: One_nat_def)
  from spec_fits [OF this [symmetric, unfolded outcome_def]] show ?thesis .
qed

text \<open>Conditions under which a request is served: a well-formed table and documented clock readings.\<close>

definition serving :: "world \<Rightarrow> timespec \<Rightarrow> clock \<Rightarrow> bool" where
  "serving w ts clk \<longleftrightarrow> map_inv (tank_data (wtank w)) \<and> clock_ok ts \<and> clock_ok (clk 0) \<and> clock_ok (clk 1)"

lemma feed_resolves:
  assumes "septic_tank_feed cal clk w op = Inr (r, w')"
  shows "\<exists>m. septic_tank_resolve clk (tank_data (wtank w)) op = Inr (m, r)"
  using assms
  by (auto simp: septic_tank_feed_def septic_tank_digest_def rbind_eq_Inr_iff Let_def split: option.splits)

lemma feed_safe:
  assumes "serving w ts clk"
  shows "overflow_only (septic_tank_feed cal clk w op)"
    and "septic_tank_feed cal clk w op = Inr (r, w') \<Longrightarrow> result_fits op (rvalue r)"
proof -
  have inv: "map_inv (tank_data (wtank w))" "clock_ok (clk 0)" "clock_ok (clk 1)"
    using assms by (auto simp: serving_def)
  obtain m1 r where res: "septic_tank_resolve clk (tank_data (wtank w)) op = Inr (m1, r)"
    using resolve_returns [OF inv(2,3)] by blast
  note ref = resolve_effect [OF inv(2,3) res]
  have inv1: "map_inv m1" using ref(3) evict_ok [OF inv(1)] inv(1) by auto
  have "persisted mu" if "resolved_mutation r = Some mu" for mu
    using ref(2) fits_persisted that by blast
  then have "overflow_only (septic_tank_digest cal clk (wtank w) op True)"
    using apply_faults [OF inv1, of _ cal] unfolding septic_tank_digest_def res
    by (auto simp: overflow_only_def Let_def rbind_eq_Inl_iff split: option.splits if_splits)
  moreover have "reply \<noteq> None" if "septic_tank_digest cal clk (wtank w) op True = Inr (t, reply, fed)" for t reply fed
    using that by (auto simp: septic_tank_digest_def rbind_eq_Inr_iff Let_def)
  ultimately show "overflow_only (septic_tank_feed cal clk w op)"
    unfolding septic_tank_feed_def clone_operation_id
    by (intro overflow_only_bind) (auto split: option.splits)
next
  show "septic_tank_feed cal clk w op = Inr (r, w') \<Longrightarrow> result_fits op (rvalue r)"
    using feed_resolves [of cal clk w op r w'] resolve_fits [of clk] assms by (auto simp: serving_def)
qed

lemma arg_ok_plain:
  "arg_ok (COMMAND_ARG n ty False t) c \<Longrightarrow> ty \<noteq> ARG_TYPE_ONEOF \<Longrightarrow>
     cdef c = COMMAND_ARG n ty False t \<and> type_ok ty (cvalue c)"
  by (erule arg_okE) auto

lemma arg_ok_optional:
  "arg_ok (COMMAND_ARG n ty True t) c \<Longrightarrow> ty \<noteq> ARG_TYPE_ONEOF \<Longrightarrow>
     cvalue c = V_option None \<or> (\<exists>v. cvalue c = V_option (Some v) \<and> type_ok ty v)"
  by (erule arg_okE) auto

lemma arg_ok_choice:
  "arg_ok (COMMAND_ARG_ONE_OF n True ds) c \<Longrightarrow>
     cvalue c = V_option None \<or>
     (\<exists>d\<in>set ds. \<exists>c'. arg_ok d c' \<and> cdef c = cdef c' \<and> cvalue c = V_option (Some (cvalue c')))"
  by (erule arg_okE) auto

lemmas arg_reads = string_arg_def int64_arg_def option_arg_def arg_at_def as_string_def as_int64_def as_option_def

lemma key_args: "list_all2 arg_ok KEY_ARGS args \<Longrightarrow> \<exists>s. string_arg args 0 = Inr s"
  by (auto simp: KEY_ARGS_def list_all2_Cons1 arg_reads dest!: arg_ok_plain)

lemma number_args:
  assumes "list_all2 arg_ok INCRBY_ARGS args \<or> list_all2 arg_ok DECRBY_ARGS args"
  shows "\<exists>s n. string_arg args 0 = Inr s \<and> int64_arg args 1 = Inr n"
  using assms by (auto simp: INCRBY_ARGS_def DECRBY_ARGS_def list_all2_Cons1 arg_reads dest!: arg_ok_plain)

text \<open>A handler that reads a key and answers from the result of one operation.\<close>

lemma feed_then_safe:
  assumes "serving w ts clk"
    and "\<And>r w'. result_fits op (rvalue r) \<Longrightarrow> overflow_only (k r w')"
  shows "overflow_only (rbind (septic_tank_feed cal clk w op) (\<lambda>(r, w'). k r w'))"
  using feed_safe [OF assms(1)] assms(2) by (intro overflow_only_bind) (auto split: prod.splits)

lemma incrby_safe: "serving w ts clk \<Longrightarrow> overflow_only (incrby_with cal clk w key delta)"
  unfolding incrby_with_def
  by (rule feed_then_safe) (auto split: option.splits result_value.splits)

lemma key_handlers_safe:
  assumes "serving w ts clk" and "list_all2 arg_ok KEY_ARGS args"
  shows "overflow_only (process_get cal ts clk w args)" "overflow_only (process_del cal ts clk w args)"
    "overflow_only (process_ttl cal ts clk w args)" "overflow_only (process_exists cal ts clk w args)"
    "overflow_only (process_incr cal ts clk w args)" "overflow_only (process_decr cal ts clk w args)"
proof -
  obtain s where s: "string_arg args 0 = Inr s" using key_args [OF assms(2)] by blast
  show "overflow_only (process_get cal ts clk w args)" "overflow_only (process_del cal ts clk w args)"
    "overflow_only (process_ttl cal ts clk w args)" "overflow_only (process_exists cal ts clk w args)"
    unfolding process_get_def process_del_def process_ttl_def process_exists_def s rbind_Inr
    by (rule feed_then_safe [OF assms(1)], auto split: option.splits result_value.splits)+
  show "overflow_only (process_incr cal ts clk w args)" "overflow_only (process_decr cal ts clk w args)"
    using incrby_safe [OF assms(1)] by (simp_all add: process_incr_def process_decr_def s)
qed

lemma number_handlers_safe:
  assumes "serving w ts clk"
  shows "list_all2 arg_ok INCRBY_ARGS args \<Longrightarrow> overflow_only (process_incrby cal ts clk w args)"
    and "list_all2 arg_ok DECRBY_ARGS args \<Longrightarrow> overflow_only (process_decrby cal ts clk w args)"
  using number_args [of args] incrby_safe [OF assms]
  by (auto simp: process_incrby_def process_decrby_def intro!: overflow_only_bind [OF overflow_only_int64])

lemma ping_safe: "list_all2 arg_ok PING_ARGS args \<Longrightarrow> overflow_only (process_ping cal ts clk w args)"
  by (auto simp: PING_ARGS_def list_all2_Cons1 arg_reads process_ping_def dest!: arg_ok_optional)

lemma choice_names:
  assumes "arg_ok (COMMAND_ARG_ONE_OF n True ds) c" and "cvalue c = V_option (Some v)"
    and "\<forall>d\<in>set ds. \<exists>m ty t. d = COMMAND_ARG m ty False t \<and> ty \<noteq> ARG_TYPE_ONEOF"
  shows "\<exists>d\<in>set ds. cdef c = d \<and> type_ok (dtyp d) v"
proof -
  from arg_ok_choice [OF assms(1)] assms(2) obtain d c' where d: "d \<in> set ds" "arg_ok d c'"
    and c: "cdef c = cdef c'" "v = cvalue c'" by auto
  from assms(3) d(1) obtain m ty t where "d = COMMAND_ARG m ty False t" "ty \<noteq> ARG_TYPE_ONEOF" by blast
  with arg_ok_plain d c show ?thesis by (metis arg_def.sel(2))
qed

lemma choice_cases:
  "arg_ok (COMMAND_ARG_ONE_OF n True ds) c \<Longrightarrow> \<exists>opt. cvalue c = V_option opt"
  using arg_ok_choice by blast

lemma expire_time_safe:
  assumes "arg_ok (SET_ARGS ! 4) c"
  shows "overflow_only (get_expire_time ts c)"
proof -
  note ok = assms [unfolded SET_ARGS_def, simplified]
  obtain opt where opt: "cvalue c = V_option opt" using choice_cases [OF ok] by blast
  show ?thesis
  proof (cases opt)
    case None
    then show ?thesis by (simp add: get_expire_time_def opt as_option_def)
  next
    case (Some v)
    from choice_names [OF ok opt [unfolded Some]] show ?thesis
      by (auto simp: get_expire_time_def opt Some as_option_def as_int64_def intro!: overflow_only_bind)
  qed
qed

lemma set_safe:
  assumes "serving w ts clk" and "list_all2 arg_ok SET_ARGS args"
  shows "overflow_only (process_set cal ts clk w args)"
proof -
  obtain c0 c1 c2 c3 c4 where args: "args = [c0, c1, c2, c3, c4]"
    and ok: "arg_ok (SET_ARGS ! 0) c0" "arg_ok (SET_ARGS ! 1) c1" "arg_ok (SET_ARGS ! 2) c2"
      "arg_ok (SET_ARGS ! 3) c3" "arg_ok (SET_ARGS ! 4) c4"
    using assms(2) by (auto simp: SET_ARGS_def list_all2_Cons1)
  obtain k v where kv: "string_arg args 0 = Inr k" "string_arg args 1 = Inr v"
    using ok(1,2) by (auto simp: SET_ARGS_def args arg_reads dest!: arg_ok_plain)
  obtain co where co: "as_option (cvalue c2) = Inr co" "arg_at args 2 = Inr c2"
    using ok(3) choice_cases by (fastforce simp: SET_ARGS_def args arg_reads)
  obtain g where g: "option_arg args 3 = Inr g"
    using ok(4) by (auto simp: SET_ARGS_def args arg_reads dest!: arg_ok_optional)
  have e: "arg_at args 4 = Inr c4" by (simp add: args arg_at_def)
  have "overflow_only (set_reply b r)" if "result_fits (Set_op op) (rvalue r)" for b r op
    using that by (cases "rvalue r") (auto simp: set_reply_def split: option.splits)
  then show ?thesis
    unfolding process_set_def kv co g e rbind_Inr Let_def
    by (intro overflow_only_bind [OF expire_time_safe [OF ok(5)]] feed_then_safe [OF assms(1)])
      (auto intro: overflow_only_bind)
qed

lemma expire_safe:
  assumes "serving w ts clk" and "list_all2 arg_ok EXPIRE_ARGS args"
  shows "overflow_only (process_expire cal ts clk w args)"
proof -
  obtain c0 c1 c2 where args: "args = [c0, c1, c2]"
    and ok: "arg_ok (EXPIRE_ARGS ! 0) c0" "arg_ok (EXPIRE_ARGS ! 1) c1" "arg_ok (EXPIRE_ARGS ! 2) c2"
    using assms(2) by (auto simp: EXPIRE_ARGS_def list_all2_Cons1)
  obtain k n where kn: "string_arg args 0 = Inr k" "int64_arg args 1 = Inr n"
    using ok(1,2) by (auto simp: EXPIRE_ARGS_def args arg_reads dest!: arg_ok_plain)
  have a: "arg_at args 2 = Inr c2" by (simp add: args arg_at_def)
  note ok3 = ok(3) [unfolded EXPIRE_ARGS_def, simplified]
  obtain opt where opt: "cvalue c2 = V_option opt" using choice_cases [OF ok3] by blast
  have cond: "overflow_only (resolve_expire_condition c2)"
  proof (cases opt)
    case None
    then show ?thesis by (simp add: resolve_expire_condition_def opt as_option_def Let_def)
  next
    case (Some v)
    from choice_names [OF ok3 opt [unfolded Some]] show ?thesis
      by (auto simp: resolve_expire_condition_def opt Some as_option_def Let_def)
  qed
  show ?thesis
    unfolding process_expire_def kn a rbind_Inr
    by (intro overflow_only_bind [OF overflow_only_now] overflow_only_bind [OF overflow_only_int64]
        overflow_only_bind [OF cond] feed_then_safe [OF assms(1)])
      (auto split: option.splits result_value.splits)
qed

lemma commands_safe:
  assumes "serving w ts clk" and "d \<in> set COMMANDS" and "list_all2 arg_ok (cdefs d) args"
  shows "overflow_only (processor d cal ts clk w args)"
  using assms(2,3) key_handlers_safe [OF assms(1)] number_handlers_safe [OF assms(1)] ping_safe
    set_safe [OF assms(1)] expire_safe [OF assms(1)]
  by (auto simp: COMMANDS_unfold process_info_def Let_def)

fun simple_def :: "arg_def \<Rightarrow> bool" where
  \<comment> \<open>a choice has its alternatives, one level deep\<close>
  "simple_def (Arg_def n ty opt t ex) =
     (case ex of None \<Rightarrow> False | Some ds \<Rightarrow> list_all (\<lambda>d. dtyp d \<noteq> ARG_TYPE_ONEOF) ds)"

lemma take_word_stop: "take_word d a conv = Inl (Arg_fault e) \<Longrightarrow> \<exists>s. conv s = Inl (Arg_fault e)"
  by (auto simp: take_word_def rbind_eq_Inl_iff split: option.splits if_splits)

lemma parse_plain_no_fault:
  assumes "dtyp d \<noteq> ARG_TYPE_ONEOF"
  shows "parse_argument d a \<noteq> Inl (Arg_fault e)" "parse_command_argument d a \<noteq> Inl (Arg_fault e)"
proof -
  show p: "parse_argument d a \<noteq> Inl (Arg_fault e)" for a
    using assms by (cases "dtyp d") (auto dest!: take_word_stop split: option.splits)
  show "parse_command_argument d a \<noteq> Inl (Arg_fault e)"
    using p by (auto simp: rbind_eq_Inl_iff Let_def simp del: parse_argument.simps split: option.splits if_splits)
qed

lemma parse_one_of_no_fault:
  "list_all (\<lambda>d. dtyp d \<noteq> ARG_TYPE_ONEOF) ds \<Longrightarrow> parse_one_of ds a \<noteq> Inl (Arg_fault e)"
  using parse_plain_no_fault(2)
  by (induction ds) (auto simp del: parse_command_argument.simps split: sum.splits)

lemma parse_simple_no_fault:
  assumes "simple_def d"
  shows "parse_argument d a \<noteq> Inl (Arg_fault e)" "parse_command_argument d a \<noteq> Inl (Arg_fault e)"
proof -
  obtain ds where ds: "dextra d = Some ds" "list_all (\<lambda>d. dtyp d \<noteq> ARG_TYPE_ONEOF) ds"
    using assms by (cases d) (auto split: option.splits)
  show p: "parse_argument d a \<noteq> Inl (Arg_fault e)" for a
  proof (cases "dtyp d = ARG_TYPE_ONEOF")
    case True
    then show ?thesis
      using parse_one_of_no_fault [OF ds(2), of a e]
      by (auto simp: ds(1) rbind_eq_Inl_iff split: option.splits if_splits)
  qed (rule parse_plain_no_fault)
  show "parse_command_argument d a \<noteq> Inl (Arg_fault e)"
    using p by (auto simp: rbind_eq_Inl_iff Let_def simp del: parse_argument.simps split: option.splits if_splits)
qed

lemma parse_defs_no_fault: "list_all simple_def ds \<Longrightarrow> parse_defs ds a \<noteq> Inl (Arg_fault e)"
  using parse_simple_no_fault(2)
  by (induction ds arbitrary: a) (auto simp: rbind_eq_Inl_iff simp del: parse_command_argument.simps)

lemma commands_simple: "d \<in> set COMMANDS \<Longrightarrow> list_all simple_def (cdefs d)"
  by (auto simp: COMMANDS_unfold PING_ARGS_def SET_ARGS_def KEY_ARGS_def EXPIRE_ARGS_def INCRBY_ARGS_def DECRBY_ARGS_def)

lemma arguments_no_fault: "d \<in> set COMMANDS \<Longrightarrow> parse_command_arguments (cdefs d) words \<noteq> Inl (Arg_fault e)"
  using parse_defs_no_fault [OF commands_simple, of d "iaa_create words" e]
  by (auto simp: parse_command_arguments_def rbind_eq_Inl_iff split: if_splits)

lemma helper_safe:
  assumes "serving w ts clk"
  shows "set ds \<subseteq> set COMMANDS \<Longrightarrow> overflow_only (process_command_helper ds cal ts clk w command words)"
proof (induction ds)
  case (Cons d ds)
  then have d: "d \<in> set COMMANDS" by simp
  show ?case
  proof (cases "parse_command_arguments (cdefs d) words")
    case (Inl e)
    with Cons arguments_no_fault [OF d, of words] show ?thesis
      by (cases e) (auto simp: resp_create_simple_error_value_def)
  next
    case (Inr args)
    then have "list_all2 arg_ok (cdefs d) args"
      by (auto simp: parse_command_arguments_def rbind_eq_Inr_iff split: if_splits intro: parse_defs_typed)
    with Cons Inr commands_safe [OF assms d] show ?thesis by auto
  qed
qed simp

lemma valid_words:
  "is_valid_bulk_string_array_command vs \<Longrightarrow> \<exists>command words. bulk_words vs = Some (command # words)"
proof -
  have "\<exists>ws. bulk_words vs = Some ws \<and> length ws = length vs"
    if "list_all (\<lambda>v. case v of RESP_bulk_string _ \<Rightarrow> True | _ \<Rightarrow> False) vs" for vs
    using that by (induction vs rule: bulk_words.induct) auto
  then show "is_valid_bulk_string_array_command vs \<Longrightarrow> ?thesis"
    unfolding is_valid_bulk_string_array_command_def
    by (metis length_0_conv neq_Nil_conv)
qed

section \<open>Two commands word by word\<close>

lemmas args_eval = iaa_create_def take_word_def iaa_peek_arg_def iaa_peek_arg_index_def iaa_consume_arg_def
  iaa_clone_shrinked_window_at_index_def wrap_optional_def upt_conv_Cons

lemma parse_key_args: "parse_command_arguments KEY_ARGS [k] = Inr [\<lparr>cdef = KEY_ARGS ! 0, cvalue = V_string k\<rparr>]"
  by (simp add: parse_command_arguments_def KEY_ARGS_def args_eval)

lemma parse_set_args:
  "parse_command_arguments SET_ARGS [k, v] = Inr
     [\<lparr>cdef = SET_ARGS ! 0, cvalue = V_string k\<rparr>, \<lparr>cdef = SET_ARGS ! 1, cvalue = V_string v\<rparr>,
      \<lparr>cdef = SET_ARGS ! 2, cvalue = V_option None\<rparr>, \<lparr>cdef = SET_ARGS ! 3, cvalue = V_option None\<rparr>,
      \<lparr>cdef = SET_ARGS ! 4, cvalue = V_option None\<rparr>]"
  by (simp add: parse_command_arguments_def SET_ARGS_def args_eval)

definition plain_set :: "char list \<Rightarrow> char list \<Rightarrow> operation" where
  "plain_set k v = Set_op \<lparr>so_key = k, so_value = v, so_nx = False, so_xx = False, so_get = False,
     so_expiration = \<lparr>etype = ST_EXPIRATION_NO_EXPIRE, ets = 0\<rparr>\<rparr>"

lemma set_request:
  "process_command cal ts clk w (Some (RESP_array [RESP_bulk_string ''SET'', RESP_bulk_string k, RESP_bulk_string v])) =
     rbind (septic_tank_feed cal clk w (plain_set k v)) (\<lambda>(r, w'). rbind (set_reply False r) (\<lambda>reply. Inr (reply, w')))"
  by (simp add: process_command_def is_valid_bulk_string_array_command_def COMMANDS_unfold str_eq_ci_iff
      ascii_lower_def parse_set_args process_set_def arg_reads get_expire_time_def plain_set_def)

lemma get_request:
  "process_command cal ts clk w (Some (RESP_array [RESP_bulk_string ''GET'', RESP_bulk_string k])) =
     process_get cal ts clk w [\<lparr>cdef = KEY_ARGS ! 0, cvalue = V_string k\<rparr>]"
  by (simp add: process_command_def is_valid_bulk_string_array_command_def COMMANDS_unfold str_eq_ci_iff
      ascii_lower_def parse_key_args)

text \<open>What one operation does to the visible keys when it is sent through a handler.\<close>

lemma feed_spec:
  assumes "serving w ts clk" and "\<forall>n. cal n" and "\<forall>k. op \<noteq> Ttl_op k"
    and "chain_ok (tank_data (wtank w)) (op_key op)"
    and "septic_tank_feed cal clk w op = Inr (r, w')" and "ms_of (clk 0) \<le> t"
    and "spec (clk 0) (clk 1) (visible (ms_of (clk 0)) (hashmap_get (tank_data (wtank w)))) op = (v, er, mu)"
  shows "map_inv (tank_data (wtank w')) \<and> rvalue r = v \<and> error r = er \<and> success r = (er = None) \<and>
    resolved_mutation r = mu \<and>
    visible t (hashmap_get (tank_data (wtank w'))) =
      visible t (spec_step mu (visible (ms_of (clk 0)) (hashmap_get (tank_data (wtank w)))))"
proof -
  have inv: "map_inv (tank_data (wtank w))" "clock_ok (clk 0)" "clock_ok (clk 1)"
    using assms(1) by (auto simp: serving_def)
  from assms(5) obtain tank fed where dig: "septic_tank_digest cal clk (wtank w) op True = Inr (tank, Some r, fed)"
    and w': "wtank w' = tank"
    by (auto simp: septic_tank_feed_def rbind_eq_Inr_iff split: option.splits)
  from digest_spec [OF inv(1) assms(2) inv(2,3) _ assms(4) dig] assms(3,6,7) w' show ?thesis
    by (auto simp: outcome_def)
qed

lemma get_reads:
  assumes "clock_ok (clk 0)" and "visible (ms_of (clk 0)) (hashmap_get (tank_data (wtank w))) k = Some (string_entry (- 1) v)"
  shows "\<exists>w'. process_command cal ts clk w (Some (RESP_array [RESP_bulk_string ''GET'', RESP_bulk_string k])) =
    Inr (RESP_bulk_string v, w')"
proof -
  obtain m where "septic_tank_get clk (tank_data (wtank w)) k =
      Inr (m, (blank_result SEPTIC_TANK_GET Unset_result)\<lparr>rvalue := Get_result (Some v)\<rparr>)"
    using assms
    by (auto simp: septic_tank_get_def data_is_expired_ok visible_apply string_entry_def Let_def split: option.splits if_splits)
  then show ?thesis
    by (simp add: get_request process_get_def arg_reads septic_tank_feed_def septic_tank_digest_def
        blank_result_def Let_def resp_create_bulk_string_value_def)
qed

section \<open>Properties\<close>

text \<open>
  C13: a well-formed request is answered unless the arithmetic of its numbers overflows. On a well-formed store and with
  documented clock readings, a non-empty array of bulk strings, whatever its words, gets a reply or runs into signed
  overflow (undefined behaviour), which happens in the arithmetic on expiries and decrements, for example
  \<^verbatim>\<open>SET k v EX 9223372036854775807\<close>, and in the doubling of the table size; no handler reads an
  argument at a wrong type, follows a null pointer or reaches an unreachable case.
\<close>

theorem request_is_answered:
  assumes "serving w ts clk" and "is_valid_bulk_string_array_command vs"
  shows "process_command cal ts clk w (Some (RESP_array vs)) = Inl SignedOverflow \<or>
    (\<exists>reply w'. process_command cal ts clk w (Some (RESP_array vs)) = Inr (reply, w'))"
proof -
  obtain command words where "bulk_words vs = Some (command # words)"
    using valid_words [OF assms(2)] by blast
  with assms(2) helper_safe [OF assms(1), of COMMANDS cal command words] show ?thesis
    by (cases "process_command_helper COMMANDS cal ts clk w command words")
      (auto simp: process_command_def overflow_only_def)
qed

theorem request_is_answered_witness:
  "\<exists>reply w'. process_command (\<lambda>_. True) \<lparr>tv_sec = 5, tv_nsec = 0\<rparr> (at_second 5)
      \<lparr>wtank = septic_tank_create, wlog = [], has_master = False\<rparr>
      (Some (RESP_array [RESP_bulk_string ''SET'', RESP_bulk_string ''c'', RESP_bulk_string [NUL]])) = Inr (reply, w')"
proof -
  let ?w = "\<lparr>wtank = septic_tank_create, wlog = [], has_master = False\<rparr>" and ?ts = "\<lparr>tv_sec = 5, tv_nsec = 0\<rparr>"
  let ?vs = "[RESP_bulk_string ''SET'', RESP_bulk_string ''c'', RESP_bulk_string [NUL]]"
  have tk: "hashmap_get (tank_data septic_tank_create) ''c'' = None"
      "hashmap_hash (tank_data septic_tank_create) ''c'' = Some 64" and clk: "clock_ok (at_second 5 0)"
    using get_new hash_new_c by (simp_all add: septic_tank_create_def clock_ok_def)
  have "process_command (\<lambda>_. True) ?ts (at_second 5) ?w (Some (RESP_array ?vs)) \<noteq> Inl SignedOverflow"
    using set_absent(2) [OF clk tk, where ex = "\<lparr>etype = ST_EXPIRATION_NO_EXPIRE, ets = 0\<rparr>" and v = "[NUL]"
        and b = True and cal = "\<lambda>_. True"]
    by (auto simp: set_request septic_tank_feed_def plain_set_def set_reply_def error_reply_def blank_result_def)
  moreover have "serving ?w ?ts (at_second 5)" "is_valid_bulk_string_array_command ?vs"
    by (simp_all add: serving_def clock_ok_def septic_tank_create_def map_inv_new is_valid_bulk_string_array_command_def)
  ultimately show ?thesis using request_is_answered by blast
qed

text \<open>
  C26: every other input ends the process: a value that is not an array, an empty array, an array
  with an element that is not a bulk string, and input that did not parse.
\<close>

theorem other_input_exits:
  assumes "serving w ts clk"
  shows "process_command cal ts clk w input = Inl Unimplemented \<longleftrightarrow>
    \<not> (\<exists>vs. input = Some (RESP_array vs) \<and> is_valid_bulk_string_array_command vs)"
proof (cases "\<exists>vs. input = Some (RESP_array vs) \<and> is_valid_bulk_string_array_command vs")
  case True
  then obtain vs where vs: "input = Some (RESP_array vs)" "is_valid_bulk_string_array_command vs" by blast
  obtain command words where "bulk_words vs = Some (command # words)"
    using valid_words [OF vs(2)] by blast
  with vs helper_safe [OF assms, of COMMANDS cal command words] show ?thesis
    by (auto simp: process_command_def overflow_only_def)
next
  case False
  then have "process_command cal ts clk w input = Inl Unimplemented"
    by (auto simp: process_command_def split: option.splits resp_value.splits)
  with False show ?thesis by blast
qed

theorem other_input_exits_witness:
  "process_command (\<lambda>_. True) \<lparr>tv_sec = 5, tv_nsec = 0\<rparr> (at_second 5)
      \<lparr>wtank = septic_tank_create, wlog = [], has_master = False\<rparr> (Some (RESP_array [])) = Inl Unimplemented"
proof -
  let ?w = "\<lparr>wtank = septic_tank_create, wlog = [], has_master = False\<rparr>"
  have "serving ?w \<lparr>tv_sec = 5, tv_nsec = 0\<rparr> (at_second 5)"
    by (simp add: serving_def clock_ok_def septic_tank_create_def map_inv_new)
  from other_input_exits [OF this, of "\<lambda>_. True" "Some (RESP_array [])"] show ?thesis
    by (simp add: is_valid_bulk_string_array_command_def)
qed

text \<open>
  C17: what was set is read. On a well-formed store whose probe chain of the key is unbroken (\<open>chain_ok\<close>, which
  holds of every key that is absent and fails only after the removal of a colliding key), and as long as \<^verbatim>\<open>calloc\<close> does not
  fail, a plain SET of any key and value, without options, that completes is answered \<^verbatim>\<open>OK\<close>, and a GET of the key
  that comes next, at the same time or later, is answered with exactly the bytes of the value.
\<close>

theorem set_then_get:
  assumes "serving w ts clk" and "\<forall>n. cal n" and "chain_ok (tank_data (wtank w)) k"
    and "process_command cal ts clk w
      (Some (RESP_array [RESP_bulk_string ''SET'', RESP_bulk_string k, RESP_bulk_string v])) = Inr (reply, w')"
    and "clock_ok (clk' 0)" and "clock_ok (clk' 1)" and "ms_of (clk 0) \<le> ms_of (clk' 0)"
  shows "reply = RESP_simple_string ''OK'' \<and>
    (\<exists>w''. process_command cal ts clk' w' (Some (RESP_array [RESP_bulk_string ''GET'', RESP_bulk_string k])) =
       Inr (RESP_bulk_string v, w''))"
proof -
  let ?s = "visible (ms_of (clk 0)) (hashmap_get (tank_data (wtank w)))" and ?t = "ms_of (clk' 0)"
  let ?mu = "Set_mutation k v (- 1)"
  have sp: "spec (clk 0) (clk 1) ?s (plain_set k v) = (Set_result None, None, Some ?mu)"
    by (simp add: plain_set_def spec_set_def set_expires_at_def expiry_field_def)
  from assms(4) obtain r where feed: "septic_tank_feed cal clk w (plain_set k v) = Inr (r, w')"
    and rep: "set_reply False r = Inr reply"
    by (auto simp: set_request rbind_eq_Inr_iff)
  have key: "chain_ok (tank_data (wtank w)) (op_key (plain_set k v))" "\<forall>x. plain_set k v \<noteq> Ttl_op x"
    using assms(3) by (simp_all add: plain_set_def)
  note fs = feed_spec [OF assms(1,2) key(2,1) feed assms(7) sp]
  have "reply = RESP_simple_string ''OK''"
    using rep fs by (simp add: set_reply_def error_reply_def resp_create_simple_string_value_def)
  moreover have "visible ?t (hashmap_get (tank_data (wtank w'))) k = Some (string_entry (- 1) v)"
    using fs by (simp add: spec_step_def visible_apply expired_at_def string_entry_def)
  ultimately show ?thesis using get_reads [of clk' w' k v] assms(5) by blast
qed

theorem set_then_get_witness:
  "\<exists>reply w' w''. process_command (\<lambda>_. True) \<lparr>tv_sec = 5, tv_nsec = 0\<rparr> (at_second 5)
      \<lparr>wtank = septic_tank_create, wlog = [], has_master = False\<rparr>
      (Some (RESP_array [RESP_bulk_string ''SET'', RESP_bulk_string ''c'', RESP_bulk_string [NUL, LF]])) = Inr (reply, w') \<and>
    reply = RESP_simple_string ''OK'' \<and>
    process_command (\<lambda>_. True) \<lparr>tv_sec = 5, tv_nsec = 0\<rparr> (at_second 7) w'
      (Some (RESP_array [RESP_bulk_string ''GET'', RESP_bulk_string ''c''])) = Inr (RESP_bulk_string [NUL, LF], w'')"
proof -
  let ?w = "\<lparr>wtank = septic_tank_create, wlog = [], has_master = False\<rparr>"
  let ?ts = "\<lparr>tv_sec = 5, tv_nsec = 0\<rparr>"
  have sv: "serving ?w ?ts (at_second 5)"
    by (simp add: serving_def clock_ok_def septic_tank_create_def map_inv_new)
  have clk: "clock_ok (at_second 5 0)" "clock_ok (at_second 7 0)" "clock_ok (at_second 7 1)"
      "ms_of (at_second 5 0) \<le> ms_of (at_second 7 0)"
    by (simp_all add: clock_ok_def ms_of_def)
  have tk: "hashmap_get (tank_data septic_tank_create) ''c'' = None"
      "hashmap_hash (tank_data septic_tank_create) ''c'' = Some 64"
    using get_new hash_new_c by (simp_all add: septic_tank_create_def)
  have ch: "chain_ok (tank_data (wtank ?w)) ''c''" using chain_ok_absent [OF tk(1)] by simp
  obtain reply w' where p: "process_command (\<lambda>_. True) ?ts (at_second 5) ?w
      (Some (RESP_array [RESP_bulk_string ''SET'', RESP_bulk_string ''c'', RESP_bulk_string [NUL, LF]])) = Inr (reply, w')"
    using set_absent(2) [OF clk(1) tk, where ex = "\<lparr>etype = ST_EXPIRATION_NO_EXPIRE, ets = 0\<rparr>" and v = "[NUL, LF]"
        and b = True and cal = "\<lambda>_. True"]
    by (simp add: set_request septic_tank_feed_def plain_set_def set_reply_def error_reply_def blank_result_def)
  with set_then_get [OF sv _ ch p clk(2,3,4)] show ?thesis by blast
qed

end
