(* ===== verification/Separate_Keys.thy ===== *)
theory Separate_Keys
  imports Septic_Tank_Correct
begin

text \<open>
  A condition on the keys alone under which the store never meets the broken probe chains of the hash map:
  fewer than 128 keys whose home slots in the initial table are pairwise distinct. Then every element
  stays in its home slot, the table is never rehashed, and no operation can fail. The section on runs
  lifts this to the actor: the conditions \<^const>\<open>run_safe\<close> and \<^const>\<open>replay_safe\<close> hold, and
  both the run and its replay return.
\<close>

section \<open>Tables with every element at home\<close>

definition separate :: "char list set \<Rightarrow> bool" where
  "separate K \<longleftrightarrow> finite K \<and> card K < 128 \<and> inj_on (hashmap_hash_int INITIAL_SIZE) K"

definition at_home :: "char list set \<Rightarrow> 'v hashmap_map \<Rightarrow> bool" where
  "at_home K m \<longleftrightarrow>
     map_inv m \<and> table_size m = INITIAL_SIZE \<and>
     (\<forall>i<INITIAL_SIZE. \<forall>e. mdata m ! i = Some e \<longrightarrow> ekey e \<in> K \<and> i = hashmap_hash_int INITIAL_SIZE (ekey e))"

lemma at_homeD:
  "at_home K m \<Longrightarrow> i < INITIAL_SIZE \<Longrightarrow> mdata m ! i = Some e \<Longrightarrow>
     ekey e \<in> K \<and> i = hashmap_hash_int INITIAL_SIZE (ekey e)"
  by (simp add: at_home_def)

lemma at_home_length: "at_home K m \<Longrightarrow> length (mdata m) = INITIAL_SIZE"
  by (simp add: at_home_def map_inv_def)

lemma nth_updateD: "xs[c := v] ! i = Some e \<Longrightarrow> i < length xs \<Longrightarrow> i = c \<and> v = Some e \<or> i \<noteq> c \<and> xs ! i = Some e"
  by (cases "i = c") auto

lemma at_home_inv: "at_home K m \<Longrightarrow> map_inv m"
  by (simp add: at_home_def)

lemma at_home_new: "at_home K hashmap_new"
  using map_inv_new by (simp add: at_home_def hashmap_new_def)

lemma at_home_size: "at_home K m \<Longrightarrow> separate K \<Longrightarrow> msize m < 128"
proof -
  assume h: "at_home K m" and K: "separate K"
  let ?key = "\<lambda>i. ekey (the (mdata m ! i))"
  have key: "?key i \<in> K \<and> i = hashmap_hash_int INITIAL_SIZE (?key i)" if "i \<in> occupied m" for i
    using that h at_homeD [OF h, of i] by (auto simp: occupied_def at_home_def [of K m])
  have "inj_on ?key (occupied m)"
    by (rule inj_on_inverseI [of _ "hashmap_hash_int INITIAL_SIZE"]) (metis key)
  moreover have "?key ` occupied m \<subseteq> K"
    using key by blast
  ultimately have "card (occupied m) \<le> card K"
    using K by (intro card_inj_on_le) (simp_all add: separate_def)
  with h K show ?thesis by (simp add: at_home_def map_inv_def separate_def)
qed

lemma at_home_slot:
  assumes "at_home K m" and "separate K" and "k \<in> K"
  shows "mdata m ! home m k = None \<or> slot_has_key (mdata m ! home m k) k"
proof (cases "mdata m ! home m k")
  case (Some e)
  have "home m k < INITIAL_SIZE" "home m k = hashmap_hash_int INITIAL_SIZE k"
    using assms(1) home_less [of m k] by (auto simp: at_home_def home_def)
  then have "ekey e \<in> K" "hashmap_hash_int INITIAL_SIZE k = hashmap_hash_int INITIAL_SIZE (ekey e)"
    using at_homeD [OF assms(1) _ Some] by auto
  then have "ekey e = k"
    using assms(2,3) by (auto simp: separate_def dest: inj_onD)
  with Some show ?thesis by (simp add: slot_has_key_def)
qed simp

lemma at_home_probe:
  assumes "at_home K m" and "separate K" and "k \<in> K"
  shows "hashmap_hash m k = Some (home m k)" and "chain_ok m k"
proof -
  note slot = at_home_slot [OF assms]
  have p: "probe_free (mdata m) (table_size m) k (home m k) MAX_CHAIN_LENGTH = Some (home m k)"
    by (subst probe_free_numeral) (use slot in auto)
  then show "hashmap_hash m k = Some (home m k)"
    using at_home_size [OF assms(1,2)] assms(1)
    by (simp add: hashmap_hash_def at_home_def home_def)
  have "hashmap_get m k = None" if free: "mdata m ! home m k = None"
  proof (rule ccontr)
    assume "hashmap_get m k \<noteq> None"
    then obtain v i where i: "i < table_size m" "mdata m ! i = Some \<lparr>ekey = k, edata = v\<rparr>"
      using get_Some_iff [OF at_home_inv [OF assms(1)], of k] by auto
    have sz: "table_size m = INITIAL_SIZE" using assms(1) by (simp add: at_home_def)
    have "i = home m k" using at_homeD [OF assms(1) _ i(2)] i(1) sz by (simp add: home_def)
    with i free show False by simp
  qed
  with p show "chain_ok m k" by (simp add: chain_ok_def)
qed

lemma at_home_put:
  assumes "at_home K m" and "separate K" and "k \<in> K"
  shows "\<exists>m'. hashmap_put cal m k v = Inr (MAP_OK, m') \<and> at_home K m'"
proof -
  let ?m = "hashmap_store m (home m k) k v"
  note probe = at_home_probe [OF assms]
  have "map_inv ?m" by (rule store_ok [OF at_home_inv [OF assms(1)] probe])
  moreover have "ekey e \<in> K \<and> i = hashmap_hash_int INITIAL_SIZE (ekey e)"
    if "i < INITIAL_SIZE" "mdata ?m ! i = Some e" for i e
    using nth_updateD [of "mdata m" "home m k" "Some \<lparr>ekey = k, edata = v\<rparr>" i e] that assms(3)
      at_homeD [OF assms(1) that(1)] at_home_length [OF assms(1)] assms(1)
    by (auto simp: hashmap_store_def at_home_def home_def)
  ultimately have "at_home K ?m"
    using assms(1) by (simp add: at_home_def hashmap_store_def)
  with hashmap_put_direct [OF probe(1)] show ?thesis by blast
qed

lemma at_home_remove:
  assumes "at_home K m"
  shows "at_home K (snd (hashmap_remove m k))"
proof -
  have "map_inv (snd (hashmap_remove m k))"
    using remove_ok(1) [OF at_home_inv [OF assms]] by (cases "hashmap_remove m k") auto
  moreover have "table_size (snd (hashmap_remove m k)) = INITIAL_SIZE"
    using assms by (auto simp: at_home_def hashmap_remove_def split: option.splits)
  moreover have "mdata m ! i = Some e" if "i < INITIAL_SIZE" "mdata (snd (hashmap_remove m k)) ! i = Some e" for i e
    using that at_home_length [OF assms]
    by (auto simp: hashmap_remove_def split: option.splits dest: nth_updateD)
  ultimately show ?thesis
    using at_homeD [OF assms] by (simp add: at_home_def)
qed

lemma at_home_update:
  assumes "at_home K m"
  shows "at_home K (hashmap_update m k f)"
proof -
  have "map_inv (hashmap_update m k f)" by (rule update_ok(1) [OF at_home_inv [OF assms]])
  moreover have "table_size (hashmap_update m k f) = INITIAL_SIZE"
    using assms by (auto simp: at_home_def hashmap_update_def split: option.splits)
  moreover have "\<exists>e'. mdata m ! i = Some e' \<and> ekey e' = ekey e"
    if "i < INITIAL_SIZE" "mdata (hashmap_update m k f) ! i = Some e" for i e
    using that at_home_length [OF assms]
    by (auto simp: hashmap_update_def split: option.splits dest!: nth_updateD)
  ultimately show ?thesis
    using at_homeD [OF assms] by (simp add: at_home_def) metis
qed

section \<open>Runs of the actor\<close>

lemma at_home_evict: "at_home K m \<Longrightarrow> at_home K (evict m k)"
  unfolding evict_def by (rule at_home_remove)

lemma at_home_apply:
  assumes "at_home K m" and "separate K" and "mutation_key mu \<in> K" and "persisted mu"
  shows "\<exists>m'. septic_tank_apply_mutation cal m mu = Inr m' \<and> at_home K m'"
proof (cases mu)
  case (Set_mutation k v at)
  then show ?thesis
    using at_home_put [OF assms(1,2), of k cal "data_create_string_entry (if at = - 1 then None else Some at) v"] assms(3)
    by (auto simp: septic_tank_apply_set_def Let_def)
next
  case (Del_mutation k)
  then show ?thesis using at_home_remove [OF assms(1)] by (simp add: septic_tank_apply_del_def)
next
  case (Expire_mutation k at)
  then show ?thesis
    using assms(1) at_home_update [OF assms(1)] by (auto simp: septic_tank_apply_expire_def split: option.splits)
next
  case (Other_mutation x)
  with assms(4) show ?thesis by (simp add: persisted_def)
qed

lemma at_home_digest:
  assumes "at_home K (tank_data tank)" and "separate K" and "op_key op \<in> K"
    and "clock_ok (clk 0)" and "clock_ok (clk 1)"
  shows "\<exists>tank' reply fed. septic_tank_digest cal clk tank op clogged = Inr (tank', reply, fed) \<and>
    at_home K (tank_data tank') \<and> aof_enabled tank' = aof_enabled tank \<and>
    (\<forall>mu. fed = Some mu \<longrightarrow> persisted mu \<and> mutation_key mu = op_key op)"
proof -
  obtain m1 r where res: "septic_tank_resolve clk (tank_data tank) op = Inr (m1, r)"
    using resolve_returns [OF assms(4,5)] by blast
  note eff = resolve_effect [OF assms(4,5) res]
  have m1: "at_home K m1" using eff(3) assms(1) at_home_evict by auto
  have mu: "persisted mu \<and> mutation_key mu = op_key op" if "resolved_mutation r = Some mu" for mu
    using eff(2) [OF that] fits_persisted by blast
  show ?thesis
  proof (cases "resolved_mutation r")
    case None
    with m1 show ?thesis by (simp add: septic_tank_digest_def res)
  next
    case (Some x)
    with mu [OF Some] at_home_apply [OF m1 assms(2), of x cal] assms(3) m1 show ?thesis
      by (cases "success r") (auto simp: septic_tank_digest_def res Let_def)
  qed
qed

lemma separate_run:
  assumes "separate K"
  shows "at_home K (tank_data tank) \<Longrightarrow> clocks_ok t msgs \<Longrightarrow> \<forall>(op, clk) \<in> set msgs. op_key op \<in> K \<Longrightarrow>
    run_safe cal tank msgs \<and>
    (\<exists>tank' mus. septic_tank_pump cal tank msgs = Inr (tank', mus) \<and> at_home K (tank_data tank') \<and>
       aof_enabled tank' = aof_enabled tank \<and> length mus \<le> length msgs \<and>
       (\<forall>mu \<in> set mus. persisted mu \<and> mutation_key mu \<in> K))"
proof (induction msgs arbitrary: tank t)
  case (Cons msg msgs)
  obtain op clk where msg: "msg = (op, clk)" by (cases msg)
  have k: "op_key op \<in> K" and clk: "clock_ok (clk 0)" "clock_ok (clk 1)" and rest: "clocks_ok (ms_of (clk 0)) msgs"
    and ks: "\<forall>(op, clk) \<in> set msgs. op_key op \<in> K"
    using Cons.prems by (auto simp: msg)
  obtain tank1 reply fed where d: "septic_tank_digest cal clk tank op True = Inr (tank1, reply, fed)"
    and h: "at_home K (tank_data tank1)" "aof_enabled tank1 = aof_enabled tank"
    and mu: "\<forall>mu. fed = Some mu \<longrightarrow> persisted mu \<and> mutation_key mu = op_key op"
    using at_home_digest [OF Cons.prems(1) assms k clk] by blast
  from Cons.IH [OF h(1) rest ks] show ?case
    using d h(2) mu k at_home_probe(2) [OF Cons.prems(1) assms k]
    by (cases fed) (auto simp: msg)
qed simp

lemma separate_replay:
  assumes "separate K"
  shows "at_home K m \<Longrightarrow> \<forall>mu \<in> set mus. persisted mu \<and> mutation_key mu \<in> K \<Longrightarrow>
    replay_safe cal m mus \<and> (\<exists>m'. replay_mutations cal m mus = Inr m' \<and> at_home K m')"
proof (induction mus arbitrary: m)
  case (Cons mu mus)
  then obtain m1 where m1: "septic_tank_apply_mutation cal m mu = Inr m1" "at_home K m1"
    using at_home_apply [OF Cons.prems(1) assms, of mu cal] by auto
  have "set_key_safe m mu"
    using Cons.prems at_home_probe(2) [OF Cons.prems(1) assms] by (cases mu) auto
  with Cons.IH [OF m1(2)] Cons.prems(2) m1(1) show ?case
    by (simp add: septic_tank_replay_mutation_def)
qed simp

section \<open>Keys that collide\<close>

text \<open>
  Without the condition a restart can lose the store. The keys \<^verbatim>\<open>c\<close> and \<^verbatim>\<open>k\<close> share a home slot. After an eviction of \<^verbatim>\<open>c\<close>,
  which is not logged, the live table has \<^verbatim>\<open>k\<close> twice and the replayed one once; a deletion leaves the old value in the one and
  nothing in the other.
\<close>

abbreviation set_at :: "char list \<Rightarrow> char list \<Rightarrow> int64 \<Rightarrow> operation" where
  "set_at k v at \<equiv> Set_op \<lparr>so_key = k, so_value = v, so_nx = False, so_xx = False, so_get = False,
     so_expiration = \<lparr>etype = (if at = - 1 then ST_EXPIRATION_NO_EXPIRE else ST_EXPIRATION_UNIX_TS), ets = at\<rparr>\<rparr>"

definition collision_run :: "(operation \<times> clock) list" where
  "collision_run =
     [(set_at ''c'' ''v'' 2000, at_second 1), (set_at ''k'' ''old'' (- 1), at_second 1), (Get_op ''c'', at_second 3),
      (set_at ''k'' ''new'' (- 1), at_second 3), (Del_op ''k'', at_second 3)]"

definition collision_log :: "mutation list" where
  "collision_log = [Set_mutation ''c'' ''v'' 2000, Set_mutation ''k'' ''old'' (- 1), Set_mutation ''k'' ''new'' (- 1), Del_mutation ''k'']"

lemma set_at_digest:
  assumes "clock_ok (clk 0)" and "hashmap_hash m k = Some i"
    and "\<forall>e. hashmap_get m k = Some e \<longrightarrow> dtype e = DATA_STRING \<and> \<not> expired_at (ms_of (clk 0)) e"
  shows "\<exists>reply. septic_tank_digest cal clk \<lparr>tank_data = m, aof_enabled = True\<rparr> (set_at k v at) True =
    Inr (\<lparr>tank_data = hashmap_store m i k (string_entry at v), aof_enabled = True\<rparr>, reply, Some (Set_mutation k v at))"
proof -
  have "data_create_string_entry (if at = ST_MUTATION_NO_EXPIRY then None else Some at) v = string_entry at v"
    by (simp add: data_create_string_entry_def string_entry_def)
  with assms hashmap_put_direct [OF assms(2), of cal "string_entry at v"] show ?thesis
    by (cases "hashmap_get m k")
      (auto simp: septic_tank_digest_def septic_tank_resolve_set_def Let_def entry_is_expired_def data_is_expired_ok
        septic_tank_apply_set_def expiry_field_def set_expires_at_def blank_result_def)
qed

lemma colliding_keys_diverge:
  "\<exists>tank m. septic_tank_pump cal septic_tank_create collision_run = Inr (tank, collision_log) \<and>
     replay_mutations cal hashmap_new collision_log = Inr m \<and>
     hashmap_get (tank_data tank) ''k'' = Some (string_entry (- 1) ''old'') \<and> hashmap_get m ''k'' = None"
proof -
  let ?tank = "\<lambda>m. \<lparr>tank_data = m, aof_enabled = True\<rparr> :: septic_tank"
  define m1 where "m1 = hashmap_store hashmap_new 64 ''c'' (string_entry 2000 ''v'')"
  define m2 where "m2 = hashmap_store m1 65 ''k'' (string_entry (- 1) ''old'')"
  define m3 where "m3 = evict m2 ''c''"
  define m4 where "m4 = hashmap_store m3 64 ''k'' (string_entry (- 1) ''new'')"
  define m5 where "m5 = snd (hashmap_remove m4 ''k'')"
  define n3 where "n3 = hashmap_store m2 65 ''k'' (string_entry (- 1) ''new'')"
  define n4 where "n4 = snd (hashmap_remove n3 ''k'')"
  have clk: "clock_ok (at_second 1 0)" "clock_ok (at_second 3 0)" by (simp_all add: clock_ok_def)
  note maps = m1_def m2_def m3_def m4_def n3_def evict_def probe_eval
  have hash: "hashmap_hash (hashmap_new :: store) ''c'' = Some 64" "hashmap_hash m1 ''k'' = Some 65"
    "hashmap_hash m3 ''k'' = Some 64" "hashmap_hash m2 ''k'' = Some 65"
    by (simp_all add: maps)
  have get: "hashmap_get (hashmap_new :: store) ''c'' = None" "hashmap_get m1 ''k'' = None"
    "hashmap_get m2 ''c'' = Some (string_entry 2000 ''v'')" "hashmap_get m3 ''k'' = Some (string_entry (- 1) ''old'')"
    "hashmap_get m4 ''k'' = Some (string_entry (- 1) ''new'')"
    "hashmap_get m5 ''k'' = Some (string_entry (- 1) ''old'')" "hashmap_get n4 ''k'' = None"
    by (simp_all add: maps m5_def n4_def)
  obtain r1 where 1: "septic_tank_digest cal (at_second 1) (?tank hashmap_new) (set_at ''c'' ''v'' 2000) True =
      Inr (?tank m1, r1, Some (Set_mutation ''c'' ''v'' 2000))"
    using set_at_digest [OF clk(1) hash(1), of cal "''v''" 2000] get(1) by (auto simp: m1_def)
  obtain r2 where 2: "septic_tank_digest cal (at_second 1) (?tank m1) (set_at ''k'' ''old'' (- 1)) True =
      Inr (?tank m2, r2, Some (Set_mutation ''k'' ''old'' (- 1)))"
    using set_at_digest [OF clk(1) hash(2), of cal "''old''" "- 1"] get(2) by (auto simp: m2_def)
  have "expired_at (ms_of (at_second 3 0)) (string_entry 2000 ''v'')"
    by (simp add: expired_at_def string_entry_def ms_of_def)
  then obtain r3 where 3: "septic_tank_digest cal (at_second 3) (?tank m2) (Get_op ''c'') True = Inr (?tank m3, r3, None)"
    by (simp add: septic_tank_digest_def septic_tank_get_def get(3) data_is_expired_ok [OF clk(2)] m3_def blank_result_def)
  obtain r4 where 4: "septic_tank_digest cal (at_second 3) (?tank m3) (set_at ''k'' ''new'' (- 1)) True =
      Inr (?tank m4, r4, Some (Set_mutation ''k'' ''new'' (- 1)))"
    using set_at_digest [OF clk(2) hash(3), of cal "''new''" "- 1"] get(4)
    by (auto simp: m4_def expired_at_def string_entry_def)
  obtain r5 where 5: "septic_tank_digest cal (at_second 3) (?tank m4) (Del_op ''k'') True =
      Inr (?tank m5, r5, Some (Del_mutation ''k''))"
    by (simp add: septic_tank_digest_def septic_tank_resolve_del_def get(5) data_is_expired_ok [OF clk(2)] m5_def
        blank_result_def expired_at_def string_entry_def septic_tank_apply_del_def Let_def)
  have t0: "septic_tank_create = ?tank hashmap_new" by (simp add: septic_tank_create_def)
  have run: "septic_tank_pump cal septic_tank_create collision_run = Inr (?tank m5, collision_log)"
    using 1 2 3 4 5 by (simp add: collision_run_def collision_log_def t0)
  have e: "data_create_string_entry (Some 2000) ''v'' = string_entry 2000 ''v''"
    "data_create_string_entry None x = string_entry (- 1) x" for x
    by (simp_all add: data_create_string_entry_def string_entry_def)
  have "replay_mutations cal hashmap_new collision_log = Inr n4"
    using hashmap_put_direct [OF hash(1), of cal "string_entry 2000 ''v''"]
      hashmap_put_direct [OF hash(2), of cal "string_entry (- 1) ''old''"]
      hashmap_put_direct [OF hash(4), of cal "string_entry (- 1) ''new''"]
    by (simp add: collision_log_def septic_tank_replay_mutation_def septic_tank_apply_set_def e
        m1_def [symmetric] m2_def [symmetric] n3_def [symmetric] n4_def septic_tank_apply_del_def)
  with run get(6,7) show ?thesis by auto
qed

end
