(* ===== verification/Requests.thy ===== *)
theory Requests
  imports Commands Separate_Keys
begin

text \<open>
  Requests as runs of the store actor. A command reaches the store by at most one operation, on the
  key that is the first word after its name; a sequence of requests is therefore a run
  of the actor, and the world's log is what that run hands to the persistence queue.
\<close>

section \<open>One command, at most one operation\<close>

definition touches ::
  "(nat \<Rightarrow> bool) \<Rightarrow> clock \<Rightarrow> world \<Rightarrow> char list \<Rightarrow> world \<Rightarrow> bool" where
  "touches cal clk w key w' \<longleftrightarrow>
     w' = w \<or> (\<exists>op r. op_key op = key \<and> septic_tank_feed cal clk w op = Inr (r, w'))"

lemma touches_feed:
  "septic_tank_feed cal clk w op = Inr (r, w') \<Longrightarrow> op_key op = key \<Longrightarrow> touches cal clk w key w'"
  by (auto simp: touches_def)

lemma feed_then_touches:
  assumes "rbind (septic_tank_feed cal clk w op) (\<lambda>(r, w1). k r w1) = Inr (reply, w')"
    and "op_key op = key" and "\<And>r w1. k r w1 = Inr (reply, w') \<Longrightarrow> w1 = w'"
  shows "touches cal clk w key w'"
  using assms by (auto simp: rbind_eq_Inr_iff touches_def)

lemma incrby_touches:
  assumes "incrby_with cal clk w key delta = Inr (reply, w')"
  shows "touches cal clk w key w'"
  by (rule feed_then_touches [OF assms [unfolded incrby_with_def]]) (auto split: option.splits result_value.splits)

lemma get_touches:
  assumes "string_arg args 0 = Inr key" and "process_get cal ts clk w args = Inr (reply, w')"
  shows "touches cal clk w key w'"
  by (rule feed_then_touches [OF assms(2) [unfolded process_get_def assms(1) rbind_Inr]]) (auto split: option.splits result_value.splits)

lemma del_touches:
  assumes "string_arg args 0 = Inr key" and "process_del cal ts clk w args = Inr (reply, w')"
  shows "touches cal clk w key w'"
  by (rule feed_then_touches [OF assms(2) [unfolded process_del_def assms(1) rbind_Inr]]) (auto split: result_value.splits if_splits)

lemma exists_touches:
  assumes "string_arg args 0 = Inr key" and "process_exists cal ts clk w args = Inr (reply, w')"
  shows "touches cal clk w key w'"
  by (rule feed_then_touches [OF assms(2) [unfolded process_exists_def assms(1) rbind_Inr]]) (auto split: result_value.splits)

lemma ttl_touches:
  assumes "string_arg args 0 = Inr key" and "process_ttl cal ts clk w args = Inr (reply, w')"
  shows "touches cal clk w key w'"
  by (rule feed_then_touches [OF assms(2) [unfolded process_ttl_def assms(1) rbind_Inr]]) (auto split: option.splits result_value.splits)

lemma number_handlers_touch:
  assumes "string_arg args 0 = Inr key"
  shows "process_incr cal ts clk w args = Inr (reply, w') \<Longrightarrow> touches cal clk w key w'"
    and "process_decr cal ts clk w args = Inr (reply, w') \<Longrightarrow> touches cal clk w key w'"
    and "process_incrby cal ts clk w args = Inr (reply, w') \<Longrightarrow> touches cal clk w key w'"
    and "process_decrby cal ts clk w args = Inr (reply, w') \<Longrightarrow> touches cal clk w key w'"
  by (auto simp: process_incr_def process_decr_def process_incrby_def process_decrby_def assms rbind_eq_Inr_iff
      dest: incrby_touches)

lemma set_touches:
  "string_arg args 0 = Inr key \<Longrightarrow> process_set cal ts clk w args = Inr (reply, w') \<Longrightarrow> touches cal clk w key w'"
  by (auto simp: process_set_def rbind_eq_Inr_iff Let_def intro: touches_feed)

lemma expire_touches:
  "string_arg args 0 = Inr key \<Longrightarrow> process_expire cal ts clk w args = Inr (reply, w') \<Longrightarrow> touches cal clk w key w'"
  by (auto simp: process_expire_def rbind_eq_Inr_iff split: option.splits result_value.splits
      intro: touches_feed)

lemma peek_first:
  "iaa_peek_arg (iaa_create (w # ws)) 0 = Some w" "iaa_peek_arg (iaa_create []) 0 = None"
  by (simp_all add: iaa_create_def iaa_peek_arg_def iaa_peek_arg_index_def upt_conv_Cons del: upt_Suc)

lemma key_first:
  assumes "parse_command_arguments (COMMAND_ARG n ARG_TYPE_STRING False None # ds) words = Inr args"
  shows "words \<noteq> [] \<and> string_arg args 0 = Inr (hd words)"
  using assms
  by (cases words) (auto simp: parse_command_arguments_def rbind_eq_Inr_iff take_word_def wrap_optional_def
      peek_first arg_reads split: if_splits)

lemma keyless_touch_nothing:
  "processor PING_COMMAND cal ts clk w args = Inr (reply, w') \<Longrightarrow> w' = w"
  "processor INFO_COMMAND cal ts clk w args = Inr (reply, w') \<Longrightarrow> w' = w"
  by (auto simp: PING_COMMAND_def INFO_COMMAND_def process_ping_def process_info_def Let_def rbind_eq_Inr_iff
      split: option.splits)

definition KEY_COMMANDS :: "command_definition list" where
  "KEY_COMMANDS =
     [SET_COMMAND, GET_COMMAND, DEL_COMMAND, TTL_COMMAND, EXISTS_COMMAND, EXPIRE_COMMAND, INCR_COMMAND,
      DECR_COMMAND, INCRBY_COMMAND, DECRBY_COMMAND]"

lemma command_cases: "d \<in> set COMMANDS \<Longrightarrow> d = PING_COMMAND \<or> d = INFO_COMMAND \<or> d \<in> set KEY_COMMANDS"
  unfolding COMMANDS_def KEY_COMMANDS_def list.set insert_iff empty_iff by blast

lemma key_commands_key:
  assumes "d \<in> set KEY_COMMANDS"
  shows "\<exists>n ds. cdefs d = COMMAND_ARG n ARG_TYPE_STRING False None # ds"
  using assms unfolding KEY_COMMANDS_def COMMANDS_unfold
  by (elim set_ConsD [elim_format] disjE) (auto simp: KEY_ARGS_def SET_ARGS_def EXPIRE_ARGS_def INCRBY_ARGS_def DECRBY_ARGS_def)

lemma key_commands_touch:
  assumes "d \<in> set KEY_COMMANDS" and "string_arg args 0 = Inr key"
    and "processor d cal ts clk w args = Inr (reply, w')"
  shows "touches cal clk w key w'"
proof -
  note touch = get_touches [OF assms(2)] del_touches [OF assms(2)] exists_touches [OF assms(2)]
    ttl_touches [OF assms(2)] number_handlers_touch [OF assms(2)] set_touches [OF assms(2)] expire_touches [OF assms(2)]
  from assms(1) consider "processor d = process_set" | "processor d = process_get" | "processor d = process_del"
    | "processor d = process_ttl" | "processor d = process_exists" | "processor d = process_expire"
    | "processor d = process_incr" | "processor d = process_decr" | "processor d = process_incrby"
    | "processor d = process_decrby"
    unfolding KEY_COMMANDS_def COMMANDS_unfold by fastforce
  then show ?thesis
    using assms(3) by cases (simp_all only: touch)
qed

lemma command_touches:
  assumes "d \<in> set COMMANDS" and "parse_command_arguments (cdefs d) words = Inr args"
    and "processor d cal ts clk w args = Inr (reply, w')"
  shows "w' = w \<or> words \<noteq> [] \<and> touches cal clk w (hd words) w'"
proof (cases "d \<in> set KEY_COMMANDS")
  case True
  then obtain n ds where "cdefs d = COMMAND_ARG n ARG_TYPE_STRING False None # ds"
    using key_commands_key by blast
  then have key: "words \<noteq> []" "string_arg args 0 = Inr (hd words)"
    using key_first assms(2) by simp_all
  with key_commands_touch [OF True key(2) assms(3)] show ?thesis by simp
next
  case False
  then have "w' = w"
    using command_cases [OF assms(1)] assms(3) keyless_touch_nothing by blast
  then show ?thesis by simp
qed

lemma helper_touches:
  "set ds \<subseteq> set COMMANDS \<Longrightarrow> process_command_helper ds cal ts clk w command words = Inr (reply, w') \<Longrightarrow>
     w' = w \<or> words \<noteq> [] \<and> touches cal clk w (hd words) w'"
proof (induction ds)
  case (Cons d ds)
  have d: "d \<in> set COMMANDS" and ds: "set ds \<subseteq> set COMMANDS" using Cons.prems(1) by simp_all
  show ?case
  proof (cases "str_eq_ci command (cname d)")
    case True
    show ?thesis
    proof (cases "parse_command_arguments (cdefs d) words")
      case (Inl e)
      with True Cons.prems(2) show ?thesis by (cases e) auto
    next
      case (Inr args)
      with True Cons.prems(2) have "processor d cal ts clk w args = Inr (reply, w')" by simp
      then show ?thesis by (rule command_touches [OF d Inr])
    qed
  next
    case False
    with Cons.prems(2) Cons.IH [OF ds] show ?thesis by simp
  qed
qed simp

fun command_key :: "resp_value option \<Rightarrow> char list option" where
  \<comment> \<open>the word after the command name\<close>
  "command_key (Some (RESP_array (_ # RESP_bulk_string k # _))) = Some k"
| "command_key _ = None"

lemma bulk_words_Cons: "bulk_words (v # vs) = Some (s # ws) \<Longrightarrow> v = RESP_bulk_string s \<and> bulk_words vs = Some ws"
  by (cases v) auto

lemma bulk_words_Nil: "bulk_words vs = Some (s # ws) \<Longrightarrow> vs \<noteq> []"
  by auto

lemma bulk_words_key:
  assumes "bulk_words vs = Some (command # k # words)"
  shows "command_key (Some (RESP_array vs)) = Some k"
proof -
  obtain v vs' where v: "vs = v # vs'" using bulk_words_Nil [OF assms] by (cases vs) auto
  then have bw: "bulk_words vs' = Some (k # words)" using bulk_words_Cons [of v vs' command] assms by simp
  then obtain u us where u: "vs' = u # us" using bulk_words_Nil [OF bw] by (cases vs') auto
  then have "u = RESP_bulk_string k" using bulk_words_Cons [of u us k words] bw by simp
  then show ?thesis by (simp add: v u)
qed

lemma process_command_touches:
  assumes "process_command cal ts clk w v = Inr (reply, w')"
  shows "w' = w \<or> (\<exists>key. command_key v = Some key \<and> touches cal clk w key w')"
proof -
  have "\<exists>vs. v = Some (RESP_array vs) \<and> is_valid_bulk_string_array_command vs"
  proof (rule ccontr)
    assume "\<not> ?thesis"
    then have "process_command cal ts clk w v = Inl Unimplemented"
      by (auto simp: process_command_def split: option.splits resp_value.splits)
    with assms show False by simp
  qed
  then obtain vs where vs: "v = Some (RESP_array vs)" "is_valid_bulk_string_array_command vs" by blast
  from valid_words [OF vs(2)] obtain command words where bw: "bulk_words vs = Some (command # words)" by blast
  have p: "process_command_helper COMMANDS cal ts clk w command words = Inr (reply, w')"
    using assms vs bw by (simp add: process_command_def)
  note v = vs(1) bw
  from helper_touches [OF subset_refl p] bulk_words_key v show ?thesis
    by (cases words) auto
qed

section \<open>Sequences of requests\<close>

type_synonym client_request = "resp_value option \<times> timespec \<times> clock"

fun serve_requests ::
  "(nat \<Rightarrow> bool) \<Rightarrow> world \<Rightarrow> client_request list \<Rightarrow> (resp_value list \<times> world) res" where
  \<comment> \<open>the requests of all connections in the order in which the actor takes them\<close>
  "serve_requests cal w [] = Inr ([], w)"
| "serve_requests cal w ((v, ts, clk) # reqs) =
     rbind (process_command cal ts clk w v) (\<lambda>(reply, w).
     rbind (serve_requests cal w reqs) (\<lambda>(replies, w). Inr (reply # replies, w)))"

fun requests_ok :: "char list set \<Rightarrow> int \<Rightarrow> client_request list \<Rightarrow> bool" where
  \<comment> \<open>keys from \<open>K\<close>, and documented clock readings that do not go back\<close>
  "requests_ok K t [] = True"
| "requests_ok K t ((v, ts, clk) # reqs) \<longleftrightarrow>
     (\<forall>k. command_key v = Some k \<longrightarrow> k \<in> K) \<and> clock_ok (clk 0) \<and> clock_ok (clk 1) \<and> t \<le> ms_of (clk 0) \<and>
     requests_ok K (ms_of (clk 0)) reqs"

fun end_time :: "int \<Rightarrow> client_request list \<Rightarrow> int" where
  "end_time t [] = t"
| "end_time t ((v, ts, clk) # reqs) = end_time (ms_of (clk 0)) reqs"

lemma clocks_ok_mono: "clocks_ok t msgs \<Longrightarrow> t' \<le> t \<Longrightarrow> clocks_ok t' msgs"
  by (cases msgs) auto

lemma last_reading_mono: "t' \<le> t \<Longrightarrow> last_reading t' msgs \<le> last_reading t msgs"
  by (cases msgs) auto

definition new_world :: "bool \<Rightarrow> world" where
  "new_world replica = \<lparr>wtank = septic_tank_create, wlog = [], has_master = replica\<rparr>"

lemma requests_are_turns:
  "serve_requests cal w reqs = Inr (replies, w') \<Longrightarrow> requests_ok K t reqs \<Longrightarrow>
   \<exists>msgs mus. septic_tank_pump cal (wtank w) msgs = Inr (wtank w', mus) \<and> wlog w' = wlog w @ mus \<and>
     (\<forall>(op, clk) \<in> set msgs. op_key op \<in> K) \<and> clocks_ok t msgs \<and> last_reading t msgs \<le> end_time t reqs"
proof (induction reqs arbitrary: w t replies)
  case (Cons req reqs)
  obtain v ts clk where req: "req = (v, ts, clk)" by (cases req)
  from Cons.prems(1) obtain reply w1 replies1 where
    p: "process_command cal ts clk w v = Inr (reply, w1)" and
    s: "serve_requests cal w1 reqs = Inr (replies1, w')"
    by (auto simp: req rbind_eq_Inr_iff split: prod.splits)
  have ok: "\<forall>k. command_key v = Some k \<longrightarrow> k \<in> K" "clock_ok (clk 0)" "clock_ok (clk 1)" "t \<le> ms_of (clk 0)"
    and rest: "requests_ok K (ms_of (clk 0)) reqs"
    using Cons.prems(2) by (auto simp: req)
  from Cons.IH [OF s rest] obtain msgs mus where
    run: "septic_tank_pump cal (wtank w1) msgs = Inr (wtank w', mus)" "wlog w' = wlog w1 @ mus" and
    keys: "\<forall>(op, clk) \<in> set msgs. op_key op \<in> K" and
    cl: "clocks_ok (ms_of (clk 0)) msgs" "last_reading (ms_of (clk 0)) msgs \<le> end_time (ms_of (clk 0)) reqs"
    by blast
  show ?case
  proof (cases "w1 = w")
    case True
    have "clocks_ok t msgs" "last_reading t msgs \<le> end_time t (req # reqs)"
      using clocks_ok_mono [OF cl(1) ok(4)] last_reading_mono [OF ok(4), of msgs] cl(2) by (simp_all add: req)
    with run keys True show ?thesis by blast
  next
    case False
    with process_command_touches [OF p] obtain key op r where
      k: "command_key v = Some key" "op_key op = key" "septic_tank_feed cal clk w op = Inr (r, w1)"
      by (auto simp: touches_def)
    then obtain tank fed where
      d: "septic_tank_digest cal clk (wtank w) op True = Inr (tank, Some r, fed)" and
      w1: "wtank w1 = tank" "wlog w1 = wlog w @ (case fed of None \<Rightarrow> [] | Some mu \<Rightarrow> [mu])"
      by (auto simp: septic_tank_feed_def rbind_eq_Inr_iff split: option.splits)
    let ?msgs = "(op, clk) # msgs" and ?mus = "(case fed of None \<Rightarrow> mus | Some mu \<Rightarrow> mu # mus)"
    have "septic_tank_pump cal (wtank w) ?msgs = Inr (wtank w', ?mus)"
      using d run(1) w1(1) by simp
    moreover have "wlog w' = wlog w @ ?mus"
      using run(2) w1(2) by (cases fed) simp_all
    moreover have "\<forall>(op, clk) \<in> set ?msgs. op_key op \<in> K"
      using keys k ok(1) by simp
    moreover have "clocks_ok t ?msgs" "last_reading t ?msgs \<le> end_time t (req # reqs)"
      using ok(2,3,4) cl by (simp_all add: req)
    ultimately show ?thesis by blast
  qed
qed (auto intro: exI [of _ "[]"])

end
