(* ===== verification/Cli.thy ===== *)
theory Cli
  imports Aids
begin

text \<open>
  The command line parser (\<^verbatim>\<open>cli.c\<close>, \<^verbatim>\<open>cli.h\<close>). For each option in the order of its definition the parser
  looks for the first matching argument among those not yet consumed, reads its value, and swaps
  the consumed arguments to the front. The \<^verbatim>\<open>void *\<close> that an option ends up with points to an
  \<^verbatim>\<open>Option\<close> if the definition is optional and to the value otherwise.
\<close>

section \<open>Definitions and results\<close>

datatype cli_option_type = CLI_BOOL | CLI_STRING | CLI_INTEGER | CLI_FLOAT

record cli_option_definition =
  oname :: "char list"
  shorthand :: "char list option"
  otype :: cli_option_type
  ois_optional :: bool

datatype cli_value = Cli_true | Cli_long int64 | Cli_string "char list"

datatype cli_slot = Cli_optional "cli_value option" | Cli_required cli_value

record cli_option =
  is_optional :: bool
  oslot :: cli_slot

section \<open>Parsing\<close>

definition is_long :: "cli_option_definition \<Rightarrow> char list \<Rightarrow> bool" where
  "is_long def arg \<longleftrightarrow> take 2 arg = ''--'' \<and> oname def = drop 2 arg"

definition is_short :: "cli_option_definition \<Rightarrow> char list \<Rightarrow> bool" where
  "is_short def arg \<longleftrightarrow>
     (case shorthand def of
        None \<Rightarrow> False
      | Some s \<Rightarrow> take 1 arg = ''-'' \<and> take 1 (drop 1 arg) \<noteq> ''-'' \<and> s = drop 1 arg)"

definition opt_matches :: "cli_option_definition \<Rightarrow> char list \<Rightarrow> bool" where
  "opt_matches def arg \<longleftrightarrow> is_long def arg \<or> is_short def arg"

definition matched_idx :: "cli_option_definition \<Rightarrow> nat \<Rightarrow> char list list \<Rightarrow> nat option" where
  "matched_idx def opt_idx iargs = find (\<lambda>j. opt_matches def (iargs ! j)) [opt_idx..<length iargs]"

definition option_value ::
  "cli_option_definition \<Rightarrow> nat \<Rightarrow> char list list \<Rightarrow> (cli_value \<times> nat) option res" where
  \<comment> \<open>the value and the number of consumed arguments; \<open>None\<close> when the parser returns false\<close>
  "option_value def m iargs =
     (case otype def of
        CLI_BOOL \<Rightarrow> Inr (Some (Cli_true, 1))
      | CLI_INTEGER \<Rightarrow>
          if length iargs \<le> m + 1 then Inr None
          else let (success, integer) = parse_long (iargs ! (m + 1))
               in Inr (if success then Some (Cli_long integer, 2) else None)
      | CLI_STRING \<Rightarrow>
          if length iargs \<le> m + 1 then Inr None
          else Inr (Some (Cli_string (iargs ! (m + 1)), 2))
      | CLI_FLOAT \<Rightarrow> Inl Unimplemented)"

fun move_consumed :: "nat \<Rightarrow> nat \<Rightarrow> nat \<Rightarrow> char list list \<Rightarrow> char list list" where
  \<comment> \<open>swap \<open>n\<close> arguments from \<open>m\<close> on with those from \<open>k\<close> on, one by one\<close>
  "move_consumed 0 m k iargs = iargs"
| "move_consumed (Suc n) m k iargs =
     move_consumed n (Suc m) (Suc k) (iargs[m := iargs ! k, k := iargs ! m])"

definition wrap_slot :: "cli_option_definition \<Rightarrow> cli_value \<Rightarrow> cli_option" where
  "wrap_slot def v =
     \<lparr>is_optional = ois_optional def,
      oslot = (if ois_optional def then Cli_optional (Some v) else Cli_required v)\<rparr>"

fun cli_loop ::
  "cli_option_definition list \<Rightarrow> nat \<Rightarrow> char list list \<Rightarrow> (cli_option list \<times> char list list) option res" where
  "cli_loop [] opt_idx iargs = Inr (Some ([], iargs))"
| "cli_loop (def # defs) opt_idx iargs =
     (case matched_idx def opt_idx iargs of
        None \<Rightarrow>
          if ois_optional def
          then rbind (cli_loop defs opt_idx iargs) (\<lambda>r. Inr (map_option
                 (\<lambda>(opts, iargs). (\<lparr>is_optional = True, oslot = Cli_optional None\<rparr> # opts, iargs)) r))
          else Inr None
      | Some m \<Rightarrow> rbind (option_value def m iargs) (\<lambda>r.
          case r of
            None \<Rightarrow> Inr None
          | Some (v, consumed) \<Rightarrow>
              rbind (cli_loop defs (opt_idx + consumed) (move_consumed consumed m opt_idx iargs)) (\<lambda>r.
                Inr (map_option (\<lambda>(opts, iargs). (wrap_slot def v # opts, iargs)) r))))"

definition cli_parse_opts ::
  "cli_option_definition list \<Rightarrow> char list list \<Rightarrow> (cli_option list \<times> char list list) option res" where
  \<comment> \<open>\<open>None\<close> for the result false; otherwise the options and the reordered arguments\<close>
  "cli_parse_opts defs iargs = cli_loop defs 0 iargs"

section \<open>What the parser promises\<close>

text \<open>
  A command line made of options with a value each, \<open>[k\<^sub>1, v\<^sub>1, k\<^sub>2, v\<^sub>2, ...]\<close>, and what each
  definition should be given from it.
\<close>

definition flat :: "(char list \<times> char list) list \<Rightarrow> char list list" where
  "flat ps = concat (map (\<lambda>(k, v). [k, v]) ps)"

definition given :: "cli_option_definition \<Rightarrow> (char list \<times> char list) list \<Rightarrow> char list option" where
  "given def ps = map_option snd (find (\<lambda>p. opt_matches def (fst p)) ps)"

definition spec_value :: "cli_option_definition \<Rightarrow> char list \<Rightarrow> cli_value option" where
  "spec_value def v =
     (case otype def of
        CLI_INTEGER \<Rightarrow> if fst (parse_long v) then Some (Cli_long (snd (parse_long v))) else None
      | _ \<Rightarrow> Some (Cli_string v))"

definition spec_option :: "cli_option_definition \<Rightarrow> char list option \<Rightarrow> cli_option option" where
  "spec_option def arg =
     (case arg of
        None \<Rightarrow> if ois_optional def then Some \<lparr>is_optional = True, oslot = Cli_optional None\<rparr> else None
      | Some v \<Rightarrow> map_option (wrap_slot def) (spec_value def v))"

definition takes_value :: "cli_option_definition \<Rightarrow> bool" where
  "takes_value def \<longleftrightarrow> otype def = CLI_STRING \<or> otype def = CLI_INTEGER"

definition clear_line :: "cli_option_definition list \<Rightarrow> (char list \<times> char list) list \<Rightarrow> bool" where
  \<comment> \<open>no value looks like an option, no option is given twice with different values, and no
      argument matches two definitions\<close>
  "clear_line defs ps \<longleftrightarrow>
     (\<forall>def \<in> set defs. \<forall>p \<in> set ps. \<not> opt_matches def (snd p)) \<and>
     (\<forall>def \<in> set defs. \<forall>p \<in> set ps. \<forall>q \<in> set ps. opt_matches def (fst p) \<and> opt_matches def (fst q) \<longrightarrow> p = q) \<and>
     sorted_wrt (\<lambda>d d'. \<forall>p \<in> set ps. \<not> (opt_matches d (fst p) \<and> opt_matches d' (fst p))) defs"


lemma flat_simps [simp]:
  "flat [] = []" "flat (p # ps) = fst p # snd p # flat ps" "flat (ps @ qs) = flat ps @ flat qs"
  by (auto simp: flat_def split: prod.splits)

lemma length_flat [simp]: "length (flat ps) = 2 * length ps"
  by (induction ps) auto

lemma matched_idx_end: "matched_idx d (length zs) zs = None"
  by (simp add: matched_idx_def)

lemma matched_idx_step:
  "matched_idx d (length zs) (zs @ a # r) =
     (if opt_matches d a then Some (length zs) else matched_idx d (length (zs @ [a])) ((zs @ [a]) @ r))"
proof -
  have "[length zs..<length (zs @ a # r)] = length zs # [length (zs @ [a])..<length ((zs @ [a]) @ r)]"
    by (subst upt_conv_Cons) simp_all
  then show ?thesis by (simp only: matched_idx_def find.simps) (simp add: nth_append)
qed

lemma matched_idx_skip:
  assumes "\<not> opt_matches d a" and "\<not> opt_matches d b"
  shows "matched_idx d (length zs) (zs @ a # b # r) = matched_idx d (length (zs @ [a, b])) ((zs @ [a, b]) @ r)"
  using assms matched_idx_step [of d zs a "b # r"] matched_idx_step [of d "zs @ [a]" b r] by simp

lemma matched_idx_none:
  assumes "\<forall>p \<in> set ps. \<not> opt_matches d (fst p) \<and> \<not> opt_matches d (snd p)"
  shows "matched_idx d (length zs) (zs @ flat ps) = None"
  using assms
proof (induction ps arbitrary: zs)
  case (Cons p ps)
  then show ?case
    using Cons.IH [of "zs @ [fst p, snd p]"] by (simp add: matched_idx_skip)
qed (simp add: matched_idx_end)

lemma matched_idx_first:
  assumes "\<forall>p \<in> set xs. \<not> opt_matches d (fst p) \<and> \<not> opt_matches d (snd p)" and "opt_matches d (fst p)"
  shows "matched_idx d (length zs) (zs @ flat (xs @ p # ys)) = Some (length zs + 2 * length xs)"
  using assms
proof (induction xs arbitrary: zs)
  case (Cons x xs)
  then show ?case
    using Cons.IH [of "zs @ [fst x, snd x]"] by (simp add: matched_idx_skip)
qed (simp add: matched_idx_step)

lemma swap_apart:
  "(zs @ a # u @ b # r)[length zs + Suc (length u) := a, length zs := b] = zs @ b # u @ a # r"
  by (simp add: list_update_append)

lemma nth_apart:
  "(zs @ a # u @ b # r) ! (length zs + Suc (length u)) = b" "(zs @ a # u @ b # r) ! length zs = a"
  by (simp_all add: nth_append)

lemma move_pair:
  "move_consumed 2 (length zs + 2 + length w) (length zs) (zs @ a # b # w @ k # v # r) =
     zs @ k # v # w @ a # b # r"
proof -
  have "move_consumed 2 (length zs + 2 + length w) (length zs) (zs @ a # b # w @ k # v # r) =
      move_consumed 1 (Suc (length zs + 2 + length w)) (Suc (length zs)) (zs @ k # b # w @ a # v # r)"
    using swap_apart [of zs a "b # w" k "v # r"] nth_apart [of zs a "b # w" k "v # r"]
    by (simp add: numeral_2_eq_2)
  also have "\<dots> = zs @ k # v # w @ a # b # r"
    using swap_apart [of "zs @ [k]" b "w @ [a]" v r] nth_apart [of "zs @ [k]" b "w @ [a]" v r]
    by simp
  finally show ?thesis .
qed

lemma move_front: "move_consumed 2 (length zs) (length zs) (zs @ k # v # r) = zs @ k # v # r"
  by (simp add: numeral_2_eq_2 list_update_append nth_append)

lemma option_value_pair:
  assumes "takes_value d" and "m + 1 < length iargs" and "iargs ! (m + 1) = v"
  shows "option_value d m iargs = Inr (map_option (\<lambda>x. (x, 2)) (spec_value d v))"
  using assms by (auto simp: option_value_def takes_value_def spec_value_def split: prod.splits)

lemma given_none:
  assumes "\<forall>p \<in> set ps. \<not> opt_matches d (fst p)" shows "given d ps = None"
  using assms by (auto simp: given_def find_None_iff)

lemma given_unique:
  assumes "\<forall>p \<in> set ps. \<forall>q \<in> set ps. opt_matches d (fst p) \<and> opt_matches d (fst q) \<longrightarrow> p = q"
    and "p \<in> set ps" and "opt_matches d (fst p)"
  shows "given d ps = Some (snd p)"
proof -
  from assms(2,3) obtain q where q: "find (\<lambda>p. opt_matches d (fst p)) ps = Some q"
    using find_None_iff [of "\<lambda>p. opt_matches d (fst p)" ps] by blast
  then have "q \<in> set ps" "opt_matches d (fst q)"
    by (auto simp: find_Some_iff)
  with assms have "q = p" by blast
  with q show ?thesis by (simp add: given_def)
qed

lemma given_cong:
  assumes "\<forall>p \<in> set ps. \<forall>q \<in> set ps. opt_matches d (fst p) \<and> opt_matches d (fst q) \<longrightarrow> p = q"
    and "\<forall>p. opt_matches d (fst p) \<longrightarrow> p \<in> set ps \<longleftrightarrow> p \<in> set qs"
  shows "given d qs = given d ps"
proof (cases "\<exists>p \<in> set ps. opt_matches d (fst p)")
  case True
  then obtain p where p: "p \<in> set ps" "opt_matches d (fst p)" by blast
  then show ?thesis
    using given_unique [OF assms(1) p] given_unique [of qs d p] assms by metis
next
  case False
  then show ?thesis
    using given_none [of ps d] given_none [of qs d] assms(2) by metis
qed


lemma move_first:
  "\<exists>rs. set rs = set (xs @ ys) \<and>
     move_consumed 2 (2 * length cs + 2 * length xs) (2 * length cs) (flat (cs @ xs @ p # ys)) =
       flat ((cs @ [p]) @ rs)"
proof (cases xs)
  case Nil
  then show ?thesis
    using move_front [of "flat cs" "fst p" "snd p" "flat ys"] by (intro exI [of _ ys]) simp
next
  case (Cons x w)
  then show ?thesis
    using move_pair [of "flat cs" "flat w" "fst x" "snd x" "fst p" "snd p" "flat ys"]
    by (intro exI [of _ "w @ x # ys"]) (auto simp: algebra_simps)
qed

lemma spec_option_simps:
  "spec_option d None = (if ois_optional d then Some \<lparr>is_optional = True, oslot = Cli_optional None\<rparr> else None)"
  "spec_option d (Some v) = map_option (wrap_slot d) (spec_value d v)"
  by (simp_all add: spec_option_def)

lemma clear_line_subset:
  assumes "clear_line defs ps" and "set rs \<subseteq> set ps"
  shows "clear_line defs rs"
  unfolding clear_line_def
proof (intro conjI)
  show "sorted_wrt (\<lambda>d d'. \<forall>p \<in> set rs. \<not> (opt_matches d (fst p) \<and> opt_matches d' (fst p))) defs"
    using assms by (auto simp: clear_line_def elim!: sorted_wrt_mono_rel [rotated])
qed (use assms in \<open>unfold clear_line_def, blast+\<close>)

lemma cli_loop_pairs:
  assumes "clear_line defs ps" and "list_all takes_value defs"
  shows "\<exists>iargs'. cli_loop defs (2 * length cs) (flat (cs @ ps)) =
    Inr (map_option (\<lambda>opts. (opts, iargs')) (those (map (\<lambda>d. spec_option d (given d ps)) defs)))"
  using assms
proof (induction defs arbitrary: cs ps)
  case (Cons d defs)
  from Cons.prems have clear: "clear_line defs ps" and tv: "list_all takes_value defs" "takes_value d"
    and vals: "\<forall>p \<in> set ps. \<not> opt_matches d (snd p)"
    and uniq: "\<forall>p \<in> set ps. \<forall>q \<in> set ps. opt_matches d (fst p) \<and> opt_matches d (fst q) \<longrightarrow> p = q"
    and own: "\<forall>d' \<in> set defs. \<forall>p \<in> set ps. \<not> (opt_matches d (fst p) \<and> opt_matches d' (fst p))"
    by (auto simp: clear_line_def)
  show ?case
  proof (cases "\<exists>p \<in> set ps. opt_matches d (fst p)")
    case False
    then have "matched_idx d (2 * length cs) (flat (cs @ ps)) = None" "given d ps = None"
      using matched_idx_none [of ps d "flat cs"] vals given_none [of ps d] by auto
    then show ?thesis
      using Cons.IH [OF clear tv(1), of cs]
      by (auto simp: spec_option_simps option.map_comp comp_def)
  next
    case True
    then obtain xs p ys where ps: "ps = xs @ p # ys" and p: "opt_matches d (fst p)"
      and xs: "\<forall>q \<in> set xs. \<not> opt_matches d (fst q)"
      by (rule split_list_first_propE) blast
    let ?m = "2 * length cs + 2 * length xs"
    have m: "matched_idx d (2 * length cs) (flat (cs @ ps)) = Some ?m"
      using matched_idx_first [of xs d p "flat cs" ys] xs p vals by (simp add: ps)
    have v: "flat (cs @ ps) ! (?m + 1) = snd p" "?m + 1 < length (flat (cs @ ps))"
      by (simp_all add: ps nth_append)
    have g: "given d ps = Some (snd p)" using given_unique [OF uniq _ p] by (simp add: ps)
    obtain rs where rs: "set rs = set (xs @ ys)"
      and mv: "move_consumed 2 ?m (2 * length cs) (flat (cs @ ps)) = flat ((cs @ [p]) @ rs)"
      using move_first [of xs ys cs p] by (auto simp: ps)
    have sub: "set rs \<subseteq> set ps" using rs by (auto simp: ps)
    have clear': "clear_line defs rs"
      by (rule clear_line_subset [OF clear sub])
    have same: "given d' rs = given d' ps" if "d' \<in> set defs" for d'
    proof (rule given_cong)
      show "\<forall>p \<in> set ps. \<forall>q \<in> set ps. opt_matches d' (fst p) \<and> opt_matches d' (fst q) \<longrightarrow> p = q"
        using clear that unfolding clear_line_def by blast
      show "\<forall>q. opt_matches d' (fst q) \<longrightarrow> q \<in> set ps \<longleftrightarrow> q \<in> set rs"
        using own that p rs by (auto simp: ps)
    qed
    from Cons.IH [OF clear' tv(1), of "cs @ [p]"] obtain iargs' where
      ih: "cli_loop defs (2 * length cs + 2) (flat ((cs @ [p]) @ rs)) =
        Inr (map_option (\<lambda>opts. (opts, iargs')) (those (map (\<lambda>d. spec_option d (given d rs)) defs)))"
      by auto
    have map: "map (\<lambda>d. spec_option d (given d rs)) defs = map (\<lambda>d. spec_option d (given d ps)) defs"
      using same by simp
    show ?thesis
      using m option_value_pair [OF tv(2) v(2,1)] mv ih
      by (cases "spec_value d (snd p)")
        (auto simp: g spec_option_simps map option.map_comp comp_def simp del: flat_simps(3) map_eq_conv)
  qed
qed (auto)

text \<open>
  On a command line of options that each have one value, the parser gives every definition the
  value that follows its name, wherever on the line the option stands, although it swaps the
  arguments around while it works; it refuses exactly when a required option is
  missing or the value of an integer option does not begin with a number.
\<close>

lemma cli_parse_opts_pairs:
  assumes "clear_line defs ps" and "list_all takes_value defs" and "set qs = set ps"
  shows "\<exists>iargs'. cli_parse_opts defs (flat qs) =
    Inr (map_option (\<lambda>opts. (opts, iargs')) (those (map (\<lambda>d. spec_option d (given d ps)) defs)))"
proof -
  have clear: "clear_line defs qs" using assms(1,3) by (simp add: clear_line_def)
  have eq: "map (\<lambda>d. spec_option d (given d qs)) defs = map (\<lambda>d. spec_option d (given d ps)) defs"
  proof (rule map_cong [OF refl])
    fix d assume "d \<in> set defs"
    then show "spec_option d (given d qs) = spec_option d (given d ps)"
      using assms(1,3) given_cong [of ps d qs] by (simp add: clear_line_def)
  qed
  from cli_loop_pairs [OF clear assms(2), of "[]"] show ?thesis
    unfolding eq cli_parse_opts_def by simp
qed

end
