(* ===== verification/Sewer.thy ===== *)
theory Sewer
  imports Ring Data
begin

text \<open>
  The channels between the threads (\<^verbatim>\<open>sewer.c\<close>): a ring buffer under a mutex. The body of each
  operation between lock and unlock is one atomic step; \<open>None\<close> means that the thread has to keep
  waiting on its condition variable, so the step is not taken. A wait that wakes up spuriously
  evaluates the same loop condition again, which is the same step tried later.
\<close>

type_synonym 'a sewer = "'a ringbuf"

record 'a sewer_message =
  mvalue :: 'a
  clogged_sewer :: "unit sewer option"
  is_consumed :: bool

definition sewer_create :: "nat \<Rightarrow> 'a sewer" where
  "sewer_create c = ringbuf_create c"

definition sewer_send :: "'a sewer \<Rightarrow> 'a \<Rightarrow> 'a sewer option res" where
  "sewer_send s message =
     (if ringbuf_is_full s then Inr None
      else rbind (ringbuf_push s message) (\<lambda>(_, s'). Inr (Some s')))"

definition sewer_consume :: "'a sewer \<Rightarrow> ('a \<times> 'a sewer) option res" where
  \<comment> \<open>\<^verbatim>\<open>out_message\<close> stays \<^verbatim>\<open>NULL\<close> when the pop fails; its users dereference it\<close>
  "sewer_consume s =
     (if ringbuf_is_empty s then Inr None
      else rbind (ringbuf_pop s) (\<lambda>(m, s').
        case m of None \<Rightarrow> Inl NullDeref | Some x \<Rightarrow> Inr (Some (x, s'))))"

definition sewer_deadline :: "timespec \<Rightarrow> int \<Rightarrow> (int \<times> int) res" where
  \<comment> \<open>seconds and nanoseconds of \<^verbatim>\<open>timeout_ts\<close>\<close>
  "sewer_deadline now timeout_ms =
     rbind (int64_of (sint (tv_sec now) + c_div timeout_ms 1000)) (\<lambda>sec.
     rbind (int64_of (sint (tv_nsec now) + (timeout_ms - 1000 * c_div timeout_ms 1000) * 1000000)) (\<lambda>nsec.
       if 1000000000 \<le> sint nsec
       then rbind (int64_of (sint sec + 1)) (\<lambda>sec. Inr (sint sec, sint nsec - 1000000000))
       else Inr (sint sec, sint nsec)))"

definition sewer_timed_consume :: "'a sewer \<Rightarrow> bool \<Rightarrow> ('a option \<times> 'a sewer) option res" where
  \<comment> \<open>\<open>timed_out\<close>: the wait on the empty buffer reported \<^verbatim>\<open>ETIMEDOUT\<close>; then the result is \<^verbatim>\<open>NULL\<close>\<close>
  "sewer_timed_consume s timed_out =
     (if ringbuf_is_empty s then (if timed_out then Inr (Some (None, s)) else Inr None)
      else rbind (ringbuf_pop s) (\<lambda>(m, s').
        case m of None \<Rightarrow> Inl NullDeref | Some x \<Rightarrow> Inr (Some (Some x, s'))))"

definition sewer_message_create :: "'a \<Rightarrow> bool \<Rightarrow> 'a sewer_message" where
  "sewer_message_create value with_response =
     \<lparr>mvalue = value, clogged_sewer = (if with_response then Some (sewer_create 1) else None),
      is_consumed = False\<rparr>"

section \<open>The channel as a queue\<close>

text \<open>
  The contract the actors use: sending appends unless the channel is full, receiving takes the
  oldest message unless it is empty, and nothing else happens.
\<close>

locale channel =
  fixes send :: "'q \<Rightarrow> 'a \<Rightarrow> 'q option res"
    and receive :: "'q \<Rightarrow> ('a \<times> 'q) option res"
    and queued :: "'q \<Rightarrow> 'a list"
    and room :: "'q \<Rightarrow> bool"
    and invar :: "'q \<Rightarrow> bool"
  assumes send_room: "invar q \<Longrightarrow> room q \<Longrightarrow> \<exists>q'. send q x = Inr (Some q') \<and> invar q' \<and> queued q' = queued q @ [x]"
    and send_wait: "invar q \<Longrightarrow> \<not> room q \<Longrightarrow> send q x = Inr None"
    and receive_some: "invar q \<Longrightarrow> queued q = x # xs \<Longrightarrow> \<exists>q'. receive q = Inr (Some (x, q')) \<and> invar q' \<and> queued q' = xs"
    and receive_wait: "invar q \<Longrightarrow> queued q = [] \<Longrightarrow> receive q = Inr None"
begin

lemma sendD: "invar q \<Longrightarrow> send q x = Inr (Some q') \<Longrightarrow> invar q' \<and> queued q' = queued q @ [x]"
  using send_room [of q x] send_wait [of q x] by (cases "room q") auto

lemma receiveD: "invar q \<Longrightarrow> receive q = Inr (Some (x, q')) \<Longrightarrow> invar q' \<and> queued q = x # queued q'"
  using receive_some [of q] receive_wait [of q] by (cases "queued q") auto

lemma send_no_fault: "invar q \<Longrightarrow> send q x \<noteq> Inl e"
  using send_room [of q x] send_wait [of q x] by (cases "room q") auto

lemma receive_no_fault: "invar q \<Longrightarrow> receive q \<noteq> Inl e"
  using receive_some [of q] receive_wait [of q] by (cases "queued q") auto

end

interpretation sw: channel sewer_send sewer_consume ring_content "\<lambda>q. \<not> ringbuf_is_full q" ring_wf
proof (unfold_locales, goal_cases)
  case (1 q x)
  then show ?case
    using ring.push_room [of q x] by (auto simp: sewer_send_def ringbuf_is_full_def)
next
  case (2 q x)
  then show ?case by (simp add: sewer_send_def)
next
  case (3 q x xs)
  then have "0 < rlen q" using length_ring_content [of q] by simp
  with 3 show ?case
    using ring.pop_some [of q x xs] by (auto simp: sewer_consume_def ringbuf_is_empty_def)
next
  case (4 q)
  then show ?case using length_ring_content [of q] by (simp add: sewer_consume_def ringbuf_is_empty_def)
qed

lemma timed_consume_eq:
  "sewer_timed_consume s b =
     rbind (sewer_consume s) (\<lambda>r. case r of None \<Rightarrow> Inr (if b then Some (None, s) else None)
       | Some (x, s') \<Rightarrow> Inr (Some (Some x, s')))"
  by (auto simp: sewer_timed_consume_def sewer_consume_def rbind_def split: option.splits sum.splits)

section \<open>Properties\<close>

text \<open>
  The deadline of a timed receive is a normalised time, exactly the given number of
  milliseconds after the reading of the clock, for every documented reading and every
  non-negative timeout of type \<^verbatim>\<open>int\<close>.
\<close>

lemma sewer_deadline_exact:
  assumes "clock_ok now" and "0 \<le> ms" and "ms < 2 ^ 31"
  shows "\<exists>sec nsec. sewer_deadline now ms = Inr (sec, nsec) \<and> 0 \<le> nsec \<and> nsec < 1000000000 \<and>
    sec * 1000000000 + nsec = sint (tv_sec now) * 1000000000 + sint (tv_nsec now) + ms * 1000000"
proof -
  let ?s = "sint (tv_sec now) + ms div 1000"
  let ?n = "sint (tv_nsec now) + ms mod 1000 * 1000000"
  have d: "c_div ms 1000 = ms div 1000" using assms(2) by (simp add: c_div_nonneg)
  have m: "ms - 1000 * (ms div 1000) = ms mod 1000" by (simp add: minus_mult_div_eq_mod)
  have r: "0 \<le> ms mod 1000" "ms mod 1000 < 1000" "0 \<le> ms div 1000" "ms div 1000 < 2 ^ 31"
    and split: "ms = 1000 * (ms div 1000) + ms mod 1000"
    using assms(2,3) by auto
  have total: "ms div 1000 * 1000000000 + ms mod 1000 * 1000000 = ms * 1000000"
    using split by presburger
  have n: "in_int64 ?s" "in_int64 ?n" "in_int64 (?s + 1)" "0 \<le> ?n" "?n < 2000000000"
    using assms(1) r by (auto simp: clock_ok_def in_int64_def)
  then show ?thesis
    unfolding sewer_deadline_def d m int64_of_def
    by (auto simp only: rbind_Inr sint_word_of_int64 if_True split: if_splits) (auto simp: total)
qed

end
