(* ===== verification/Server.thy ===== *)
theory Server
  imports Commands Sewer
begin

text \<open>
  The connection handler and the server object (\<^verbatim>\<open>server.c\<close>, \<^verbatim>\<open>server.h\<close>). Each connection has one array
  of 4096 bytes into which requests are read and from which replies are written, so that a
  request is parsed with the bytes of earlier requests and replies behind it. \<^verbatim>\<open>inet_pton\<close> is an
  argument of \<open>parse_socket_info\<close>.
\<close>

abbreviation BUFFER_SIZE :: nat where
  "BUFFER_SIZE \<equiv> 4096"

record socket_info =
  ip :: "32 word"
  port :: "16 word"

record server =
  septic_tank_sewer :: "operation sewer_message sewer"
  potty_sewer :: "mutation sewer_message sewer"
  maybe_master :: "socket_info option"

definition create_server_instance :: server where
  "create_server_instance =
     \<lparr>septic_tank_sewer = sewer_create 100, potty_sewer = sewer_create 100, maybe_master = None\<rparr>"

definition read_into :: "char list \<Rightarrow> char list \<Rightarrow> char list" where
  \<comment> \<open>\<^verbatim>\<open>read\<close> stores the received bytes at the start of the buffer and leaves the rest as it is\<close>
  "read_into buffer bs = bs @ drop (length bs) buffer"

definition parsed_value :: "(resp_value \<times> nat) parse \<Rightarrow> resp_value option res" where
  \<comment> \<open>the result code is discarded; after an error the zeroed value is used\<close>
  "parsed_value r =
     (case r of
        Inl (Parse_fault e) \<Rightarrow> Inl e
      | Inl (Parse_return code pos) \<Rightarrow> Inr None
      | Inr (v, pos) \<Rightarrow> Inr (Some v))"

definition handle_request ::
  "(nat \<Rightarrow> bool) \<Rightarrow> timespec \<Rightarrow> clock \<Rightarrow> world \<Rightarrow> char list \<Rightarrow> char list \<Rightarrow> (char list \<times> char list \<times> world) res" where
  \<comment> \<open>one iteration of \<^verbatim>\<open>handle_client_socket\<close> with \<open>bs\<close> received: reply, buffer, state\<close>
  "handle_request cal ts clk w buffer bs =
     (let buffer = read_into buffer bs in
      rbind (parsed_value (resp_parse_input buffer)) (\<lambda>value.
      rbind (process_command cal ts clk w value) (\<lambda>(response_value, w').
      rbind (resp_serialize_value BUFFER_SIZE response_value) (\<lambda>out.
        Inr (out, read_into buffer (out @ [NUL]), w')))))"

datatype received = Received "char list" | Closed | Read_error

fun handle_client_socket ::
  "(nat \<Rightarrow> bool) \<Rightarrow> world \<Rightarrow> char list \<Rightarrow> (received \<times> timespec \<times> clock) list \<Rightarrow> (char list list \<times> world) res" where
  \<comment> \<open>the replies to the successive reads of a connection; the loop ends at a close or an error\<close>
  "handle_client_socket cal w buffer [] = Inr ([], w)"
| "handle_client_socket cal w buffer ((Closed, _) # _) = Inr ([], w)"
| "handle_client_socket cal w buffer ((Read_error, _) # _) = Inr ([], w)"
| "handle_client_socket cal w buffer ((Received bs, ts, clk) # rs) =
     rbind (handle_request cal ts clk w buffer bs) (\<lambda>(out, buffer, w).
     rbind (handle_client_socket cal w buffer rs) (\<lambda>(outs, w). Inr (out # outs, w)))"

definition parse_socket_info :: "(char list \<Rightarrow> 32 word option) \<Rightarrow> char list \<Rightarrow> socket_info option" where
  "parse_socket_info inet_pton input =
     (let ipstr = takeWhile (\<lambda>c. c \<noteq> CHR '' '') input in
      if ipstr = input then None
      else case inet_pton ipstr of
          None \<Rightarrow> None
        | Some addr \<Rightarrow>
            let (ok, n) = parse_long (drop (length ipstr + 1) input) in
            if ok then Some \<lparr>ip = addr, port = ucast n\<rparr> else None)"

section \<open>Requests as clients encode them\<close>

definition request :: "char list list \<Rightarrow> resp_value" where
  "request words = RESP_array (map RESP_bulk_string words)"

lemma request_wf:
  assumes "list_all (\<lambda>s. length s < SIZE_MOD) words" and "length words * 16 < SIZE_MOD"
  shows "resp_wf (request words)"
proof -
  have "resp_wf_all (map RESP_bulk_string words)"
    using assms(1) by (induction words) auto
  with assms(2) show ?thesis by (simp add: request_def)
qed

lemma parse_request:
  assumes "resp_wf v"
  shows "resp_parse_input (read_into buffer (resp_enc v)) = Inr (v, length (resp_enc v))"
proof -
  let ?b = "read_into buffer (resp_enc v)"
  have h: "here ?b 0 (resp_enc v @ drop (length (resp_enc v)) buffer)" by (simp add: here_def read_into_def)
  have "depth v < Suc (length ?b)" using depth_le(1) [of v] by (simp add: read_into_def)
  from parse_enc [OF assms this h] show ?thesis by (simp add: resp_parse_input_def)
qed

section \<open>Properties\<close>

text \<open>
  A request that arrives whole in one read is understood whatever the buffer held before: the
  reply is the encoding of what the command processor answers to its words, if that fits the buffer.
\<close>

theorem whole_request_answered:
  assumes "list_all (\<lambda>s. length s < SIZE_MOD) words" and "length words * 16 < SIZE_MOD"
    and "process_command cal ts clk w (Some (request words)) = Inr (v, w')"
    and "length (resp_enc v) < BUFFER_SIZE"
    and "length buffer = BUFFER_SIZE" and "length (resp_enc (request words)) \<le> BUFFER_SIZE"
  shows "\<exists>buffer'. handle_request cal ts clk w buffer (resp_enc (request words)) = Inr (resp_enc v, buffer', w')"
  using assms(3,4) serialize_enc(1) [of BUFFER_SIZE v "[]"]
  by (simp add: handle_request_def Let_def parse_request [OF request_wf [OF assms(1,2)]] parsed_value_def
      resp_serialize_value_def)

theorem whole_request_answered_witness:
  "\<exists>buffer'. handle_request (\<lambda>_. True) \<lparr>tv_sec = 5, tv_nsec = 0\<rparr> (at_second 5)
      \<lparr>wtank = septic_tank_create, wlog = [], has_master = False\<rparr> (replicate BUFFER_SIZE (CHR ''9''))
      (resp_enc (request [''NOPE''])) =
    Inr (resp_enc (RESP_simple_error ''UNKNOWN COMMAND''), buffer',
      \<lparr>wtank = septic_tank_create, wlog = [], has_master = False\<rparr>)"
proof -
  let ?w = "\<lparr>wtank = septic_tank_create, wlog = [], has_master = False\<rparr>"
  have nums: "show_nat (Suc (Suc (Suc (Suc 0)))) = ''4''" "show_nat (Suc 0) = ''1''" by (simp_all add: show_nat.simps char_of_def bit_0)
  have "process_command (\<lambda>_. True) \<lparr>tv_sec = 5, tv_nsec = 0\<rparr> (at_second 5) ?w (Some (request [''NOPE''])) =
      Inr (RESP_simple_error ''UNKNOWN COMMAND'', ?w)"
    by (simp add: request_def process_command_def is_valid_bulk_string_array_command_def COMMANDS_unfold
        str_eq_ci_iff ascii_lower_def resp_create_simple_error_value_def)
  from whole_request_answered [OF _ _ this] show ?thesis
    by (simp add: c_string_def request_def nums)
qed

text \<open>
  C28: a request cut by the network is not waited for. If the first read ends inside the request, the
  parser goes on into whatever follows in the buffer; here the buffer still holds the end of
  an earlier, longer request, and the client's half-sent SET stores a value it never sent.
\<close>

theorem stale_bytes_completed:
  "\<exists>buffer' w'. handle_request (\<lambda>_. True) \<lparr>tv_sec = 5, tv_nsec = 0\<rparr> (at_second 5)
      \<lparr>wtank = septic_tank_create, wlog = [], has_master = False\<rparr>
      (resp_enc (request [''SET'', ''c'', ''old'']) @ replicate 4067 NUL)
      (take 24 (resp_enc (request [''SET'', ''c'', ''new'']))) =
    Inr (resp_enc (RESP_simple_string ''OK''), buffer', w') \<and> wlog w' = [Set_mutation ''c'' ''old'' (- 1)]"
proof -
  let ?w = "\<lparr>wtank = septic_tank_create, wlog = [], has_master = False\<rparr>"
  let ?old = "resp_enc (request [''SET'', ''c'', ''old''])"
  have nums: "show_nat 3 = ''3''" "show_nat (Suc 0) = ''1''" by (simp_all add: show_nat.simps char_of_def bit_0)
  have same: "read_into (?old @ replicate 4067 NUL) (take 24 (resp_enc (request [''SET'', ''c'', ''new'']))) =
      read_into (replicate 4096 NUL) ?old"
    using nums by (simp add: read_into_def request_def numeral_3_eq_3)
  have tk: "hashmap_get (tank_data septic_tank_create) ''c'' = None"
      "hashmap_hash (tank_data septic_tank_create) ''c'' = Some 64"
    using get_new hash_new_c by (simp_all add: septic_tank_create_def)
  have clk: "clock_ok (at_second 5 0)" by (simp add: clock_ok_def)
  have wf: "resp_wf (request [''SET'', ''c'', ''old''])" by (rule request_wf) simp_all
  have "\<exists>w'. process_command (\<lambda>_. True) \<lparr>tv_sec = 5, tv_nsec = 0\<rparr> (at_second 5) ?w (Some (request [''SET'', ''c'', ''old''])) =
      Inr (RESP_simple_string ''OK'', w') \<and> wlog w' = [Set_mutation ''c'' ''old'' (- 1)]"
    using set_absent(2) [OF clk tk, where ex = "\<lparr>etype = ST_EXPIRATION_NO_EXPIRE, ets = 0\<rparr>" and v = "''old''"
        and b = True and cal = "\<lambda>_. True"]
    by (simp add: request_def set_request septic_tank_feed_def plain_set_def set_reply_def error_reply_def
        blank_result_def septic_tank_create_def expiry_field_def set_expires_at_def resp_create_simple_string_value_def)
  then show ?thesis
    unfolding handle_request_def Let_def same parse_request [OF wf] parsed_value_def
    using resp_serialize_value_def serialize_enc(1) [of BUFFER_SIZE "RESP_simple_string ''OK''" "[]"]
    by (auto simp: c_string_def)
qed

end
