(* ===== verification/Potty_Codec.thy ===== *)
theory Potty_Codec
  imports Septic_Tank_Correct
begin

text \<open>
  The append-only file: \<^verbatim>\<open>potty_serializer.c\<close>, \<^verbatim>\<open>potty_parser.c\<close> and the replay at start-up in
  \<^verbatim>\<open>potty_trainer.c\<close>. A file being written is its contents and the room left on the device; a file
  being read is the bytes still to come and, if the device fails, the number of bytes that can be
  read before it reports an error. Numbers are little-endian as on the supported hosts.
  Strings whose length does not leave room for the 8-byte header in a \<^verbatim>\<open>size_t\<close> make the allocation
  wrap around, which is an out-of-bounds write.
\<close>

section \<open>Serializer\<close>

record out_file =
  written :: "char list"
  room :: nat

definition fwrite :: "char list \<Rightarrow> out_file \<Rightarrow> out_file res" where
  \<comment> \<open>a short write is followed by \<^verbatim>\<open>PANIC\<close> at every call\<close>
  "fwrite bs f =
     (if length bs \<le> room f then Inr (f\<lparr>written := written f @ bs, room := room f - length bs\<rparr>)
      else Inl Panic)"

fun type_tag :: "operation_type \<Rightarrow> nat" where
  "type_tag SEPTIC_TANK_SET = 0"
| "type_tag SEPTIC_TANK_DEL = 1"
| "type_tag SEPTIC_TANK_EXPIRE = 2"
| "type_tag SEPTIC_TANK_INCRBY = 3"
| "type_tag SEPTIC_TANK_GET = 4"
| "type_tag SEPTIC_TANK_TTL = 5"
| "type_tag SEPTIC_TANK_EXISTS = 6"

fun mutation_type :: "mutation \<Rightarrow> operation_type" where
  "mutation_type (Set_mutation _ _ _) = SEPTIC_TANK_SET"
| "mutation_type (Del_mutation _) = SEPTIC_TANK_DEL"
| "mutation_type (Expire_mutation _ _) = SEPTIC_TANK_EXPIRE"
| "mutation_type (Other_mutation t) = t"

definition fwrite_string :: "char list \<Rightarrow> out_file \<Rightarrow> out_file res" where
  "fwrite_string str f =
     rbind (fwrite (le_bytes 8 (length str)) f) (\<lambda>f.
       if length str = 0 then Inr f else fwrite str f)"

definition fwrite_int64 :: "int64 \<Rightarrow> out_file \<Rightarrow> out_file res" where
  "fwrite_int64 value f = fwrite (le_bytes 8 (unat value)) f"

definition fwrite_byte :: "nat \<Rightarrow> out_file \<Rightarrow> out_file res" where
  "fwrite_byte value f = fwrite [char_of value] f"

definition potty_serialize_mutation :: "out_file \<Rightarrow> mutation \<Rightarrow> out_file res" where
  "potty_serialize_mutation f mutation =
     rbind (fwrite_byte (type_tag (mutation_type mutation)) f) (\<lambda>f.
       case mutation of
         Set_mutation key value at \<Rightarrow>
           rbind (fwrite_int64 at f) (\<lambda>f.
           rbind (fwrite_string key f) (\<lambda>f.
             fwrite_string value f))
       | Del_mutation key \<Rightarrow> fwrite_string key f
       | Expire_mutation key at \<Rightarrow>
           rbind (fwrite_string key f) (\<lambda>f. fwrite_int64 at f)
       | Other_mutation _ \<Rightarrow> Inl Unreachable)"

fun get_mutation_size :: "mutation \<Rightarrow> nat res" where
  \<comment> \<open>sums of \<^verbatim>\<open>size_t\<close>\<close>
  "get_mutation_size (Del_mutation key) = Inr ((1 + 8 + length key) mod SIZE_MOD)"
| "get_mutation_size (Set_mutation key value at) =
     Inr ((1 + 8 + 8 + length key + 8 + length value) mod SIZE_MOD)"
| "get_mutation_size (Expire_mutation key at) = Inr ((1 + 8 + length key + 8) mod SIZE_MOD)"
| "get_mutation_size (Other_mutation _) = Inl Unreachable"

section \<open>Parser\<close>

record in_file =
  rest :: "char list"
  fails_after :: "nat option"

datatype read_result =
    POTTY_PARSER_OK
  | POTTY_PARSER_EOF
  | POTTY_PARSER_UNEXPECTED_EOF
  | POTTY_PARSER_READ_ERROR

text \<open>
  The reading macros return from the caller; \<open>Return\<close> carries that result. A right summand is
  normal completion, at the end of \<^verbatim>\<open>potty_parser_read\<close> \<^verbatim>\<open>POTTY_PARSER_OK\<close> with the mutation.
\<close>

datatype stop = Fault fault | Return read_result

definition fread :: "nat \<Rightarrow> bool \<Rightarrow> in_file \<Rightarrow> stop + (char list \<times> in_file)" where
  "fread n fail_on_eof f =
     (if (case fails_after f of Some k \<Rightarrow> k < n | None \<Rightarrow> False) then Inl (Return POTTY_PARSER_READ_ERROR)
      else if length (rest f) < n
      then Inl (Return (if fail_on_eof then POTTY_PARSER_UNEXPECTED_EOF else POTTY_PARSER_EOF))
      else Inr (take n (rest f), f\<lparr>rest := drop n (rest f),
             fails_after := map_option (\<lambda>k. k - n) (fails_after f)\<rparr>))"

definition fread_byte :: "bool \<Rightarrow> in_file \<Rightarrow> stop + (nat \<times> in_file)" where
  "fread_byte fail_on_eof f = rbind (fread 1 fail_on_eof f) (\<lambda>(bs, f). Inr (le_val bs, f))"

definition fread_int64 :: "bool \<Rightarrow> in_file \<Rightarrow> stop + (int64 \<times> in_file)" where
  "fread_int64 fail_on_eof f = rbind (fread 8 fail_on_eof f) (\<lambda>(bs, f). Inr (of_nat (le_val bs), f))"

definition fread_string :: "bool \<Rightarrow> in_file \<Rightarrow> stop + (char list \<times> in_file)" where
  "fread_string fail_on_eof f =
     rbind (fread 8 fail_on_eof f) (\<lambda>(bs, f).
       let len = le_val bs in
       if SIZE_MOD \<le> 8 + len then Inl (Fault OutOfBounds)
       else if 0 < len then fread len True f
       else Inr ([], f))"

definition potty_parser_read :: "in_file \<Rightarrow> stop + (mutation \<times> in_file)" where
  "potty_parser_read f =
     rbind (fread_byte False f) (\<lambda>(ty, f).
       if ty = type_tag SEPTIC_TANK_SET then
         rbind (fread_int64 True f) (\<lambda>(at, f).
         rbind (fread_string True f) (\<lambda>(key, f).
         rbind (fread_string True f) (\<lambda>(value, f).
           Inr (Set_mutation key value at, f))))
       else if ty = type_tag SEPTIC_TANK_DEL then
         rbind (fread_string True f) (\<lambda>(key, f).
           Inr (Del_mutation key, f))
       else if ty = type_tag SEPTIC_TANK_EXPIRE then
         rbind (fread_string True f) (\<lambda>(key, f).
         rbind (fread_int64 True f) (\<lambda>(at, f).
           Inr (Expire_mutation key at, f)))
       else Inl (Fault Unreachable))"

section \<open>Replay\<close>

lemma fread_shrinks: "fread n b f = Inr (bs, f') \<Longrightarrow> length (rest f') + n = length (rest f)"
  by (auto simp: fread_def split: if_splits)

lemma fread_int64_shrinks: "fread_int64 b f = Inr (v, f') \<Longrightarrow> length (rest f') \<le> length (rest f)"
  by (auto simp: fread_int64_def rbind_eq_Inr_iff dest!: fread_shrinks)

lemma fread_string_shrinks: "fread_string b f = Inr (v, f') \<Longrightarrow> length (rest f') \<le> length (rest f)"
  by (auto simp: fread_string_def rbind_eq_Inr_iff Let_def split: if_splits dest!: fread_shrinks)

lemma parser_read_shrinks:
  assumes "potty_parser_read f = Inr (r, f')"
  shows "length (rest f') < length (rest f)"
proof -
  from assms obtain ty f1 where b: "fread_byte False f = Inr (ty, f1)"
    by (auto simp: potty_parser_read_def rbind_eq_Inr_iff)
  then have "length (rest f1) < length (rest f)"
    by (auto simp: fread_byte_def rbind_eq_Inr_iff dest!: fread_shrinks)
  moreover have "length (rest f') \<le> length (rest f1)"
    using assms b
    by (auto simp: potty_parser_read_def rbind_eq_Inr_iff split: if_splits
        dest!: fread_int64_shrinks fread_string_shrinks)
  ultimately show ?thesis by simp
qed

text \<open>
  The loop of \<^verbatim>\<open>potty_trainer_train\<close>: the store and the number of commands processed. Every
  iteration reads at least the tag, so the loop ends on every finite file.
\<close>

function train_loop ::
  "(nat \<Rightarrow> bool) \<Rightarrow> store \<Rightarrow> nat \<Rightarrow> in_file \<Rightarrow> (store \<times> nat) res" where
  "train_loop cal m count f =
     (case potty_parser_read f of
        Inl (Fault e) \<Rightarrow> Inl e
      | Inl (Return result) \<Rightarrow> if result = POTTY_PARSER_EOF then Inr (m, count) else Inl Panic
      | Inr (mutation, f') \<Rightarrow>
          rbind (septic_tank_apply_mutation cal m mutation) (\<lambda>m'.
            train_loop cal m' ((count + 1) mod SIZE_MOD) f'))"
  by pat_completeness auto
termination
  by (relation "measure (\<lambda>(cal, m, count, f). length (rest f))") (auto dest: parser_read_shrinks)

declare train_loop.simps [simp del]

datatype open_result = Opened in_file | Not_found | Open_failed

fun potty_trainer_train :: "(nat \<Rightarrow> bool) \<Rightarrow> store \<Rightarrow> open_result \<Rightarrow> (store \<times> nat) res" where
  "potty_trainer_train cal m Not_found = Inr (m, 0)"
| "potty_trainer_train cal m Open_failed = Inl Panic"
| "potty_trainer_train cal m (Opened f) = train_loop cal m 0 f"

section \<open>Codes\<close>

abbreviation reading :: "char list \<Rightarrow> in_file" where
  "reading bs \<equiv> \<lparr>rest = bs, fails_after = None\<rparr>"

text \<open>
  What the layers of the format promise to each other: a decoder reads back what was encoded,
  whatever follows, and recognises every truncated encoding.
\<close>

locale prefix_code =
  fixes enc :: "'a \<Rightarrow> char list"
    and dec :: "in_file \<Rightarrow> stop + ('a \<times> in_file)"
    and ok :: "'a \<Rightarrow> bool"
    and at_end :: read_result
  assumes reads: "ok x \<Longrightarrow> dec (reading (enc x @ ys)) = Inr (x, reading ys)"
    and torn: "ok x \<Longrightarrow> p @ q = enc x \<Longrightarrow> p \<noteq> [] \<Longrightarrow> q \<noteq> [] \<Longrightarrow>
      dec (reading p) = Inl (Return POTTY_PARSER_UNEXPECTED_EOF)"
    and empty: "dec (reading []) = Inl (Return at_end)"
begin

lemma reads_all: "ok x \<Longrightarrow> dec (reading (enc x)) = Inr (x, reading [])"
  using reads [of x "[]"] by simp

lemma torn_any: "at_end = POTTY_PARSER_UNEXPECTED_EOF \<Longrightarrow> ok x \<Longrightarrow> p @ q = enc x \<Longrightarrow> q \<noteq> [] \<Longrightarrow>
    dec (reading p) = Inl (Return POTTY_PARSER_UNEXPECTED_EOF)"
  using torn [of x p q] empty by (cases p) auto

lemma unambiguous: "ok x \<Longrightarrow> ok y \<Longrightarrow> enc x @ xs = enc y @ ys \<Longrightarrow> x = y \<and> xs = ys"
  using reads [of x xs] reads [of y ys] by (metis in_file.ext_inject old.sum.inject(2) prod.inject)

end

lemma reading_record [simp]:
  "rest (reading bs) = bs" "fails_after (reading bs) = None" "(reading bs)\<lparr>rest := cs\<rparr> = reading cs"
  by simp_all

lemma fread_exact [codec_simps]: "length xs = n \<Longrightarrow> fread n b (reading (xs @ ys)) = Inr (xs, reading ys)"
  by (simp add: fread_def)

lemma fread_short: "length xs < n \<Longrightarrow>
    fread n b (reading xs) = Inl (Return (if b then POTTY_PARSER_UNEXPECTED_EOF else POTTY_PARSER_EOF))"
  by (simp add: fread_def)

definition enc_int64 :: "int64 \<Rightarrow> char list" where
  "enc_int64 v = le_bytes 8 (unat v)"

definition enc_string :: "char list \<Rightarrow> char list" where
  "enc_string s = le_bytes 8 (length s) @ s"

definition string_fits :: "char list \<Rightarrow> bool" where
  "string_fits s \<longleftrightarrow> 8 + length s < SIZE_MOD"

lemma proper_prefix_less: "p @ q = xs \<Longrightarrow> q \<noteq> [] \<Longrightarrow> length p < length xs"
  by auto

interpretation i64: prefix_code enc_int64 "fread_int64 True" "\<lambda>_. True" POTTY_PARSER_UNEXPECTED_EOF
proof (unfold_locales, goal_cases)
  case (1 x ys)
  have "unat x < 2 ^ LENGTH(64)" by (rule unsigned_less)
  then have "unat x < 256 ^ 8" by simp
  then show ?case
    by (simp add: fread_int64_def enc_int64_def codec_simps le_val_le_bytes)
next
  case (2 x p q)
  have "length (enc_int64 x) = 8" by (simp add: enc_int64_def)
  then show ?case
    using proper_prefix_less [OF 2(2,4)] by (simp add: fread_int64_def fread_short)
next
  case 3
  show ?case by (simp add: fread_int64_def fread_short)
qed

lemma le_val_length: "string_fits s \<Longrightarrow> le_val (le_bytes 8 (length s)) = length s"
  by (simp add: le_val_le_bytes string_fits_def)

interpretation str: prefix_code enc_string "fread_string True" string_fits POTTY_PARSER_UNEXPECTED_EOF
proof (unfold_locales, goal_cases)
  case (1 x ys)
  then show ?case
    by (cases x) (auto simp: fread_string_def enc_string_def fread_exact le_val_length string_fits_def
        le_val_le_bytes Let_def fread_exact [where xs = "_ # _", simplified])
next
  case (2 x p q)
  show ?case
  proof (cases "length p < 8")
    case True
    then show ?thesis by (simp add: fread_string_def fread_short)
  next
    case False
    have t: "take 8 (p @ q) = le_bytes 8 (length x)" "drop 8 (p @ q) = x"
      using 2(2) by (simp_all add: enc_string_def)
    obtain s where "p = take 8 p @ s" and "s = drop 8 p" by simp
    with t False have p: "p = le_bytes 8 (length x) @ s" and x: "s @ q = x" by simp_all
    then have "length s < length x" using 2(4) by auto
    with 2(1) show ?thesis
      by (auto simp: p fread_string_def fread_exact le_val_length string_fits_def fread_short Let_def)
  qed
next
  case 3
  show ?case by (simp add: fread_string_def fread_short)
qed

section \<open>Records\<close>

fun enc_mutation :: "mutation \<Rightarrow> char list" where
  "enc_mutation (Set_mutation key value at) =
     [char_of (0 :: nat)] @ enc_int64 at @ enc_string key @ enc_string value"
| "enc_mutation (Del_mutation key) = [char_of (1 :: nat)] @ enc_string key"
| "enc_mutation (Expire_mutation key at) = [char_of (2 :: nat)] @ enc_string key @ enc_int64 at"
| "enc_mutation (Other_mutation _) = []"

fun mutation_ok :: "mutation \<Rightarrow> bool" where
  \<comment> \<open>a persisted mutation whose strings fit in memory with their length field\<close>
  "mutation_ok (Set_mutation key value at) = (string_fits key \<and> string_fits value)"
| "mutation_ok (Del_mutation key) = string_fits key"
| "mutation_ok (Expire_mutation key at) = string_fits key"
| "mutation_ok (Other_mutation _) = False"

lemma seq_torn:
  assumes "p @ q = a @ b" and "q \<noteq> []"
    and "\<And>ys. P (reading (a @ ys)) = Inr (x, reading ys)"
    and "\<And>p q. p @ q = a \<Longrightarrow> q \<noteq> [] \<Longrightarrow> P (reading p) = Inl e"
    and "\<And>p q. p @ q = b \<Longrightarrow> q \<noteq> [] \<Longrightarrow> Q x (reading p) = Inl e"
  shows "rbind (P (reading p)) (\<lambda>(v, f). Q v f) = Inl e"
proof (cases "length p < length a")
  case True
  then obtain q' where "p @ q' = a" "q' \<noteq> []"
    using assms(1) by (metis append_eq_append_conv_if append_take_drop_id drop_eq_Nil leD less_imp_le)
  then show ?thesis by (simp add: assms(4))
next
  case False
  then have "take (length a) (p @ q) = a" "drop (length a) (p @ q) = b"
    using assms(1) by simp_all
  with False have a: "take (length a) p = a" and b: "drop (length a) p @ q = b"
    by simp_all
  from append_take_drop_id [of "length a" p] have "p = a @ drop (length a) p"
    by (simp only: a)
  then have "P (reading p) = Inr (x, reading (drop (length a) p))"
    by (metis assms(3))
  then show ?thesis by (simp add: assms(5) [OF b assms(2)])
qed

lemma byte_reads [codec_simps]: "fread_byte b (reading (c # ys)) = Inr (of_char c, reading ys)"
  using fread_exact [of "[c]" 1 b ys] by (simp add: fread_byte_def)

lemmas i64_torn = i64.torn_any [OF refl TrueI]
lemmas str_torn = str.torn_any [OF refl]

lemma two_strings_torn:
  assumes "string_fits k" "string_fits v" "p @ q = enc_string k @ enc_string v" "q \<noteq> []"
  shows "rbind (fread_string True (reading p)) (\<lambda>(key, f). rbind (fread_string True f) (\<lambda>(value, f). Inr (g key value, f))) =
    Inl (Return POTTY_PARSER_UNEXPECTED_EOF)"
  by (rule seq_torn [OF assms(3,4) str.reads [OF assms(1)] str_torn [OF assms(1)]])
    (simp_all add: str_torn [OF assms(2)])

interpretation rec: prefix_code enc_mutation potty_parser_read mutation_ok POTTY_PARSER_EOF
proof (unfold_locales, goal_cases)
  case (1 x ys)
  then show ?case
    by (cases x) (auto simp: potty_parser_read_def byte_reads i64.reads str.reads)
next
  case (2 x p q)
  then obtain c p' where p: "p = c # p'" by (cases p) auto
  show ?case
  proof (cases x)
    case (Set_mutation k v at)
    then have fits: "string_fits k" "string_fits v" and eq: "p' @ q = enc_int64 at @ enc_string k @ enc_string v"
      and c: "c = char_of (0 :: nat)"
      using 2 p by auto
    have "rbind (fread_int64 True (reading p')) (\<lambda>(at, f). rbind (fread_string True f) (\<lambda>(key, f).
        rbind (fread_string True f) (\<lambda>(value, f). Inr (Set_mutation key value at, f)))) =
        Inl (Return POTTY_PARSER_UNEXPECTED_EOF)"
      by (rule seq_torn [OF eq 2(4) i64.reads [OF TrueI] i64_torn]) (simp_all add: two_strings_torn [OF fits])
    then show ?thesis by (simp add: p c potty_parser_read_def byte_reads)
  next
    case (Del_mutation k)
    then have "string_fits k" "p' @ q = enc_string k" "c = char_of (1 :: nat)"
      using 2 p by auto
    then show ?thesis
      using str_torn [of k p' q] 2(4) by (simp add: p potty_parser_read_def byte_reads)
  next
    case (Expire_mutation k at)
    then have fits: "string_fits k" and eq: "p' @ q = enc_string k @ enc_int64 at" and c: "c = char_of (2 :: nat)"
      using 2 p by auto
    have "rbind (fread_string True (reading p')) (\<lambda>(key, f). rbind (fread_int64 True f)
        (\<lambda>(at, f). Inr (Expire_mutation key at, f))) = Inl (Return POTTY_PARSER_UNEXPECTED_EOF)"
      by (rule seq_torn [OF eq 2(4) str.reads [OF fits] str_torn [OF fits]]) (simp_all add: i64_torn)
    then show ?thesis by (simp add: p c potty_parser_read_def byte_reads)
  next
    case (Other_mutation t)
    then show ?thesis using 2(1) by simp
  qed
next
  case 3
  show ?case by (simp add: potty_parser_read_def fread_byte_def fread_short)
qed

section \<open>Files\<close>

lemma le_bytes_numeral:
  "le_bytes (numeral k) n = char_of (n mod 256) # le_bytes (pred_numeral k) (n div 256)"
  unfolding numeral_eq_Suc [of k] by simp

lemma fwrite_room: "length bs \<le> room f \<Longrightarrow>
    fwrite bs f = Inr \<lparr>written = written f @ bs, room = room f - length bs\<rparr>"
  by (cases f) (simp add: fwrite_def)

lemma fwrite_string_room: "length (enc_string s) \<le> room f \<Longrightarrow>
    fwrite_string s f = Inr \<lparr>written = written f @ enc_string s, room = room f - length (enc_string s)\<rparr>"
  by (cases s) (simp_all add: fwrite_string_def enc_string_def fwrite_room)

lemma length_enc_int64 [simp]: "length (enc_int64 v) = 8"
  by (simp add: enc_int64_def)

lemma length_enc_string [simp]: "length (enc_string s) = 8 + length s"
  by (simp add: enc_string_def)

lemma serialize_ok:
  assumes "mutation_ok mu" and "length (enc_mutation mu) \<le> room f"
  shows "potty_serialize_mutation f mu =
    Inr \<lparr>written = written f @ enc_mutation mu, room = room f - length (enc_mutation mu)\<rparr>"
proof -
  have w8: "fwrite (enc_int64 v) g = Inr \<lparr>written = written g @ enc_int64 v, room = room g - 8\<rparr>"
    if "8 \<le> room g" for v g
    using fwrite_room [of "enc_int64 v" g] that by simp
  show ?thesis
    using assms
    by (cases mu) (simp_all add: potty_serialize_mutation_def fwrite_byte_def fwrite_room
        fwrite_string_room fwrite_int64_def enc_int64_def [symmetric] w8)
qed

fun serialize_all :: "out_file \<Rightarrow> mutation list \<Rightarrow> out_file res" where
  \<comment> \<open>the loop of \<^verbatim>\<open>perform_flush\<close>\<close>
  "serialize_all f [] = Inr f"
| "serialize_all f (mu # mus) = rbind (potty_serialize_mutation f mu) (\<lambda>f. serialize_all f mus)"

lemma serialize_all_ok:
  "list_all mutation_ok mus \<Longrightarrow> length (concat (map enc_mutation mus)) \<le> room f \<Longrightarrow>
     serialize_all f mus = Inr \<lparr>written = written f @ concat (map enc_mutation mus),
       room = room f - length (concat (map enc_mutation mus))\<rparr>"
  by (induction mus arbitrary: f) (simp_all add: serialize_ok)

lemma fwrite_short: "\<not> length bs \<le> room f \<Longrightarrow> fwrite bs f = Inl Panic"
  by (simp add: fwrite_def)

lemma serialize_written:
  assumes "potty_serialize_mutation f mu = Inr f'"
  shows "written f' = written f @ enc_mutation mu"
  using assms
  by (cases mu) (auto simp: potty_serialize_mutation_def fwrite_byte_def fwrite_int64_def fwrite_string_def
      fwrite_def enc_string_def enc_int64_def rbind_eq_Inr_iff split: if_splits)

lemma serialize_all_written:
  "serialize_all f mus = Inr f' \<Longrightarrow>
     written f' = written f @ concat (map enc_mutation mus)"
proof (induction mus arbitrary: f)
  case (Cons mu mus)
  then obtain f1 where "potty_serialize_mutation f mu = Inr f1" "serialize_all f1 mus = Inr f'"
    by (auto simp: rbind_eq_Inr_iff)
  with Cons show ?case using serialize_written [of f mu f1] by simp
qed simp

lemma train_step:
  assumes "mutation_ok mu"
  shows "train_loop cal m n (reading (enc_mutation mu @ ys)) =
    rbind (septic_tank_apply_mutation cal m mu) (\<lambda>m'. train_loop cal m' ((n + 1) mod SIZE_MOD) (reading ys))"
  by (subst train_loop.simps) (simp add: rec.reads [OF assms])

lemma train_records:
  "list_all mutation_ok mus \<Longrightarrow> n + length mus < SIZE_MOD \<Longrightarrow>
     train_loop cal m n (reading (concat (map enc_mutation mus) @ ys)) =
       rbind (replay_mutations cal m mus) (\<lambda>m'. train_loop cal m' (n + length mus) (reading ys))"
proof (induction mus arbitrary: m n)
  case (Cons mu mus)
  then have IH: "train_loop cal m' (Suc n) (reading (concat (map enc_mutation mus) @ ys)) =
      rbind (replay_mutations cal m' mus) (\<lambda>m'. train_loop cal m' (n + length (mu # mus)) (reading ys))" for m'
    using Cons.IH [of "Suc n" m'] by simp
  show ?case
    using Cons.prems train_step [of mu cal m n "concat (map enc_mutation mus) @ ys"]
    by (cases "septic_tank_apply_mutation cal m mu")
      (simp_all add: septic_tank_replay_mutation_def IH)
qed simp

lemma train_empty: "train_loop cal m n (reading []) = Inr (m, n)"
  by (subst train_loop.simps) (simp add: rec.empty)

lemma train_torn:
  assumes "mutation_ok mu" and "p @ q = enc_mutation mu" and "p \<noteq> []" and "q \<noteq> []"
  shows "train_loop cal m n (reading p) = Inl Panic"
  by (subst train_loop.simps) (simp add: rec.torn [OF assms])

section \<open>Properties\<close>

text \<open>
  Every persisted mutation is read back from its record as itself, with the rest of the file
  left to read, whatever follows the record; the record has the size that \<^verbatim>\<open>get_mutation_size\<close> computes
  (which sums in \<^verbatim>\<open>size_t\<close>).
\<close>

lemma aof_record_roundtrip:
  assumes "mutation_ok mu" and "potty_serialize_mutation \<lparr>written = [], room = n\<rparr> mu = Inr f"
  shows "potty_parser_read \<lparr>rest = written f @ ys, fails_after = None\<rparr> =
      Inr (mu, \<lparr>rest = ys, fails_after = None\<rparr>) \<and>
    get_mutation_size mu = Inr (length (written f) mod SIZE_MOD)"
proof -
  have w: "written f = enc_mutation mu" using serialize_written [OF assms(2)] by simp
  have "get_mutation_size mu = Inr (length (enc_mutation mu) mod SIZE_MOD)"
    using assms(1) by (cases mu) (simp_all add: ac_simps)
  then show ?thesis using rec.reads [OF assms(1)] by (simp add: w)
qed

text \<open>
  C15: replaying a file that was written mutation by mutation applies exactly these mutations, in
  order, and counts them; in particular it always reaches the end of the file.
\<close>

theorem train_replays_log:
  assumes "list_all mutation_ok mus" and "length mus < SIZE_MOD"
    and "serialize_all \<lparr>written = [], room = n\<rparr> mus = Inr f"
  shows "potty_trainer_train cal m (Opened \<lparr>rest = written f, fails_after = None\<rparr>) =
    rbind (replay_mutations cal m mus) (\<lambda>m'. Inr (m', length mus))"
  using train_records [OF assms(1), of 0 cal m "[]"] assms(2) serialize_all_written [OF assms(3)]
  by (simp add: train_empty)

theorem train_replays_log_witness:
  "\<exists>f. serialize_all \<lparr>written = [], room = 1000\<rparr> [Set_mutation ''c'' ''v'' 2000, Del_mutation ''c''] = Inr f \<and>
     potty_trainer_train (\<lambda>_. True) hashmap_new (Opened \<lparr>rest = written f, fails_after = None\<rparr>) =
       rbind (replay_mutations (\<lambda>_. True) hashmap_new [Set_mutation ''c'' ''v'' 2000, Del_mutation ''c''])
         (\<lambda>m'. Inr (m', 2))"
proof -
  let ?mus = "[Set_mutation ''c'' ''v'' 2000, Del_mutation ''c'']"
  have ok: "list_all mutation_ok ?mus" "length ?mus < SIZE_MOD" by (simp_all add: string_fits_def)
  obtain f where f: "serialize_all \<lparr>written = [], room = 1000\<rparr> ?mus = Inr f"
    using serialize_all_ok [OF ok(1), of "\<lparr>written = [], room = 1000\<rparr>"] by simp
  with train_replays_log [OF ok f, of "\<lambda>_. True" hashmap_new] show ?thesis
    by (simp del: serialize_all.simps replay_mutations.simps add: numeral_2_eq_2)
qed

text \<open>
  C25: a log cut inside a record, as a crash during a write leaves it, is never silently
  accepted: if the complete records replay, start-up then ends in \<^verbatim>\<open>PANIC\<close>.
\<close>

theorem train_torn_log_panics:
  assumes "list_all mutation_ok mus" and "mutation_ok mu" and "length mus < SIZE_MOD"
    and "serialize_all \<lparr>written = [], room = n\<rparr> mus = Inr f"
    and "potty_serialize_mutation f mu = Inr g" and "written g = written f @ p @ q"
    and "p \<noteq> []" and "q \<noteq> []" and "replay_mutations cal m mus = Inr m'"
  shows "potty_trainer_train cal m (Opened \<lparr>rest = written f @ p, fails_after = None\<rparr>) = Inl Panic"
proof -
  have "p @ q = enc_mutation mu"
    using serialize_written [OF assms(5)] assms(6) by simp
  then show ?thesis
    using train_records [OF assms(1), of 0 cal m p] assms(3,9) serialize_all_written [OF assms(4)]
      train_torn [OF assms(2) _ assms(7,8)]
    by simp
qed

theorem train_torn_log_panics_witness:
  "potty_trainer_train (\<lambda>_. True) hashmap_new
     (Opened \<lparr>rest = [char_of (1 :: nat), char_of (1 :: nat)], fails_after = None\<rparr>) = Inl Panic"
proof -
  let ?f = "\<lparr>written = [], room = 50\<rparr>"
  let ?mu = "Del_mutation ''c''"
  let ?p = "[char_of (1 :: nat), char_of (1 :: nat)]"
  let ?z = "char_of (0 :: nat)"
  let ?q = "[?z, ?z, ?z, ?z, ?z, ?z, ?z] @ ''c''"
  have ok: "mutation_ok ?mu" by (simp add: string_fits_def)
  obtain g where g: "potty_serialize_mutation ?f ?mu = Inr g" "written g = enc_mutation ?mu"
    using serialize_ok [OF ok, of ?f] by simp
  have "enc_mutation ?mu = ?p @ ?q"
    by (simp add: enc_string_def le_bytes_numeral)
  then have w: "written g = written ?f @ ?p @ ?q" using g(2) by simp
  have "potty_trainer_train (\<lambda>_. True) hashmap_new (Opened \<lparr>rest = written ?f @ ?p, fails_after = None\<rparr>) = Inl Panic"
    by (rule train_torn_log_panics [where mus = "[]" and n = 50, OF _ ok _ _ g(1) w]) simp_all
  then show ?thesis by simp
qed

end
