(* ===== verification/Hector.thy ===== *)
theory Hector
  imports Prelude
begin

text \<open>
  The growable array of \<^verbatim>\<open>aids.c\<close>. A hector is its capacity, its length, whether an arena
  owns its memory, and the memory itself as a list of element slots (\<open>None\<close> is a slot that
  holds no initialised element). Every read and write of memory is checked against the slots
  that were allocated: leaving them is the fault \<open>OutOfBounds\<close>. The lemmas relate each
  operation to the list of elements, and say exactly when \<^verbatim>\<open>hector_splice\<close> leaves its memory.
\<close>

section \<open>State and operations\<close>

record 'a hector =
  capacity :: nat
  len :: nat
  mem :: "'a option list"
  in_arena :: bool

definition hector_create :: "bool \<Rightarrow> nat \<Rightarrow> 'a hector" where
  "hector_create arena init_size =
     \<lparr>capacity = init_size, len = 0, mem = replicate init_size None, in_arena = arena\<rparr>"

definition hector_resize :: "'a hector \<Rightarrow> nat \<Rightarrow> 'a hector res" where
  "hector_resize hec new_capacity =
     (if in_arena hec then
        (if len hec \<le> new_capacity \<and> len hec \<le> length (mem hec)
         then Inr (hec\<lparr>mem := take (len hec) (mem hec) @ replicate (new_capacity - len hec) None,
                       capacity := new_capacity\<rparr>)
         else Inl OutOfBounds)
      else Inr (hec\<lparr>mem := take new_capacity (mem hec) @
                      replicate (new_capacity - length (mem hec)) None,
                    capacity := new_capacity\<rparr>))"

definition hector_push :: "'a hector \<Rightarrow> 'a \<Rightarrow> 'a hector res" where
  "hector_push hec item =
     rbind (if capacity hec = len hec then hector_resize hec (capacity hec * 2) else Inr hec)
       (\<lambda>h. if len h < length (mem h)
            then Inr (h\<lparr>mem := (mem h)[len h := Some item], len := len h + 1\<rparr>)
            else Inl OutOfBounds)"

definition try_shrink :: "'a hector \<Rightarrow> 'a hector res" where
  "try_shrink hec =
     (if len hec < capacity hec div 3 then hector_resize hec (capacity hec div 2) else Inr hec)"

definition hector_get :: "'a hector \<Rightarrow> nat \<Rightarrow> 'a option res" where
  \<comment> \<open>\<open>None\<close> is the null pointer\<close>
  "hector_get hec n =
     (if n \<ge> len hec then Inr None
      else if n < length (mem hec) then Inr (mem hec ! n) else Inl OutOfBounds)"

definition hector_pop :: "'a hector \<Rightarrow> ('a option \<times> 'a hector) res" where
  "hector_pop hec =
     rbind (hector_get hec (size_sub (len hec) 1)) (\<lambda>value.
     rbind (try_shrink (hec\<lparr>len := size_sub (len hec) 1\<rparr>)) (\<lambda>h. Inr (value, h)))"

definition slots_move :: "'b list \<Rightarrow> nat \<Rightarrow> nat \<Rightarrow> nat \<Rightarrow> 'b list res" where
  \<comment> \<open>\<^verbatim>\<open>memmove\<close> of \<open>n\<close> whole elements inside one block\<close>
  "slots_move xs dst src n =
     (if src + n \<le> length xs \<and> dst + n \<le> length xs
      then Inr (take dst xs @ take n (drop src xs) @ drop (dst + n) xs)
      else Inl OutOfBounds)"

definition hector_splice :: "'a hector \<Rightarrow> nat \<Rightarrow> nat \<Rightarrow> 'a hector res" where
  "hector_splice hec n count =
     (if n + count > capacity hec \<or> count = 0 then Inr hec
      else
        rbind (if n \<noteq> size_sub (len hec) count
               then slots_move (mem hec) n (n + count) (size_sub (len hec + count) n)
               else Inr (mem hec))
          (\<lambda>m. try_shrink (hec\<lparr>mem := m, len := size_sub (len hec) count\<rparr>)))"

definition hector_size :: "'a hector \<Rightarrow> nat" where
  "hector_size hec = len hec"

section \<open>Well-formed hectors and their elements\<close>

definition hector_wf :: "'a hector \<Rightarrow> bool" where
  "hector_wf h \<longleftrightarrow> len h \<le> capacity h \<and> length (mem h) = capacity h \<and>
     list_all (\<lambda>s. s \<noteq> None) (take (len h) (mem h))"

definition elems :: "'a hector \<Rightarrow> 'a list" where
  "elems h = map the (take (len h) (mem h))"

lemma hector_wf_create [simp]: "hector_wf (hector_create a n)"
  by (simp add: hector_wf_def hector_create_def)

lemma elems_create [simp]: "elems (hector_create a n) = []"
  by (simp add: elems_def hector_create_def)

lemma length_elems: "hector_wf h \<Longrightarrow> length (elems h) = len h"
  by (simp add: elems_def hector_wf_def)

lemma hector_resize_ok:
  assumes "hector_wf h" and "len h \<le> c"
  shows "\<exists>h'. hector_resize h c = Inr h' \<and> hector_wf h' \<and> elems h' = elems h \<and>
    capacity h' = c \<and> len h' = len h \<and> in_arena h' = in_arena h"
  using assms
  by (auto simp: hector_resize_def hector_wf_def elems_def min_def take_map list_all_length
      nth_append)

lemma try_shrink_ok:
  assumes "hector_wf h"
  shows "\<exists>h'. try_shrink h = Inr h' \<and> hector_wf h' \<and> elems h' = elems h \<and> len h' = len h \<and>
    (0 < capacity h \<longrightarrow> 0 < capacity h') \<and> in_arena h' = in_arena h"
proof (cases "len h < capacity h div 3")
  case True
  then have "len h \<le> capacity h div 2" and "0 < capacity h div 2" by linarith+
  with True show ?thesis
    using hector_resize_ok [OF assms, of "capacity h div 2"] by (auto simp: try_shrink_def)
next
  case False
  with assms show ?thesis by (auto simp: try_shrink_def)
qed

lemma push_room:
  assumes "hector_wf h" and "len h < capacity h"
  shows "\<exists>h'. (if len h < length (mem h)
               then Inr (h\<lparr>mem := (mem h)[len h := Some x], len := len h + 1\<rparr>)
               else Inl OutOfBounds) = Inr h' \<and> hector_wf h' \<and> elems h' = elems h @ [x] \<and>
    0 < capacity h' \<and> in_arena h' = in_arena h"
  using assms
  by (auto simp: hector_wf_def elems_def take_Suc_conv_app_nth)

lemma hector_push_ok:
  assumes "hector_wf h" and "0 < capacity h"
  shows "\<exists>h'. hector_push h x = Inr h' \<and> hector_wf h' \<and> elems h' = elems h @ [x] \<and>
    0 < capacity h' \<and> in_arena h' = in_arena h"
proof (cases "capacity h = len h")
  case True
  obtain g where g: "hector_resize h (capacity h * 2) = Inr g" "hector_wf g"
      "elems g = elems h" "capacity g = capacity h * 2" "len g = len h" "in_arena g = in_arena h"
    using hector_resize_ok [OF assms(1), of "capacity h * 2"] True by auto
  with True assms(2) show ?thesis
    using push_room [of g x] by (simp add: hector_push_def)
next
  case False
  with assms show ?thesis
    using push_room [of h x] by (auto simp: hector_push_def hector_wf_def)
qed

lemma hector_get_ok:
  assumes "hector_wf h"
  shows "hector_get h n = Inr (if n < length (elems h) then Some (elems h ! n) else None)"
  using assms
  by (auto simp: hector_get_def length_elems hector_wf_def elems_def list_all_length)

lemma splice_moved:
  assumes "hector_wf h" and "n + c \<le> len h" and "slots_move (mem h) n (n + c) (len h - n + c) = Inr m"
  shows "hector_wf (h\<lparr>mem := m, len := len h - c\<rparr>) \<and>
    elems (h\<lparr>mem := m, len := len h - c\<rparr>) = take n (elems h) @ drop (n + c) (elems h)"
proof -
  let ?xs = "mem h"
  from assms(3) have fit: "n + c + (len h - n + c) \<le> length ?xs"
    and m: "m = take n ?xs @ take (len h - n + c) (drop (n + c) ?xs) @ drop (n + (len h - n + c)) ?xs"
    by (auto simp: slots_move_def split: if_splits)
  have pre: "take (len h - c) m = take n ?xs @ take (len h - c - n) (drop (n + c) ?xs)"
  proof -
    obtain d where d: "len h = n + c + d" using assms(2) le_Suc_ex by blast
    show ?thesis using fit by (auto simp: m d min_def)
  qed
  have "take (len h - c - n) (drop (n + c) ?xs) = drop (n + c) (take (len h) ?xs)"
    using assms(2) by (simp add: drop_take add.commute)
  moreover have "take n ?xs = take n (take (len h) ?xs)"
    using assms(2) by (simp add: min_def)
  ultimately have pre': "take (len h - c) m = take n (take (len h) ?xs) @ drop (n + c) (take (len h) ?xs)"
    using pre by simp
  have "length m = length ?xs"
    using fit by (simp add: m)
  then show ?thesis
    using assms(1,2) pre' set_take_subset_set_take [of n "len h" "mem h"]
    by (auto simp: hector_wf_def elems_def take_map drop_map list_all_iff
        dest: in_set_takeD in_set_dropD)
qed

lemma splice_tail:
  assumes "hector_wf h" and "n + c = len h"
  shows "hector_wf (h\<lparr>len := n\<rparr>) \<and> elems (h\<lparr>len := n\<rparr>) = take n (elems h) @ drop (n + c) (elems h)"
  using assms
  by (auto simp: hector_wf_def elems_def min_def list_all_iff take_map [symmetric]
      dest: in_set_takeD)
    (metis (no_types) le_add1 list.set_intros(1) min_def set_take_subset_set_take subsetD)+

text \<open>
  A splice inside the elements moves one run of slots too long: \<open>len - n + count\<close> elements
  where \<open>len - n - count\<close> remain. The surplus is harmless while the block has room for it and
  leaves the block otherwise.
\<close>

lemma hector_splice_ok:
  assumes wf: "hector_wf h" and inside: "n + c \<le> len h" and c: "0 < c"
    and room: "n + c = len h \<or> len h + 2 * c \<le> capacity h"
  shows "\<exists>h'. hector_splice h n c = Inr h' \<and> hector_wf h' \<and>
    elems h' = take n (elems h) @ drop (n + c) (elems h) \<and>
    (0 < capacity h \<longrightarrow> 0 < capacity h') \<and> in_arena h' = in_arena h"
proof (cases "n + c = len h")
  case True
  have "capacity h \<ge> n + c" using wf inside by (simp add: hector_wf_def)
  with True c show ?thesis
    using try_shrink_ok [of "h\<lparr>len := n\<rparr>"] splice_tail [OF wf True]
    by (auto simp: hector_splice_def)
next
  case False
  have cap: "capacity h \<ge> n + c" using wf inside by (simp add: hector_wf_def)
  from False room have room': "len h + 2 * c \<le> capacity h" by simp
  have ne: "n \<noteq> len h - c" using False inside by linarith
  obtain m where m: "slots_move (mem h) n (n + c) (len h - n + c) = Inr m"
    using wf room' inside by (simp add: slots_move_def hector_wf_def)
  show ?thesis
    using try_shrink_ok [of "h\<lparr>mem := m, len := len h - c\<rparr>"] splice_moved [OF wf inside m]
      cap c ne inside m
    by (auto simp: hector_splice_def)
qed

lemma hector_splice_overrun:
  assumes wf: "hector_wf h" and inside: "n + c < len h" and c: "0 < c"
    and tight: "capacity h < len h + 2 * c"
  shows "hector_splice h n c = Inl OutOfBounds"
proof -
  have "capacity h \<ge> n + c" and "n \<noteq> len h - c"
    using wf inside by (auto simp: hector_wf_def)
  moreover have "slots_move (mem h) n (n + c) (len h - n + c) = Inl OutOfBounds"
    using wf inside tight by (auto simp: slots_move_def hector_wf_def)
  ultimately show ?thesis
    using c inside by (simp add: hector_splice_def)
qed

lemma pop_front:
  assumes "hector_wf h" and "elems h = x # xs" and "xs = [] \<or> len h + 2 \<le> capacity h"
  shows "hector_get h 0 = Inr (Some x)"
    and "\<exists>h'. hector_splice h 0 1 = Inr h' \<and> hector_wf h' \<and> elems h' = xs \<and>
      (0 < capacity h \<longrightarrow> 0 < capacity h') \<and> in_arena h' = in_arena h"
proof -
  show "hector_get h 0 = Inr (Some x)"
    using assms by (simp add: hector_get_ok)
  have "len h = Suc (length xs)"
    using length_elems [OF assms(1)] assms(2) by simp
  then show "\<exists>h'. hector_splice h 0 1 = Inr h' \<and> hector_wf h' \<and> elems h' = xs \<and>
      (0 < capacity h \<longrightarrow> 0 < capacity h') \<and> in_arena h' = in_arena h"
    using hector_splice_ok [OF assms(1), of 0 1] assms(2,3) by auto
qed

section \<open>Properties\<close>

text \<open>
  Appending to a hector that was created with room for at least one element never leaves
  its memory: it grows when full, keeps the earlier elements and adds the new one last.
\<close>

lemma hector_push_appends:
  assumes "hector_wf h" and "0 < capacity h"
  shows "\<exists>h'. hector_push h x = Inr h' \<and> hector_wf h' \<and> elems h' = elems h @ [x]"
  using hector_push_ok [OF assms] by blast

text \<open>
  C39: the exact condition under which \<^verbatim>\<open>hector_splice\<close> removes \<open>count\<close> elements at \<open>n\<close>: it
  succeeds, and then removes exactly these, iff they are the last elements or the block has
  \<open>2 * count\<close> slots more than there are elements; otherwise it reads and writes outside the block.
\<close>

theorem hector_splice_exact:
  assumes "hector_wf h" and "n + c \<le> len h" and "0 < c"
  shows "(if n + c = len h \<or> len h + 2 * c \<le> capacity h
          then \<exists>h'. hector_splice h n c = Inr h' \<and> hector_wf h' \<and>
                 elems h' = take n (elems h) @ drop (n + c) (elems h)
          else hector_splice h n c = Inl OutOfBounds)"
proof (cases "n + c = len h \<or> len h + 2 * c \<le> capacity h")
  case True
  then show ?thesis using hector_splice_ok [OF assms(1,2,3) True] by auto
next
  case False
  with assms(2) have "n + c < len h" and "capacity h < len h + 2 * c" by simp_all
  with False show ?thesis using hector_splice_overrun [OF assms(1) _ assms(3)] by simp
qed

theorem hector_splice_exact_witness:
  "hector_splice \<lparr>capacity = 2, len = 2, mem = [Some (1 :: nat), Some 2], in_arena = False\<rparr> 0 1 =
     Inl OutOfBounds"
  using hector_splice_exact
    [of "\<lparr>capacity = 2, len = 2, mem = [Some (1 :: nat), Some 2], in_arena = False\<rparr>" 0 1]
  by (simp add: hector_wf_def)

end
