(* ===== verification/Potty.thy ===== *)
theory Potty
  imports Potty_Codec Sewer Hector
begin

text \<open>
  The persistence actor (\<^verbatim>\<open>potty.c\<close>, \<^verbatim>\<open>potty_flusher.c\<close>): the thread that collects mutations from its
  channel into the active buffer and queues full or old buffers as flush jobs, and the
  flusher threads that write the jobs to the append-only file. Each action below is what a
  thread does between two points at which another thread can interfere: a critical section, or
  work on data that only this thread holds. \<open>potty_step\<close> runs one action; \<open>None\<close> means that
  the action is not enabled (the thread waits or is elsewhere). Flusher threads are kept in a
  list because nothing but \<^verbatim>\<open>flusher_running\<close> stops the code from starting several.
\<close>

section \<open>State\<close>

abbreviation FLUSH_TIMEOUT :: nat where
  "FLUSH_TIMEOUT \<equiv> 1000"

abbreviation FLUSH_ITEMS_THRESHOLD :: nat where
  "FLUSH_ITEMS_THRESHOLD \<equiv> 500"

record flush_job =
  jwaste :: "mutation hector"
  jts :: nat

datatype pump_at = Consuming | Checking

datatype flusher = Looking | Flushing flush_job nat

record potty =
  psewer :: "mutation sewer"
  waste :: "mutation hector"
  flusher_running :: bool
  flush_jobs :: "flush_job hector"
  last_flush_ts :: nat

text \<open>The actor together with its threads, the file, and the mutations fed to it so far.\<close>

record system =
  pt :: potty
  pump :: pump_at
  flushers :: "flusher list"
  aof :: out_file
  fed :: "mutation list"

definition potty_create :: "mutation sewer \<Rightarrow> nat \<Rightarrow> potty" where
  "potty_create s now =
     \<lparr>psewer = s, waste = hector_create True 500, flusher_running = False,
      flush_jobs = hector_create False 30, last_flush_ts = now\<rparr>"

section \<open>The collecting thread\<close>

definition potty_feed :: "potty \<Rightarrow> mutation \<Rightarrow> potty option res" where
  "potty_feed p mutation =
     rbind (septic_tank_mutation_clone mutation) (\<lambda>cloned.
     rbind (sewer_send (psewer p) cloned) (\<lambda>s. Inr (map_option (\<lambda>s'. p\<lparr>psewer := s'\<rparr>) s)))"

definition should_flush :: "potty \<Rightarrow> nat \<Rightarrow> bool" where
  "should_flush p now_ms =
     (if hector_size (waste p) \<ge> FLUSH_ITEMS_THRESHOLD then True
      else (last_flush_ts p + FLUSH_TIMEOUT) mod SIZE_MOD < now_ms)"

definition potty_flush :: "potty \<Rightarrow> nat \<Rightarrow> (potty \<times> bool) res" where
  \<comment> \<open>the flag tells whether a flusher thread is started\<close>
  "potty_flush p now =
     (if hector_size (waste p) = 0 then Inr (p\<lparr>last_flush_ts := now\<rparr>, False)
      else
        let job = \<lparr>jwaste = waste p, jts = now\<rparr>;
            p = p\<lparr>waste := hector_create True 500\<rparr>
        in rbind (hector_push (flush_jobs p) job) (\<lambda>jobs.
             Inr (p\<lparr>flush_jobs := jobs, flusher_running := True, last_flush_ts := now\<rparr>,
                  \<not> flusher_running p)))"

definition potty_poop :: "potty \<Rightarrow> mutation \<Rightarrow> potty res" where
  "potty_poop p mutation =
     rbind (septic_tank_mutation_clone mutation) (\<lambda>cloned.
     rbind (hector_push (waste p) cloned) (\<lambda>w. Inr (p\<lparr>waste := w\<rparr>)))"

definition pump_consume :: "potty \<Rightarrow> bool \<Rightarrow> potty option res" where
  \<comment> \<open>the receive of \<^verbatim>\<open>potty_pump\<close> and the handling of its message\<close>
  "pump_consume p timed_out =
     rbind (sewer_timed_consume (psewer p) timed_out) (\<lambda>r.
       case r of
         None \<Rightarrow> Inr None
       | Some (message, s) \<Rightarrow>
           let p = p\<lparr>psewer := s\<rparr> in
           (case message of
              None \<Rightarrow> Inr (Some p)
            | Some mutation \<Rightarrow> rbind (potty_poop p mutation) (\<lambda>p. Inr (Some p))))"

section \<open>The flusher threads\<close>

definition drain_take :: "potty \<Rightarrow> (potty \<times> flush_job option) res" where
  \<comment> \<open>the critical section of \<^verbatim>\<open>potty_drain\<close>; \<open>None\<close> ends the thread\<close>
  "drain_take p =
     (if hector_size (flush_jobs p) = 0 then Inr (p\<lparr>flusher_running := False\<rparr>, None)
      else rbind (hector_get (flush_jobs p) 0) (\<lambda>job.
        case job of
          None \<Rightarrow> Inl NullDeref
        | Some j \<Rightarrow> rbind (hector_splice (flush_jobs p) 0 1) (\<lambda>jobs.
            Inr (p\<lparr>flush_jobs := jobs\<rparr>, Some j))))"

definition flush_one :: "out_file \<Rightarrow> flush_job \<Rightarrow> nat \<Rightarrow> out_file option res" where
  \<comment> \<open>one iteration of the loop of \<^verbatim>\<open>perform_flush\<close>; \<open>None\<close> when the loop is over\<close>
  "flush_one f job i =
     (if hector_size (jwaste job) \<le> i then Inr None
      else rbind (hector_get (jwaste job) i) (\<lambda>m.
        case m of
          None \<Rightarrow> Inl NullDeref
        | Some mutation \<Rightarrow> rbind (potty_serialize_mutation f mutation) (\<lambda>f'. Inr (Some f'))))"

datatype action =
    Feed mutation
  | Pump_consume bool
  | Pump_check nat nat
  | Flusher_take nat bool
  | Flusher_write nat

fun potty_step :: "action \<Rightarrow> system \<Rightarrow> system option res" where
  "potty_step (Feed mu) s =
     rbind (potty_feed (pt s) mu) (\<lambda>r.
       Inr (map_option (\<lambda>p. s\<lparr>pt := p, fed := fed s @ [mu]\<rparr>) r))"
| "potty_step (Pump_consume timed_out) s =
     (if pump s \<noteq> Consuming then Inr None
      else rbind (pump_consume (pt s) timed_out) (\<lambda>r.
        Inr (map_option (\<lambda>p. s\<lparr>pt := p, pump := Checking\<rparr>) r)))"
| "potty_step (Pump_check now now') s =
     (if pump s \<noteq> Checking then Inr None
      else if \<not> should_flush (pt s) now then Inr (Some (s\<lparr>pump := Consuming\<rparr>))
      else rbind (potty_flush (pt s) now') (\<lambda>(p, start).
        Inr (Some (s\<lparr>pt := p, pump := Consuming,
          flushers := flushers s @ (if start then [Looking] else [])\<rparr>))))"
| "potty_step (Flusher_take i opened) s =
     (if i < length (flushers s) \<and> flushers s ! i = Looking
      then rbind (drain_take (pt s)) (\<lambda>(p, job).
        case job of
          None \<Rightarrow> Inr (Some (s\<lparr>pt := p, flushers := take i (flushers s) @ drop (Suc i) (flushers s)\<rparr>))
        | Some j \<Rightarrow>
            if opened then Inr (Some (s\<lparr>pt := p, flushers := (flushers s)[i := Flushing j 0]\<rparr>))
            else Inl Panic)
      else Inr None)"
| "potty_step (Flusher_write i) s =
     (if i < length (flushers s) then
        (case flushers s ! i of
           Looking \<Rightarrow> Inr None
         | Flushing job n \<Rightarrow> rbind (flush_one (aof s) job n) (\<lambda>r.
             case r of
               None \<Rightarrow> Inr (Some (s\<lparr>flushers := (flushers s)[i := Looking]\<rparr>))
             | Some f \<Rightarrow> Inr (Some (s\<lparr>aof := f, flushers := (flushers s)[i := Flushing job (Suc n)]\<rparr>))))
      else Inr None)"

definition potty_init :: "nat \<Rightarrow> nat \<Rightarrow> nat \<Rightarrow> system" where
  "potty_init c now space =
     \<lparr>pt = potty_create (sewer_create c) now, pump = Consuming, flushers = [],
      aof = \<lparr>written = [], room = space\<rparr>, fed = []\<rparr>"

inductive step :: "system \<Rightarrow> system \<Rightarrow> bool" where
  step: "potty_step a s = Inr (Some s') \<Longrightarrow> step s s'"

inductive reachable :: "nat \<Rightarrow> nat \<Rightarrow> nat \<Rightarrow> system \<Rightarrow> bool" for c now space where
  init: "reachable c now space (potty_init c now space)"
| next_state: "reachable c now space s \<Longrightarrow> step s s' \<Longrightarrow> reachable c now space s'"

inductive_cases stepE: "step s s'"

section \<open>Invariant\<close>

fun unwritten :: "flusher \<Rightarrow> mutation list" where
  "unwritten Looking = []"
| "unwritten (Flushing job n) = drop n (elems (jwaste job))"

fun flusher_wf :: "flusher \<Rightarrow> bool" where
  "flusher_wf Looking = True"
| "flusher_wf (Flushing job n) \<longleftrightarrow> hector_wf (jwaste job) \<and> n \<le> len (jwaste job)"

definition in_flight :: "system \<Rightarrow> mutation list" where
  \<comment> \<open>what was fed and is not yet written, oldest first\<close>
  "in_flight s =
     concat (map unwritten (flushers s)) @ concat (map (\<lambda>j. elems (jwaste j)) (elems (flush_jobs (pt s)))) @
     elems (waste (pt s)) @ ring_content (psewer (pt s))"

definition potty_inv :: "system \<Rightarrow> bool" where
  "potty_inv s \<longleftrightarrow>
     ring_wf (psewer (pt s)) \<and> hector_wf (waste (pt s)) \<and> 0 < capacity (waste (pt s)) \<and>
     hector_wf (flush_jobs (pt s)) \<and> 0 < capacity (flush_jobs (pt s)) \<and>
     list_all (\<lambda>j. hector_wf (jwaste j)) (elems (flush_jobs (pt s))) \<and>
     list_all flusher_wf (flushers s) \<and> length (flushers s) \<le> 1 \<and>
     (flusher_running (pt s) \<longleftrightarrow> flushers s \<noteq> []) \<and> (elems (flush_jobs (pt s)) \<noteq> [] \<longrightarrow> flushers s \<noteq> []) \<and>
     (\<exists>out. written (aof s) = concat (map enc_mutation out) \<and> out @ in_flight s = fed s)"

lemma inv_init: "potty_inv (potty_init c now space)"
  using ring_create_wf [of c]
  by (auto simp: potty_inv_def potty_init_def potty_create_def sewer_create_def in_flight_def)
    (simp_all add: hector_create_def)

lemma clone_same: "septic_tank_mutation_clone mu = Inr mu' \<Longrightarrow> mu' = mu"
  by (cases mu) auto

lemma feed_keeps:
  assumes inv: "potty_inv s" and st: "potty_step (Feed mu) s = Inr (Some s')"
  shows "potty_inv s'"
proof -
  obtain q where q: "sewer_send (psewer (pt s)) mu = Inr (Some q)"
    and s': "s' = s\<lparr>pt := (pt s)\<lparr>psewer := q\<rparr>, fed := fed s @ [mu]\<rparr>"
    using st by (auto simp: potty_feed_def rbind_eq_Inr_iff dest: clone_same)
  have "ring_wf q" "ring_content q = ring_content (psewer (pt s)) @ [mu]"
    using sw.sendD [OF _ q] inv by (auto simp: potty_inv_def)
  with inv show ?thesis
    unfolding potty_inv_def in_flight_def s' by auto
qed

lemma consume_cases:
  assumes "pump_consume p b = Inr (Some p')"
  shows "\<exists>m q. sewer_timed_consume (psewer p) b = Inr (Some (m, q)) \<and>
    (case m of None \<Rightarrow> p' = p\<lparr>psewer := q\<rparr> | Some mu \<Rightarrow> potty_poop (p\<lparr>psewer := q\<rparr>) mu = Inr p')"
proof -
  from assms obtain m q where r: "sewer_timed_consume (psewer p) b = Inr (Some (m, q))"
    and "(case m of None \<Rightarrow> Inr (Some (p\<lparr>psewer := q\<rparr>))
      | Some mu \<Rightarrow> rbind (potty_poop (p\<lparr>psewer := q\<rparr>) mu) (\<lambda>p. Inr (Some p))) = Inr (Some p')"
    by (cases "sewer_timed_consume (psewer p) b"; cases "projr (sewer_timed_consume (psewer p) b)")
      (auto simp: pump_consume_def Let_def)
  then show ?thesis by (cases m) (auto simp: rbind_eq_Inr_iff)
qed

lemma consume_keeps:
  assumes inv: "potty_inv s" and st: "potty_step (Pump_consume b) s = Inr (Some s')"
  shows "potty_inv s'"
proof -
  from st obtain p where p: "pump_consume (pt s) b = Inr (Some p)" and s': "s' = s\<lparr>pt := p, pump := Checking\<rparr>"
    by (auto simp: rbind_eq_Inr_iff split: if_splits)
  from consume_cases [OF p] obtain m q where r: "sewer_timed_consume (psewer (pt s)) b = Inr (Some (m, q))"
    and m: "case m of None \<Rightarrow> p = (pt s)\<lparr>psewer := q\<rparr>
      | Some mu \<Rightarrow> potty_poop ((pt s)\<lparr>psewer := q\<rparr>) mu = Inr p" by blast
  show ?thesis
  proof (cases m)
    case None
    then have "q = psewer (pt s)"
      using r by (auto simp: timed_consume_eq rbind_eq_Inr_iff split: option.splits if_splits)
    with None m have "p = pt s" by simp
    with inv show ?thesis by (simp add: s' potty_inv_def in_flight_def)
  next
    case (Some mu)
    then have "sewer_consume (psewer (pt s)) = Inr (Some (mu, q))"
      using r by (auto simp: timed_consume_eq rbind_eq_Inr_iff split: option.splits if_splits)
    then have q: "ring_wf q" "ring_content (psewer (pt s)) = mu # ring_content q"
      using sw.receiveD [of "psewer (pt s)" mu q] inv by (auto simp: potty_inv_def)
    obtain w where w: "hector_push (waste (pt s)) mu = Inr w" and p': "p = (pt s)\<lparr>psewer := q, waste := w\<rparr>"
      using m Some by (auto simp: potty_poop_def rbind_eq_Inr_iff dest: clone_same)
    have "hector_wf w" "elems w = elems (waste (pt s)) @ [mu]" "0 < capacity w"
      using hector_push_ok [of "waste (pt s)" mu] inv w by (auto simp: potty_inv_def)
    with inv q show ?thesis
      unfolding potty_inv_def in_flight_def s' p' by auto
  qed
qed

lemma check_cases:
  assumes "potty_step (Pump_check n n') s = Inr (Some s')" and "should_flush (pt s) n \<and> hector_size (waste (pt s)) \<noteq> 0"
  shows "\<exists>jobs. hector_push (flush_jobs (pt s)) \<lparr>jwaste = waste (pt s), jts = n'\<rparr> = Inr jobs \<and>
    s' = s\<lparr>pt := (pt s)\<lparr>waste := hector_create True 500, flush_jobs := jobs, flusher_running := True,
       last_flush_ts := n'\<rparr>, pump := Consuming,
       flushers := flushers s @ (if \<not> flusher_running (pt s) then [Looking] else [])\<rparr>"
  using assms by (auto simp: potty_flush_def rbind_eq_Inr_iff Let_def split: if_splits)

lemma check_keeps:
  assumes inv: "potty_inv s" and st: "potty_step (Pump_check n n') s = Inr (Some s')"
  shows "potty_inv s'"
proof (cases "should_flush (pt s) n \<and> hector_size (waste (pt s)) \<noteq> 0")
  case False
  then have "s' = s\<lparr>pump := Consuming\<rparr> \<or> s' = s\<lparr>pt := (pt s)\<lparr>last_flush_ts := n'\<rparr>, pump := Consuming\<rparr>"
    using st by (auto simp: potty_flush_def split: if_splits)
  with inv show ?thesis by (auto simp: potty_inv_def in_flight_def)
next
  case True
  let ?job = "\<lparr>jwaste = waste (pt s), jts = n'\<rparr>"
  from check_cases [OF st True] obtain jobs where j: "hector_push (flush_jobs (pt s)) ?job = Inr jobs"
    and s': "s' = s\<lparr>pt := (pt s)\<lparr>waste := hector_create True 500, flush_jobs := jobs, flusher_running := True,
       last_flush_ts := n'\<rparr>, pump := Consuming,
       flushers := flushers s @ (if \<not> flusher_running (pt s) then [Looking] else [])\<rparr>"
    by blast
  have jobs: "hector_wf jobs" "elems jobs = elems (flush_jobs (pt s)) @ [?job]" "0 < capacity jobs"
    using hector_push_ok [of "flush_jobs (pt s)" ?job] inv j by (auto simp: potty_inv_def)
  have new: "0 < capacity (hector_create True 500 :: mutation hector)" by (simp add: hector_create_def)
  show ?thesis
    using inv jobs new unfolding potty_inv_def in_flight_def s'
    by (cases "flusher_running (pt s)") auto
qed

lemma drain_take_front:
  assumes "hector_wf (flush_jobs p)" and "drain_take p = Inr (p', Some j)"
  shows "\<exists>jobs. p' = p\<lparr>flush_jobs := jobs\<rparr> \<and> hector_wf jobs \<and> elems (flush_jobs p) = j # elems jobs \<and>
    (0 < capacity (flush_jobs p) \<longrightarrow> 0 < capacity jobs)"
proof -
  let ?h = "flush_jobs p"
  from assms(2) obtain jobs where g: "hector_get ?h 0 = Inr (Some j)" and sp: "hector_splice ?h 0 1 = Inr jobs"
    and p': "p' = p\<lparr>flush_jobs := jobs\<rparr>"
    by (auto simp: drain_take_def rbind_eq_Inr_iff split: if_splits option.splits)
  obtain xs where xs: "elems ?h = j # xs"
    using g hector_get_ok [OF assms(1), of 0] by (cases "elems ?h") auto
  have "xs = [] \<or> len ?h + 2 \<le> capacity ?h"
  proof (rule ccontr)
    assume "\<not> ?thesis"
    then have "0 + 1 < len ?h" "capacity ?h < len ?h + 2 * 1"
      using xs length_elems [OF assms(1)] by (cases xs; simp)+
    from hector_splice_overrun [OF assms(1) this(1) _ this(2)] sp show False by simp
  qed
  from pop_front(2) [OF assms(1) xs this] sp p' xs show ?thesis by auto
qed

lemma take_keeps:
  assumes inv: "potty_inv s" and st: "potty_step (Flusher_take i b) s = Inr (Some s')"
  shows "potty_inv s'"
proof -
  from st have i: "i < length (flushers s)" "flushers s ! i = Looking"
    by (auto split: if_splits)
  then have fl: "flushers s = [Looking]" "i = 0"
    using inv by (cases "flushers s"; auto simp: potty_inv_def)+
  have wf: "hector_wf (flush_jobs (pt s))" using inv by (simp add: potty_inv_def)
  from st obtain p job where d: "drain_take (pt s) = Inr (p, job)"
    by (cases "drain_take (pt s)") (auto simp: fl)
  with st have s': "case job of None \<Rightarrow> s' = s\<lparr>pt := p, flushers := []\<rparr>
      | Some j \<Rightarrow> s' = s\<lparr>pt := p, flushers := [Flushing j 0]\<rparr>"
    by (cases job) (auto simp: fl split: if_splits)
  show ?thesis
  proof (cases job)
    case None
    then have "p = (pt s)\<lparr>flusher_running := False\<rparr>" "elems (flush_jobs (pt s)) = []"
      using d length_elems [OF wf]
      by (auto simp: drain_take_def hector_size_def rbind_eq_Inr_iff split: if_splits option.splits)
    with inv None s' show ?thesis by (simp add: potty_inv_def in_flight_def fl)
  next
    case (Some j)
    with drain_take_front [OF wf] d obtain jobs where "p = (pt s)\<lparr>flush_jobs := jobs\<rparr>" "hector_wf jobs"
        "elems (flush_jobs (pt s)) = j # elems jobs" "0 < capacity jobs"
      using inv by (auto simp: potty_inv_def)
    with inv Some s' show ?thesis by (auto simp: potty_inv_def in_flight_def fl)
  qed
qed

lemma write_keeps:
  assumes inv: "potty_inv s" and st: "potty_step (Flusher_write i) s = Inr (Some s')"
  shows "potty_inv s'"
proof -
  from st obtain job n where i: "i < length (flushers s)" "flushers s ! i = Flushing job n"
    by (auto split: if_splits flusher.splits)
  then have fl: "flushers s = [Flushing job n]" "i = 0"
    using inv by (cases "flushers s"; auto simp: potty_inv_def)+
  then have wf: "hector_wf (jwaste job)" "n \<le> len (jwaste job)"
    using inv by (auto simp: potty_inv_def)
  from st obtain r where r: "flush_one (aof s) job n = Inr r"
    by (cases "flush_one (aof s) job n") (auto simp: fl)
  with st have s': "case r of None \<Rightarrow> s' = s\<lparr>flushers := [Looking]\<rparr>
      | Some f \<Rightarrow> s' = s\<lparr>aof := f, flushers := [Flushing job (Suc n)]\<rparr>"
    by (cases r) (auto simp: fl)
  show ?thesis
  proof (cases "n < len (jwaste job)")
    case False
    then have "r = None" "n = length (elems (jwaste job))"
      using r wf length_elems [OF wf(1)] by (auto simp: flush_one_def hector_size_def)
    with s' inv show ?thesis by (auto simp: potty_inv_def in_flight_def fl)
  next
    case True
    let ?mu = "elems (jwaste job) ! n"
    from True obtain f where f: "potty_serialize_mutation (aof s) ?mu = Inr f" "r = Some f"
      using r hector_get_ok [OF wf(1), of n] length_elems [OF wf(1)]
      by (auto simp: flush_one_def hector_size_def rbind_eq_Inr_iff)
    have d: "drop n (elems (jwaste job)) = ?mu # drop (Suc n) (elems (jwaste job))"
      using True length_elems [OF wf(1)] by (simp add: Cons_nth_drop_Suc)
    obtain out where out: "written (aof s) = concat (map enc_mutation out)" "out @ in_flight s = fed s"
      using inv by (auto simp: potty_inv_def)
    have "written f = concat (map enc_mutation (out @ [?mu]))"
      using serialize_written [OF f(1)] out(1) by simp
    moreover have "(out @ [?mu]) @ in_flight s' = fed s'"
      using out(2) s' f(2) d by (simp add: in_flight_def fl)
    moreover have "aof s' = f" using s' f(2) by simp
    ultimately have "\<exists>out. written (aof s') = concat (map enc_mutation out) \<and> out @ in_flight s' = fed s'"
      by (metis (no_types))
    with inv s' f(2) wf True show ?thesis by (simp add: potty_inv_def fl)
  qed
qed

lemma step_keeps: "step s s' \<Longrightarrow> potty_inv s \<Longrightarrow> potty_inv s'"
proof (erule stepE)
  fix a
  assume "potty_inv s" and "potty_step a s = Inr (Some s')"
  then show "potty_inv s'"
    using feed_keeps consume_keeps check_keeps take_keeps write_keeps by (cases a) blast+
qed

lemma reachable_inv: "reachable c now space s \<Longrightarrow> potty_inv s"
  by (induction rule: reachable.induct) (auto intro: inv_init step_keeps)

section \<open>Runs\<close>

fun potty_run :: "action list \<Rightarrow> system \<Rightarrow> system option res" where
  "potty_run [] s = Inr (Some s)"
| "potty_run (a # as) s =
     rbind (potty_step a s) (\<lambda>r. case r of None \<Rightarrow> Inr None | Some s' \<Rightarrow> potty_run as s')"

lemma potty_run_reachable:
  "reachable c now space s \<Longrightarrow> potty_run as s = Inr (Some s') \<Longrightarrow> reachable c now space s'"
proof (induction as arbitrary: s)
  case (Cons a as)
  from Cons.prems(2) obtain s1 where "potty_step a s = Inr (Some s1)" "potty_run as s1 = Inr (Some s')"
    by (auto simp: rbind_eq_Inr_iff split: option.splits)
  with Cons show ?case by (meson next_state step)
qed simp

lemmas potty_eval = potty_init_def potty_create_def sewer_create_def ringbuf_create_def
  hector_create_def potty_feed_def sewer_send_def ringbuf_is_full_def ringbuf_push_def pump_consume_def
  sewer_timed_consume_def ringbuf_is_empty_def ringbuf_pop_def potty_poop_def hector_push_def
  should_flush_def hector_size_def potty_flush_def drain_take_def hector_get_def hector_splice_def
  try_shrink_def hector_resize_def flush_one_def potty_serialize_mutation_def fwrite_byte_def
  fwrite_string_def fwrite_def slots_move_def size_sub_def nth_append nth_list_update

abbreviation queue_job :: "nat \<Rightarrow> action list" where
  \<comment> \<open>a mutation is fed, collected, and flushed as a job of its own at time \<open>t\<close>\<close>
  "queue_job t \<equiv> [Feed (Del_mutation ''c''), Pump_consume False, Pump_check t t]"

abbreviation one_flush :: "nat \<Rightarrow> action list" where
  \<comment> \<open>a job is queued and written, and the flusher thread ends\<close>
  "one_flush t \<equiv> queue_job t @ [Flusher_take 0 True, Flusher_write 0, Flusher_write 0, Flusher_take 0 True]"

lemma overrun_run:
  "\<exists>s. potty_run (one_flush 2000 @ one_flush 4000 @ one_flush 6000 @ one_flush 8000 @
         queue_job 10000 @ queue_job 12000) (potty_init 100 0 1000) = Inr (Some s) \<and>
     len (flush_jobs (pt s)) = 2 \<and> potty_step (Flusher_take 0 True) s = Inl OutOfBounds"
  by (simp add: potty_eval)

lemma idle_written:
  assumes "reachable c now space s" and "ringbuf_is_empty (psewer (pt s))"
    and "hector_size (waste (pt s)) = 0" and "\<not> flusher_running (pt s)"
  shows "written (aof s) = concat (map enc_mutation (fed s))"
proof -
  have inv: "potty_inv s" by (rule reachable_inv [OF assms(1)])
  then have "flushers s = []" "elems (flush_jobs (pt s)) = []"
    using assms(4) by (auto simp: potty_inv_def)
  moreover have "elems (waste (pt s)) = []"
    using inv assms(3) length_elems [of "waste (pt s)"] by (simp add: potty_inv_def hector_size_def)
  moreover have "ring_content (psewer (pt s)) = []"
    using assms(2) by (simp add: ringbuf_is_empty_def ring_content_def)
  ultimately have "in_flight s = []" by (simp add: in_flight_def)
  then show ?thesis using inv by (auto simp: potty_inv_def)
qed

section \<open>Properties\<close>

text \<open>
  C12: at every moment of every run, whatever the interleaving of clients, collecting thread
  and flushers, there is at most one flusher thread, and the append-only file holds the records of the
  mutations fed so far up to some point, in the order in which they were fed; the mutations after that
  point are all still in memory. Nothing is lost, duplicated or reordered.
\<close>

theorem aof_lossless_in_order:
  assumes "reachable c now space s"
  shows "length (flushers s) \<le> 1 \<and>
    (\<exists>out. written (aof s) = concat (map enc_mutation out) \<and> out @ in_flight s = fed s)"
  using reachable_inv [OF assms] by (simp add: potty_inv_def)

theorem aof_lossless_in_order_witness:
  "\<exists>s. reachable 100 0 1000 s \<and> fed s = [Del_mutation ''c''] \<and> length (flushers s) \<le> 1 \<and>
     (\<exists>out. written (aof s) = concat (map enc_mutation out) \<and> out @ in_flight s = [Del_mutation ''c''])"
proof -
  have "\<exists>s. potty_run (queue_job 2000) (potty_init 100 0 1000) = Inr (Some s) \<and> fed s = [Del_mutation ''c'']"
    by (simp add: potty_eval)
  then obtain s where s: "potty_run (queue_job 2000) (potty_init 100 0 1000) = Inr (Some s)"
    and f: "fed s = [Del_mutation ''c'']" by blast
  have "reachable 100 0 1000 s" by (rule potty_run_reachable [OF init s])
  with aof_lossless_in_order [OF this] f show ?thesis by auto
qed

text \<open>
  C18: once the channel and the active buffer are empty and no flusher is running, the file holds
  the records of all mutations ever fed, in order. (No job can be left behind without
  a flusher to write it.)
\<close>

theorem aof_complete_when_idle:
  assumes "reachable c now space s" and "ringbuf_is_empty (psewer (pt s))"
    and "hector_size (waste (pt s)) = 0" and "\<not> flusher_running (pt s)"
  shows "written (aof s) = concat (map enc_mutation (fed s))"
  using assms by (rule idle_written)

theorem aof_complete_when_idle_witness:
  "\<exists>s. potty_run (one_flush 2000) (potty_init 100 0 1000) = Inr (Some s) \<and>
     written (aof s) = enc_mutation (Del_mutation ''c'')"
proof -
  have "\<exists>s. potty_run (one_flush 2000) (potty_init 100 0 1000) = Inr (Some s) \<and>
      ringbuf_is_empty (psewer (pt s)) \<and> hector_size (waste (pt s)) = 0 \<and> \<not> flusher_running (pt s) \<and>
      fed s = [Del_mutation ''c'']"
    by (simp add: potty_eval)
  then obtain s where s: "potty_run (one_flush 2000) (potty_init 100 0 1000) = Inr (Some s)"
    and i: "ringbuf_is_empty (psewer (pt s))" "hector_size (waste (pt s)) = 0" "\<not> flusher_running (pt s)"
    and f: "fed s = [Del_mutation ''c'']" by blast
  have "reachable 100 0 1000 s" by (rule potty_run_reachable [OF init s])
  from aof_complete_when_idle [OF this i] s f show ?thesis by auto
qed

text \<open>
  C30: the queue of flush jobs overruns its memory in a short run. Four flushes of one mutation each
  shrink the queue to a capacity of one job; when two jobs are then pending, the flusher's
  \<^verbatim>\<open>hector_splice\<close> reads and writes past the block.
\<close>

theorem flush_jobs_overrun_reachable:
  "\<exists>s. reachable 100 0 1000 s \<and> len (flush_jobs (pt s)) = 2 \<and>
     potty_step (Flusher_take 0 True) s = Inl OutOfBounds"
  using overrun_run potty_run_reachable [OF init] by blast

end
