(* ===== verification/Boot.thy ===== *)
theory Boot
  imports Cli Server Potty
begin

text \<open>
  The start of the program (\<^verbatim>\<open>main.c\<close>): the command line, the server object, and the replay of the
  append-only file before the first connection is accepted. The listening socket and the accept loop are
  in \<open>Serving\<close>; \<^verbatim>\<open>inet_pton\<close> and the contents of the file are arguments.
\<close>

section \<open>Command line\<close>

definition CLI_OPTION_DEFINITIONS :: "cli_option_definition list" where
  "CLI_OPTION_DEFINITIONS =
     [\<lparr>oname = ''port'', shorthand = Some ''p'', otype = CLI_INTEGER, ois_optional = True\<rparr>,
      \<lparr>oname = ''replicaof'', shorthand = Some ''r'', otype = CLI_STRING, ois_optional = True\<rparr>]"

abbreviation DEFAULT_PORT :: "16 word" where
  "DEFAULT_PORT \<equiv> 6969"

datatype startup = Usage | Listening server "16 word"

definition option_slot :: "cli_option list \<Rightarrow> nat \<Rightarrow> cli_value option res" where
  \<comment> \<open>\<^verbatim>\<open>cli_options[i].value\<close> read as a pointer to an \<^verbatim>\<open>Option\<close>\<close>
  "option_slot opts i =
     (if i < length opts
      then (case oslot (opts ! i) of Cli_optional v \<Rightarrow> Inr v | Cli_required v \<Rightarrow> Inl OutOfBounds)
      else Inl NullDeref)"

definition main_port :: "cli_value option \<Rightarrow> 16 word res" where
  \<comment> \<open>the conversion of the \<^verbatim>\<open>long\<close> to \<^verbatim>\<open>uint16_t\<close> drops the upper bits\<close>
  "main_port v =
     (case v of
        None \<Rightarrow> Inr DEFAULT_PORT
      | Some (Cli_long n) \<Rightarrow> Inr (ucast n)
      | Some _ \<Rightarrow> Inl OutOfBounds)"

definition main_master ::
  "(char list \<Rightarrow> 32 word option) \<Rightarrow> cli_value option \<Rightarrow> server \<Rightarrow> server option res" where
  \<comment> \<open>\<open>None\<close> prints the usage and exits\<close>
  "main_master inet_pton v server =
     (case v of
        None \<Rightarrow> Inr (Some server)
      | Some (Cli_string s) \<Rightarrow>
          Inr (case parse_socket_info inet_pton s of
                 None \<Rightarrow> None
               | Some socket_info \<Rightarrow> Some (server\<lparr>maybe_master := Some socket_info\<rparr>))
      | Some _ \<Rightarrow> Inl OutOfBounds)"

definition main_options :: "(char list \<Rightarrow> 32 word option) \<Rightarrow> char list list \<Rightarrow> startup res" where
  "main_options inet_pton argv =
     rbind (cli_parse_opts CLI_OPTION_DEFINITIONS argv) (\<lambda>r.
       case r of
         None \<Rightarrow> Inr Usage
       | Some (opts, _) \<Rightarrow>
           rbind (option_slot opts 0) (\<lambda>maybe_port.
           rbind (option_slot opts 1) (\<lambda>maybe_replicaof.
           rbind (main_port maybe_port) (\<lambda>port.
           rbind (main_master inet_pton maybe_replicaof create_server_instance) (\<lambda>s.
             Inr (case s of None \<Rightarrow> Usage | Some server \<Rightarrow> Listening server port))))))"

section \<open>Replay at start\<close>

definition main_boot ::
  "(nat \<Rightarrow> bool) \<Rightarrow> open_result \<Rightarrow> (septic_tank \<times> nat) res" where
  \<comment> \<open>the tank when the first client is accepted and the number of commands replayed\<close>
  "main_boot cal file =
     (let tank = septic_tank_disable_aof septic_tank_create in
      rbind (potty_trainer_train cal (tank_data tank) file) (\<lambda>(m, num_commands_processed).
        Inr (septic_tank_enable_aof (tank\<lparr>tank_data := m\<rparr>), num_commands_processed)))"

section \<open>Lemmas\<close>

abbreviation port_definition :: cli_option_definition where
  "port_definition \<equiv> \<lparr>oname = ''port'', shorthand = Some ''p'', otype = CLI_INTEGER, ois_optional = True\<rparr>"

abbreviation replicaof_definition :: cli_option_definition where
  "replicaof_definition \<equiv>
     \<lparr>oname = ''replicaof'', shorthand = Some ''r'', otype = CLI_STRING, ois_optional = True\<rparr>"

definition main_spec :: "(char list \<Rightarrow> 32 word option) \<Rightarrow> (char list \<times> char list) list \<Rightarrow> startup" where
  \<comment> \<open>what options, each with its value, ask for\<close>
  "main_spec inet_pton ps =
     (let port = (case given port_definition ps of
            None \<Rightarrow> Some DEFAULT_PORT
          | Some s \<Rightarrow> if fst (parse_long s) then Some (ucast (snd (parse_long s))) else None);
          master = (case given replicaof_definition ps of
            None \<Rightarrow> Some None
          | Some s \<Rightarrow> map_option Some (parse_socket_info inet_pton s))
      in case (port, master) of
           (Some p, Some m) \<Rightarrow> Listening (create_server_instance\<lparr>maybe_master := m\<rparr>) p
         | _ \<Rightarrow> Usage)"

lemma no_master [simp]: "create_server_instance\<lparr>maybe_master := None\<rparr> = create_server_instance"
  by (simp add: create_server_instance_def)

lemma parsed_options:
  assumes "clear_line CLI_OPTION_DEFINITIONS ps" and "set qs = set ps"
  shows "\<exists>iargs'. cli_parse_opts CLI_OPTION_DEFINITIONS (flat qs) =
    Inr (map_option (\<lambda>opts. (opts, iargs')) (those [spec_option port_definition (given port_definition ps),
      spec_option replicaof_definition (given replicaof_definition ps)]))"
  using cli_parse_opts_pairs [OF assms(1) _ assms(2)]
  by (simp add: CLI_OPTION_DEFINITIONS_def takes_value_def)

section \<open>Properties\<close>

text \<open>
  C34: options with a value each configure the server in any order: the port is the given number
  modulo 65536 (not refused when it is larger) or 6969, the master is the one named by address and
  port, and the usage is printed exactly when a given number or address cannot be read.
\<close>

theorem main_options_spec:
  assumes "clear_line CLI_OPTION_DEFINITIONS ps" and "set qs = set ps"
  shows "main_options inet_pton (flat qs) = Inr (main_spec inet_pton ps)"
proof -
  obtain iargs' where "cli_parse_opts CLI_OPTION_DEFINITIONS (flat qs) =
    Inr (map_option (\<lambda>opts. (opts, iargs')) (those [spec_option port_definition (given port_definition ps),
      spec_option replicaof_definition (given replicaof_definition ps)]))"
    using parsed_options [OF assms] by blast
  then show ?thesis
    by (cases "given port_definition ps"; cases "given replicaof_definition ps")
      (auto simp: main_options_def main_spec_def spec_option_simps spec_value_def wrap_slot_def
        option_slot_def main_port_def main_master_def split: option.splits)
qed

theorem main_options_spec_witness:
  "main_options (\<lambda>s. if s = ''::'' then Some 7 else None) [''-r'', '':: 80'', ''--port'', ''70000''] =
     Inr (Listening (create_server_instance\<lparr>maybe_master := Some \<lparr>ip = 7, port = 80\<rparr>\<rparr>) 4464)"
proof -
  let ?net = "\<lambda>s. if s = ''::'' then Some 7 else None :: 32 word option"
  let ?ps = "[(''--port'', ''70000''), (''-r'', '':: 80'')]"
  have clear: "clear_line CLI_OPTION_DEFINITIONS ?ps"
    by (simp add: clear_line_def CLI_OPTION_DEFINITIONS_def opt_matches_def is_long_def is_short_def)
  have g: "given port_definition ?ps = Some ''70000''" "given replicaof_definition ?ps = Some '':: 80''"
    by (simp_all add: given_def opt_matches_def is_long_def is_short_def)
  have n: "parse_long ''70000'' = (True, 70000)" "parse_long ''80'' = (True, 80)"
    by (simp_all add: parse_long_def strtol_scan_def scan_simps scan_ws_def strtoll_value_def is_digit_def is_space_def digit_val_def
        Let_def)
  have s: "parse_socket_info ?net '':: 80'' = Some \<lparr>ip = 7, port = 80\<rparr>"
    using n by (simp add: parse_socket_info_def)
  have spec: "main_spec ?net ?ps =
      Listening (create_server_instance\<lparr>maybe_master := Some \<lparr>ip = 7, port = 80\<rparr>\<rparr>) 4464"
    unfolding main_spec_def g option.case n s by simp
  have line: "flat [(''-r'', '':: 80''), (''--port'', ''70000'')] = [''-r'', '':: 80'', ''--port'', ''70000'']"
    by simp
  have "set [(''-r'', '':: 80''), (''--port'', ''70000'')] = set ?ps" by auto
  from main_options_spec [OF clear this, of ?net] show ?thesis
    unfolding spec line .
qed

text \<open>
  A stray argument in front of the options is fatal when two options follow it in the other
  order: swapping the arguments of \<^verbatim>\<open>-p\<close> to the front moves the stray word behind \<^verbatim>\<open>-r\<close>, away from its value,
  and the usage is printed. With the options in the order of their definitions the same line is
  accepted, stray word included.
\<close>

theorem stray_argument_refused:
  "main_options (\<lambda>s. Some 7) [''x'', ''-r'', ''h 80'', ''-p'', ''90''] = Inr Usage \<and>
   main_options (\<lambda>s. Some 7) [''x'', ''-p'', ''90'', ''-r'', ''h 80''] =
     Inr (Listening (create_server_instance\<lparr>maybe_master := Some \<lparr>ip = 7, port = 80\<rparr>\<rparr>) 90)"
proof -
  have n: "parse_long ''90'' = (True, 90)" "parse_long ''80'' = (True, 80)"
    by (simp_all add: parse_long_def strtol_scan_def scan_simps scan_ws_def strtoll_value_def is_digit_def is_space_def digit_val_def
        Let_def)
  have s: "parse_socket_info (\<lambda>s. Some 7) ''h 80'' = Some \<lparr>ip = 7, port = 80\<rparr>"
    using n by (simp add: parse_socket_info_def)
  note eval = opt_matches_def is_long_def is_short_def
  let ?l = "[''x'', ''-r'', ''h 80'', ''-p'', ''90'']"
  let ?l' = "[''-p'', ''90'', ''h 80'', ''x'', ''-r'']"
  have "[0..<5] = [0, 1, 2, 3, 4 :: nat]" "[2..<5] = [2, 3, 4 :: nat]" by (simp_all add: upt_rec)
  then have m: "matched_idx port_definition 0 ?l = Some 3" "matched_idx replicaof_definition 2 ?l' = Some 4"
    by (simp_all add: matched_idx_def eval)
  have v: "option_value port_definition 3 ?l = Inr (Some (Cli_long 90, 2))"
      "option_value replicaof_definition 4 ?l' = Inr None"
    by (simp_all add: option_value_def n)
  have c: "move_consumed 2 3 0 ?l = ?l'" by (simp add: numeral_2_eq_2)
  have "cli_parse_opts CLI_OPTION_DEFINITIONS ?l = Inr None"
    using m v c by (simp add: cli_parse_opts_def CLI_OPTION_DEFINITIONS_def)
  then have refused: "main_options (\<lambda>s. Some 7) ?l = Inr Usage" by (simp add: main_options_def)
  let ?k = "[''x'', ''-p'', ''90'', ''-r'', ''h 80'']"
  let ?k' = "[''-p'', ''90'', ''x'', ''-r'', ''h 80'']"
  have "[0..<5] = [0, 1, 2, 3, 4 :: nat]" "[2..<5] = [2, 3, 4 :: nat]" by (simp_all add: upt_rec)
  then have m': "matched_idx port_definition 0 ?k = Some 1" "matched_idx replicaof_definition 2 ?k' = Some 3"
    by (simp_all add: matched_idx_def eval)
  have v': "option_value port_definition 1 ?k = Inr (Some (Cli_long 90, 2))"
      "option_value replicaof_definition 3 ?k' = Inr (Some (Cli_string ''h 80'', 2))"
    by (simp_all add: option_value_def n)
  have c': "move_consumed 2 1 0 ?k = ?k'" by (simp add: numeral_2_eq_2)
  have "\<exists>iargs'. cli_parse_opts CLI_OPTION_DEFINITIONS ?k =
      Inr (Some ([wrap_slot port_definition (Cli_long 90), wrap_slot replicaof_definition (Cli_string ''h 80'')], iargs'))"
    using m' v' c' by (simp add: cli_parse_opts_def CLI_OPTION_DEFINITIONS_def)
  then have "main_options (\<lambda>s. Some 7) ?k =
     Inr (Listening (create_server_instance\<lparr>maybe_master := Some \<lparr>ip = 7, port = 80\<rparr>\<rparr>) 90)"
    by (auto simp: main_options_def wrap_slot_def option_slot_def main_port_def main_master_def s)
  with refused show ?thesis by blast
qed

end
