(* ===== verification/Actors.thy ===== *)
theory Actors
  imports Separate_Keys Potty
begin

text \<open>
  The whole system of threads: clients that send operations to the store actor and wait for their
  responses (\<^verbatim>\<open>septic_tank_feed\<close>), the thread of the store actor (\<^verbatim>\<open>septic_tank_pump\<close>), and the persistence
  system of \<^theory_text>\<open>Potty\<close>. One action is what a thread does between two points at which it may have to
  wait: the turn of the store actor is split at its two sends, of the response to the client and of
  the mutation to the persistence actor. As in \<^theory_text>\<open>Potty\<close>, \<open>None\<close> means that the thread waits.
\<close>

section \<open>State\<close>

datatype tank_thread =
    Receiving
  | Answering nat septic_tank_result "mutation option"
  | Feeding mutation

text \<open>
  \<open>responses i\<close> is the response channel of the outstanding message of client \<open>i\<close>. The system starts with the tank
  \<open>t0\<close> that the replay of the file left (\<open>septic_tank_create\<close> without a file). The last three fields
  record what happened, for the properties: the operations sent, the turns taken with
  their clock readings, and the responses received.
\<close>

record actors =
  tsewer :: "(nat \<times> operation) sewer"
  responses :: "nat \<Rightarrow> septic_tank_result sewer option"
  tank :: septic_tank
  turn :: tank_thread
  psys :: system
  sent :: "(nat \<times> operation) list"
  served :: "(nat \<times> operation \<times> clock) list"
  received :: "(nat \<times> septic_tank_result) list"

definition actors_init :: "septic_tank \<Rightarrow> nat \<Rightarrow> nat \<Rightarrow> nat \<Rightarrow> nat \<Rightarrow> actors" where
  "actors_init t0 tc pc start space =
     \<lparr>tsewer = sewer_create tc, responses = (\<lambda>_. None), tank = t0, turn = Receiving,
      psys = potty_init pc start space, sent = [], served = [], received = []\<rparr>"

section \<open>Steps\<close>

definition client_send :: "nat \<Rightarrow> operation \<Rightarrow> actors \<Rightarrow> actors option res" where
  \<comment> \<open>the first half of \<^verbatim>\<open>septic_tank_feed\<close>, for a client that has no message outstanding\<close>
  "client_send i op s =
     (if responses s i \<noteq> None then Inr None
      else rbind (sewer_send (tsewer s) (i, clone_operation op)) (\<lambda>r. Inr (map_option (\<lambda>q.
        s\<lparr>tsewer := q, responses := (responses s)(i := Some (sewer_create 1)), sent := sent s @ [(i, op)]\<rparr>) r)))"

definition client_receive :: "nat \<Rightarrow> actors \<Rightarrow> actors option res" where
  \<comment> \<open>the second half of \<^verbatim>\<open>septic_tank_feed\<close>: receive and destroy the response channel\<close>
  "client_receive i s =
     (case responses s i of
        None \<Rightarrow> Inr None
      | Some q \<Rightarrow> rbind (sewer_consume q) (\<lambda>r. Inr (map_option (\<lambda>(result, _).
          s\<lparr>responses := (responses s)(i := None), received := received s @ [(i, result)]\<rparr>) r)))"

definition tank_turn :: "(nat \<Rightarrow> bool) \<Rightarrow> clock \<Rightarrow> actors \<Rightarrow> actors option res" where
  \<comment> \<open>receive a message, resolve and apply its operation\<close>
  "tank_turn cal clk s =
     (if turn s \<noteq> Receiving then Inr None
      else rbind (sewer_consume (tsewer s)) (\<lambda>r.
        case r of
          None \<Rightarrow> Inr None
        | Some ((i, op), q) \<Rightarrow>
            rbind (septic_tank_digest cal clk (tank s) op True) (\<lambda>(tank', reply, logged).
              case reply of
                None \<Rightarrow> Inl NullDeref
              | Some result \<Rightarrow> Inr (Some (s\<lparr>tsewer := q, tank := tank', turn := Answering i result logged,
                  served := served s @ [(i, op, clk)]\<rparr>)))))"

definition tank_answer :: "actors \<Rightarrow> actors option res" where
  "tank_answer s =
     (case turn s of
        Answering i result logged \<Rightarrow>
          (case responses s i of
             None \<Rightarrow> Inl NullDeref
           | Some q \<Rightarrow> rbind (sewer_send q result) (\<lambda>r. Inr (map_option (\<lambda>q'.
               s\<lparr>responses := (responses s)(i := Some q'),
                 turn := (case logged of None \<Rightarrow> Receiving | Some mu \<Rightarrow> Feeding mu)\<rparr>) r)))
      | _ \<Rightarrow> Inr None)"

definition tank_feed :: "actors \<Rightarrow> actors option res" where
  "tank_feed s =
     (case turn s of
        Feeding mu \<Rightarrow> rbind (potty_step (Feed mu) (psys s)) (\<lambda>r. Inr (map_option (\<lambda>ps.
          s\<lparr>psys := ps, turn := Receiving\<rparr>) r))
      | _ \<Rightarrow> Inr None)"

definition potty_moves :: "action \<Rightarrow> actors \<Rightarrow> actors option res" where
  \<comment> \<open>a step of the collecting thread or of a flusher\<close>
  "potty_moves a s =
     (case a of
        Feed _ \<Rightarrow> Inr None
      | _ \<Rightarrow> rbind (potty_step a (psys s)) (\<lambda>r. Inr (map_option (\<lambda>ps. s\<lparr>psys := ps\<rparr>) r)))"

datatype actor_action =
    Client_send nat operation
  | Client_receive nat
  | Tank_turn clock
  | Tank_answer
  | Tank_feed
  | Potty_action action

fun actors_step :: "(nat \<Rightarrow> bool) \<Rightarrow> actor_action \<Rightarrow> actors \<Rightarrow> actors option res" where
  "actors_step cal (Client_send i op) s = client_send i op s"
| "actors_step cal (Client_receive i) s = client_receive i s"
| "actors_step cal (Tank_turn clk) s = tank_turn cal clk s"
| "actors_step cal Tank_answer s = tank_answer s"
| "actors_step cal Tank_feed s = tank_feed s"
| "actors_step cal (Potty_action a) s = potty_moves a s"

inductive actors_reachable :: "(nat \<Rightarrow> bool) \<Rightarrow> septic_tank \<Rightarrow> nat \<Rightarrow> nat \<Rightarrow> nat \<Rightarrow> nat \<Rightarrow> actors \<Rightarrow> bool"
  for cal t0 tc pc start space where
  start: "actors_reachable cal t0 tc pc start space (actors_init t0 tc pc start space)"
| move: "actors_reachable cal t0 tc pc start space s \<Longrightarrow> actors_step cal a s = Inr (Some s') \<Longrightarrow>
    actors_reachable cal t0 tc pc start space s'"

section \<open>The sequential run\<close>

text \<open>What the store actor alone does with a list of messages: final store, responses, mutations.\<close>

fun actor_run ::
  "(nat \<Rightarrow> bool) \<Rightarrow> septic_tank \<Rightarrow> (nat \<times> operation \<times> clock) list \<Rightarrow>
     (septic_tank \<times> (nat \<times> septic_tank_result) list \<times> mutation list) res" where
  "actor_run cal t [] = Inr (t, [], [])"
| "actor_run cal t ((i, op, clk) # ms) =
     rbind (septic_tank_digest cal clk t op True) (\<lambda>(t, reply, logged).
       case reply of
         None \<Rightarrow> Inl NullDeref
       | Some r \<Rightarrow> rbind (actor_run cal t ms) (\<lambda>(t, answers, log).
           Inr (t, (i, r) # answers, (case logged of None \<Rightarrow> log | Some mu \<Rightarrow> mu # log))))"

lemma actor_run_append:
  assumes "actor_run cal t ms = Inr (t1, answers, log)"
    and "septic_tank_digest cal clk t1 op True = Inr (t2, Some r, logged)"
  shows "actor_run cal t (ms @ [(i, op, clk)]) =
    Inr (t2, answers @ [(i, r)], log @ (case logged of None \<Rightarrow> [] | Some mu \<Rightarrow> [mu]))"
  using assms
proof (induction ms arbitrary: t answers log)
  case (Cons m ms)
  obtain j op' clk' where m: "m = (j, op', clk')" by (cases m)
  from Cons.prems(1) obtain t' r' logged' answers' log' where
    "septic_tank_digest cal clk' t op' True = Inr (t', Some r', logged')" "actor_run cal t' ms = Inr (t1, answers', log')"
    "answers = (j, r') # answers'" "log = (case logged' of None \<Rightarrow> log' | Some mu \<Rightarrow> mu # log')"
    by (auto simp: m rbind_eq_Inr_iff split: option.splits prod.splits)
  with Cons.IH [OF _ Cons.prems(2)] show ?case
    by (auto simp: m split: option.splits)
qed (simp split: option.splits)

lemma actor_run_pump:
  "actor_run cal t ms = Inr (t', answers, log) \<Longrightarrow>
     septic_tank_pump cal t (map snd ms) = Inr (t', log)"
proof (induction ms arbitrary: t answers log)
  case (Cons m ms)
  obtain j op' clk' where m: "m = (j, op', clk')" by (cases m)
  from Cons.prems(1) obtain t1 r' logged' answers' log' where
    "septic_tank_digest cal clk' t op' True = Inr (t1, Some r', logged')" "actor_run cal t1 ms = Inr (t', answers', log')"
    "log = (case logged' of None \<Rightarrow> log' | Some mu \<Rightarrow> mu # log')"
    by (auto simp: m rbind_eq_Inr_iff split: option.splits prod.splits)
  with Cons.IH show ?case by (auto simp: m)
qed simp

section \<open>Invariant\<close>

definition of_client :: "nat \<Rightarrow> (nat \<times> 'a) list \<Rightarrow> 'a list" where
  "of_client i xs = map snd (filter (\<lambda>x. fst x = i) xs)"

lemma of_client_simps [simp]:
  "of_client i [] = []" "of_client i (xs @ ys) = of_client i xs @ of_client i ys"
  "of_client i [(j, x)] = (if j = i then [x] else [])"
  by (simp_all add: of_client_def)

fun answering :: "tank_thread \<Rightarrow> (nat \<times> septic_tank_result) list" where
  "answering (Answering i r logged) = [(i, r)]"
| "answering _ = []"

fun unlogged :: "tank_thread \<Rightarrow> mutation list" where
  \<comment> \<open>the mutation of the current turn, if it still has to be handed to the persistence actor\<close>
  "unlogged (Answering i r (Some mu)) = [mu]"
| "unlogged (Feeding mu) = [mu]"
| "unlogged _ = []"

definition waiting :: "actors \<Rightarrow> nat list" where
  \<comment> \<open>the clients whose message is queued or being handled\<close>
  "waiting s = map fst (ring_content (tsewer s)) @ map fst (answering (turn s))"

definition delivered :: "actors \<Rightarrow> nat \<Rightarrow> septic_tank_result list" where
  \<comment> \<open>what is in the client's response channel\<close>
  "delivered s i = (case responses s i of None \<Rightarrow> [] | Some q \<Rightarrow> ring_content q)"

definition channels_ok :: "actors \<Rightarrow> bool" where
  "channels_ok s \<longleftrightarrow>
     ring_wf (tsewer s) \<and> distinct (waiting s) \<and>
     (\<forall>i \<in> set (waiting s). responses s i \<noteq> None \<and> delivered s i = []) \<and>
     (\<forall>i q. responses s i = Some q \<longrightarrow> ring_wf q \<and> cap q = 1 \<and> (i \<in> set (waiting s) \<or> ring_content q \<noteq> []))"

definition history_ok :: "(nat \<Rightarrow> bool) \<Rightarrow> septic_tank \<Rightarrow> actors \<Rightarrow> bool" where
  "history_ok cal t0 s \<longleftrightarrow>
     sent s = map (\<lambda>(i, op, clk). (i, op)) (served s) @ ring_content (tsewer s) \<and>
     (\<exists>answers. actor_run cal t0 (served s) = Inr (tank s, answers, fed (psys s) @ unlogged (turn s)) \<and>
       (\<forall>i. of_client i answers = of_client i (received s) @ delivered s i @ of_client i (answering (turn s))))"

lemma init_ok: "channels_ok (actors_init t0 tc pc start space)" "history_ok cal t0 (actors_init t0 tc pc start space)"
  by (auto simp: ring_create_wf channels_ok_def history_ok_def actors_init_def waiting_def delivered_def sewer_create_def potty_init_def)

lemma send_ok:
  assumes ch: "channels_ok s" and h: "history_ok cal t0 s" and st: "client_send i op s = Inr (Some s')"
  shows "channels_ok s'" and "history_ok cal t0 s'"
proof -
  from st have free: "responses s i = None" by (auto simp: client_send_def split: if_splits)
  with st obtain q where q: "sewer_send (tsewer s) (i, op) = Inr (Some q)"
    and s': "s' = s\<lparr>tsewer := q, responses := (responses s)(i := Some (sewer_create 1)), sent := sent s @ [(i, op)]\<rparr>"
    by (auto simp: client_send_def rbind_eq_Inr_iff)
  have wf: "ring_wf q" "ring_content q = ring_content (tsewer s) @ [(i, op)]"
    using sw.sendD [OF _ q] ch by (auto simp: channels_ok_def)
  have new: "i \<notin> set (waiting s)" using ch free by (auto simp: channels_ok_def)
  have w: "set (waiting s') = insert i (set (waiting s))" "distinct (waiting s')"
    using new ch wf(2) by (auto simp: waiting_def s' channels_ok_def)
  have d: "delivered s' j = (if j = i then [] else delivered s j)" for j
    by (simp add: delivered_def s' sewer_create_def ring_create_wf)
  have one: "ring_wf (sewer_create 1)" "cap (sewer_create 1) = 1"
    by (simp_all add: sewer_create_def ring_create_wf)
  have "responses s' j \<noteq> None \<and> delivered s' j = []" if "j \<in> set (waiting s')" for j
    using that ch by (cases "j = i") (auto simp: w(1) d channels_ok_def, auto simp: s')
  moreover have "ring_wf p \<and> cap p = 1 \<and> (j \<in> set (waiting s') \<or> ring_content p \<noteq> [])"
    if "responses s' j = Some p" for j p
  proof (cases "j = i")
    case True
    with that have "p = sewer_create 1" by (simp add: s')
    with one True w(1) show ?thesis by simp
  next
    case False
    with that have "responses s j = Some p" by (simp add: s')
    with ch w(1) show ?thesis by (auto simp: channels_ok_def)
  qed
  moreover have "tsewer s' = q" by (simp add: s')
  ultimately show "channels_ok s'" using w wf(1) by (simp add: channels_ok_def)
  have "delivered s i = []" using free by (simp add: delivered_def)
  then have "delivered s' j = delivered s j" for j by (simp add: d)
  then show "history_ok cal t0 s'" using h wf(2) by (auto simp: history_ok_def s')
qed

lemma receive_ok:
  assumes ch: "channels_ok s" and h: "history_ok cal t0 s" and st: "client_receive i s = Inr (Some s')"
  shows "channels_ok s'" and "history_ok cal t0 s'"
proof -
  from st obtain q r q' where q: "responses s i = Some q" "sewer_consume q = Inr (Some (r, q'))"
    and s': "s' = s\<lparr>responses := (responses s)(i := None), received := received s @ [(i, r)]\<rparr>"
    by (auto simp: client_receive_def rbind_eq_Inr_iff split: option.splits)
  have wf: "ring_wf q" "cap q = 1" using ch q(1) by (auto simp: channels_ok_def)
  have c: "ring_content q = r # ring_content q'" using sw.receiveD [OF wf(1) q(2)] by simp
  have "length (ring_content q) \<le> 1" using ring.bounded [OF wf(1)] wf(2) by simp
  with c have one: "delivered s i = [r]"
    by (cases "ring_content q'") (simp_all add: delivered_def q(1) del: length_ring_content)
  then have out: "i \<notin> set (waiting s)" using ch by (auto simp: channels_ok_def)
  have d: "delivered s' j = (if j = i then [] else delivered s j)" for j
    by (simp add: delivered_def s')
  have w: "waiting s' = waiting s" by (simp add: waiting_def s')
  have resp: "responses s' j = (if j = i then None else responses s j)" for j by (simp add: s')
  have "responses s' j \<noteq> None \<and> delivered s' j = []" if "j \<in> set (waiting s')" for j
    using that ch out by (cases "j = i") (auto simp: w d channels_ok_def, auto simp: s')
  moreover have "ring_wf p \<and> cap p = 1 \<and> (j \<in> set (waiting s') \<or> ring_content p \<noteq> [])"
    if "responses s' j = Some p" for j p
    using that ch w resp [of j] by (auto simp: channels_ok_def split: if_splits)
  moreover have "tsewer s' = tsewer s" by (simp add: s')
  ultimately show "channels_ok s'" using ch w by (simp add: channels_ok_def)
  show "history_ok cal t0 s'"
    using h one by (auto simp: history_ok_def s' d of_client_def delivered_def split: if_splits)
qed

lemma turn_ok:
  assumes ch: "channels_ok s" and h: "history_ok cal t0 s" and st: "tank_turn cal clk s = Inr (Some s')"
  shows "channels_ok s'" and "history_ok cal t0 s'"
proof -
  from st have rec: "turn s = Receiving" by (auto simp: tank_turn_def split: if_splits)
  with st obtain i op q t r logged where c: "sewer_consume (tsewer s) = Inr (Some ((i, op), q))"
    and dig: "septic_tank_digest cal clk (tank s) op True = Inr (t, Some r, logged)"
    and s': "s' = s\<lparr>tsewer := q, tank := t, turn := Answering i r logged, served := served s @ [(i, op, clk)]\<rparr>"
    by (auto simp: tank_turn_def rbind_eq_Inr_iff split: option.splits)
  have wf: "ring_wf q" "ring_content (tsewer s) = (i, op) # ring_content q"
    using sw.receiveD [OF _ c] ch by (auto simp: channels_ok_def)
  have w: "set (waiting s') = set (waiting s)" "distinct (waiting s')"
    using ch wf(2) rec by (auto simp: waiting_def s' channels_ok_def)
  have d: "delivered s' = delivered s" by (simp add: delivered_def s' fun_eq_iff)
  have same: "responses s' = responses s" "tsewer s' = q" by (simp_all add: s')
  show "channels_ok s'" using ch w wf(1) by (simp add: channels_ok_def d same)
  from h obtain answers where run: "actor_run cal t0 (served s) =
      Inr (tank s, answers, fed (psys s) @ unlogged (turn s))"
    and ans: "\<forall>i. of_client i answers = of_client i (received s) @ delivered s i @ of_client i (answering (turn s))"
    by (auto simp: history_ok_def)
  have "actor_run cal t0 (served s') =
      Inr (tank s', answers @ [(i, r)], fed (psys s') @ unlogged (turn s'))"
    using actor_run_append [OF run dig] rec by (cases logged) (simp_all add: s')
  moreover have "of_client j (answers @ [(i, r)]) =
      of_client j (received s') @ delivered s' j @ of_client j (answering (turn s'))" for j
    unfolding d using ans rec by (simp add: s')
  moreover have "sent s' = map (\<lambda>(i, op, clk). (i, op)) (served s') @ ring_content (tsewer s')"
    using h wf(2) by (simp add: history_ok_def s')
  ultimately show "history_ok cal t0 s'" unfolding history_ok_def by blast
qed

text \<open>The response channel has room for the one response that is sent to it.\<close>

lemma answer_enabled:
  assumes ch: "channels_ok s" and t: "turn s = Answering i r logged"
  shows "\<exists>q q'. responses s i = Some q \<and> sewer_send q r = Inr (Some q') \<and> ring_wf q' \<and> cap q' = 1 \<and>
    ring_content q = [] \<and> ring_content q' = [r]"
proof -
  have i: "i \<in> set (waiting s)" by (simp add: waiting_def t)
  then obtain q where q: "responses s i = Some q" "ring_content q = []"
    using ch by (force simp: channels_ok_def delivered_def)
  have wf: "ring_wf q" "cap q = 1" using ch q(1) by (auto simp: channels_ok_def)
  from q(2) have "rlen q = 0" using length_ring_content [of q] by simp
  then obtain q' where "ringbuf_push q r = Inr (True, q')" "ring_wf q'" "ring_content q' = [r]" "cap q' = 1"
    using ring.push_room [OF wf(1), of r] wf(2) q(2) by auto
  with q \<open>rlen q = 0\<close> wf(2) show ?thesis by (simp add: sewer_send_def ringbuf_is_full_def)
qed

lemma answer_ok:
  assumes ch: "channels_ok s" and h: "history_ok cal t0 s" and st: "tank_answer s = Inr (Some s')"
  shows "channels_ok s'" and "history_ok cal t0 s'"
proof -
  from st obtain i r logged where t: "turn s = Answering i r logged"
    by (auto simp: tank_answer_def split: tank_thread.splits)
  obtain q q' where q: "responses s i = Some q" "sewer_send q r = Inr (Some q')" "ring_wf q'" "cap q' = 1"
      "ring_content q = []" "ring_content q' = [r]"
    using answer_enabled [OF ch t] by blast
  have s': "s' = s\<lparr>responses := (responses s)(i := Some q'),
      turn := (case logged of None \<Rightarrow> Receiving | Some mu \<Rightarrow> Feeding mu)\<rparr>"
    using st q by (simp add: tank_answer_def t)
  have ans: "answering (turn s') = []" "unlogged (turn s') = unlogged (turn s)"
    by (cases logged; simp add: s' t)+
  have w: "waiting s = waiting s' @ [i]" using ans(1) by (simp add: waiting_def t s')
  have d: "delivered s' j = (if j = i then [r] else delivered s j)" for j
    using q(6) by (simp add: delivered_def s')
  have out: "i \<notin> set (waiting s')" and "distinct (waiting s')"
    using ch w by (auto simp: channels_ok_def)
  moreover have "responses s' j \<noteq> None \<and> delivered s' j = []" if "j \<in> set (waiting s')" for j
  proof -
    have "j \<noteq> i" "j \<in> set (waiting s)" using that out w by auto
    with ch show ?thesis by (simp add: d) (simp add: channels_ok_def s')
  qed
  moreover have "ring_wf p \<and> cap p = 1 \<and> (j \<in> set (waiting s') \<or> ring_content p \<noteq> [])"
    if "responses s' j = Some p" for j p
    using that ch q(3,4,6) by (auto simp: s' w channels_ok_def split: if_splits)
  moreover have "tsewer s' = tsewer s" by (simp add: s')
  ultimately show "channels_ok s'" using ch by (simp add: channels_ok_def)
  have "delivered s i = []" by (simp add: delivered_def q)
  moreover have "sent s' = sent s" "served s' = served s" "received s' = received s" "tank s' = tank s"
      "psys s' = psys s" "tsewer s' = tsewer s"
    by (simp_all add: s')
  ultimately show "history_ok cal t0 s'"
    using h ans(2) by (auto simp: history_ok_def d ans(1) t)
qed

lemma feed_ok:
  assumes ch: "channels_ok s" and h: "history_ok cal t0 s" and st: "tank_feed s = Inr (Some s')"
  shows "channels_ok s'" and "history_ok cal t0 s'" and "step (psys s) (psys s')"
proof -
  from st obtain mu ps where t: "turn s = Feeding mu" and f: "potty_step (Feed mu) (psys s) = Inr (Some ps)"
    and s': "s' = s\<lparr>psys := ps, turn := Receiving\<rparr>"
    by (auto simp: tank_feed_def rbind_eq_Inr_iff split: tank_thread.splits)
  have "fed ps = fed (psys s) @ [mu]" using f by (auto simp: rbind_eq_Inr_iff)
  with h show "history_ok cal t0 s'" by (simp add: history_ok_def s' t delivered_def)
  show "channels_ok s'" using ch by (simp add: channels_ok_def s' t waiting_def delivered_def)
  show "step (psys s) (psys s')" using step.step [OF f] by (simp add: s')
qed

lemma other_steps_feed_nothing: "potty_step a s = Inr (Some s') \<Longrightarrow> \<forall>mu. a \<noteq> Feed mu \<Longrightarrow> fed s' = fed s"
  by (cases a) (auto simp: rbind_eq_Inr_iff split: if_splits option.splits flusher.splits prod.splits)

lemma moves_ok:
  assumes ch: "channels_ok s" and h: "history_ok cal t0 s" and st: "potty_moves a s = Inr (Some s')"
  shows "channels_ok s'" and "history_ok cal t0 s'" and "step (psys s) (psys s')"
proof -
  from st have a: "\<forall>mu. a \<noteq> Feed mu" by (auto simp: potty_moves_def)
  with st obtain ps where p: "potty_step a (psys s) = Inr (Some ps)" and s': "s' = s\<lparr>psys := ps\<rparr>"
    by (cases a) (auto simp: potty_moves_def rbind_eq_Inr_iff simp del: potty_step.simps)
  from other_steps_feed_nothing [OF p a] h show "history_ok cal t0 s'"
    by (simp add: history_ok_def s' delivered_def)
  show "channels_ok s'" using ch by (simp add: channels_ok_def s' waiting_def delivered_def)
  show "step (psys s) (psys s')" using step.step [OF p] by (simp add: s')
qed

lemma client_tank_keep_psys:
  "client_send i op s = Inr (Some s') \<Longrightarrow> psys s' = psys s"
  "client_receive i s = Inr (Some s') \<Longrightarrow> psys s' = psys s"
  "tank_turn cal clk s = Inr (Some s') \<Longrightarrow> psys s' = psys s"
  "tank_answer s = Inr (Some s') \<Longrightarrow> psys s' = psys s"
  by (auto simp: client_send_def client_receive_def tank_turn_def tank_answer_def rbind_eq_Inr_iff
      split: if_splits option.splits tank_thread.splits)

lemma actors_inv:
  assumes "actors_reachable cal t0 tc pc start space s"
  shows "channels_ok s \<and> history_ok cal t0 s \<and> reachable pc start space (psys s)"
  using assms
proof (induction rule: actors_reachable.induct)
  case start
  show ?case using init_ok by (simp add: actors_init_def init)
next
  case (move s a s')
  then have ch: "channels_ok s" and h: "history_ok cal t0 s" and r: "reachable pc start space (psys s)" by auto
  show ?case
  proof (cases a)
    case (Client_send i op)
    with move(2) have "client_send i op s = Inr (Some s')" by simp
    with send_ok [OF ch h this] client_tank_keep_psys(1) r show ?thesis by auto
  next
    case (Client_receive i)
    with move(2) have "client_receive i s = Inr (Some s')" by simp
    with receive_ok [OF ch h this] client_tank_keep_psys(2) r show ?thesis by auto
  next
    case (Tank_turn clk)
    with move(2) have "tank_turn cal clk s = Inr (Some s')" by simp
    with turn_ok [OF ch h this] client_tank_keep_psys(3) r show ?thesis by auto
  next
    case Tank_answer
    with move(2) have "tank_answer s = Inr (Some s')" by simp
    with answer_ok [OF ch h this] client_tank_keep_psys(4) r show ?thesis by auto
  next
    case Tank_feed
    with move(2) have "tank_feed s = Inr (Some s')" by simp
    with feed_ok [OF ch h this] r show ?thesis by (auto intro: next_state)
  next
    case (Potty_action b)
    with move(2) have "potty_moves b s = Inr (Some s')" by simp
    with moves_ok [OF ch h this] r show ?thesis by (auto intro: next_state)
  qed
qed

section \<open>The channel of the log keeps its capacity\<close>

lemma send_cap: "sewer_send q x = Inr (Some q') \<Longrightarrow> cap q' = cap q"
  by (auto simp: sewer_send_def ringbuf_push_def rbind_eq_Inr_iff split: if_splits)

lemma timed_consume_cap: "sewer_timed_consume q b = Inr (Some (m, q')) \<Longrightarrow> cap q' = cap q"
  by (auto simp: sewer_timed_consume_def ringbuf_pop_def rbind_eq_Inr_iff split: if_splits option.splits)

lemma pump_consume_cap:
  assumes "pump_consume p b = Inr (Some p')"
  shows "cap (psewer p') = cap (psewer p)"
proof -
  from assms obtain m q where r: "sewer_timed_consume (psewer p) b = Inr (Some (m, q))"
    and body: "(case m of None \<Rightarrow> Inr (Some (p\<lparr>psewer := q\<rparr>))
      | Some mu \<Rightarrow> rbind (potty_poop (p\<lparr>psewer := q\<rparr>) mu) (\<lambda>p. Inr (Some p))) = Inr (Some p')"
    by (cases "sewer_timed_consume (psewer p) b"; cases "projr (sewer_timed_consume (psewer p) b)")
      (auto simp: pump_consume_def Let_def)
  then have "psewer p' = q" by (cases m) (auto simp: potty_poop_def rbind_eq_Inr_iff)
  with timed_consume_cap [OF r] show ?thesis by simp
qed

lemma flush_keeps_sewer: "potty_flush p now = Inr (p', b) \<Longrightarrow> psewer p' = psewer p"
  by (auto simp: potty_flush_def rbind_eq_Inr_iff Let_def split: if_splits)

lemma take_keeps_sewer: "drain_take p = Inr (p', j) \<Longrightarrow> psewer p' = psewer p"
  by (auto simp: drain_take_def rbind_eq_Inr_iff split: if_splits option.splits)

lemma potty_step_cap:
  assumes "potty_step a s = Inr (Some s')"
  shows "cap (psewer (pt s')) = cap (psewer (pt s))"
proof (cases a)
  case (Flusher_take i b)
  with assms have i: "i < length (flushers s)" "flushers s ! i = Looking" by (auto split: if_splits)
  with assms Flusher_take obtain p job where d: "drain_take (pt s) = Inr (p, job)"
    by (cases "drain_take (pt s)") auto
  with assms Flusher_take i have "pt s' = p" by (cases job) (auto split: if_splits)
  with take_keeps_sewer [OF d] show ?thesis by simp
next
  case (Flusher_write i)
  with assms have i: "i < length (flushers s)" by (auto split: if_splits)
  with assms Flusher_write obtain job n where f: "flushers s ! i = Flushing job n"
    by (cases "flushers s ! i") auto
  with assms Flusher_write i obtain r where "flush_one (aof s) job n = Inr r"
    by (cases "flush_one (aof s) job n") auto
  with assms Flusher_write i f show ?thesis by (cases r) auto
next
  case (Pump_check n n')
  with assms show ?thesis
    by (auto simp: rbind_eq_Inr_iff dest: flush_keeps_sewer split: if_splits)
next
  case (Pump_consume b)
  with assms show ?thesis
    by (auto simp: rbind_eq_Inr_iff dest: pump_consume_cap split: if_splits)
next
  case (Feed mu)
  with assms show ?thesis
    by (auto simp: rbind_eq_Inr_iff potty_feed_def dest: send_cap)
qed

lemma reachable_cap: "reachable c start space s \<Longrightarrow> cap (psewer (pt s)) = c"
proof (induction rule: reachable.induct)
  case init
  show ?case by (simp add: potty_init_def potty_create_def sewer_create_def ring_create_wf)
next
  case (next_state s s')
  then show ?case by (auto elim!: stepE dest: potty_step_cap)
qed

section \<open>One client followed through the system\<close>

definition get_answer :: septic_tank_result where
  "get_answer = (blank_result SEPTIC_TANK_GET Unset_result)\<lparr>rvalue := Get_result None\<rparr>"

lemma digest_get_absent:
  "hashmap_get (tank_data t) k = None \<Longrightarrow>
     septic_tank_digest cal clk t (Get_op k) True = Inr (t, Some get_answer, None)"
  by (simp add: septic_tank_digest_def septic_tank_get_def blank_result_def get_answer_def)

lemma get_run:
  "\<exists>s. actors_reachable cal septic_tank_create 5 5 0 1000 s \<and> turn s = Answering 3 get_answer None \<and>
     served s = [(3, Get_op ''c'', at_second 5)] \<and> received s = [] \<and> responses s 3 \<noteq> None \<and> delivered s 3 = []"
proof -
  let ?s0 = "actors_init septic_tank_create 5 5 0 1000"
  have wf: "ring_wf (tsewer ?s0)" "\<not> ringbuf_is_full (tsewer ?s0)" "ring_content (tsewer ?s0) = []"
    by (simp_all add: actors_init_def sewer_create_def ring_create_wf ringbuf_is_full_def)
      (simp add: ringbuf_create_def)
  obtain q where q: "sewer_send (tsewer ?s0) (3, Get_op ''c'') = Inr (Some q)" "ring_wf q"
      "ring_content q = [(3, Get_op ''c'')]"
    using sw.send_room [OF wf(1,2), of "(3, Get_op ''c'')"] wf(3) by auto
  let ?s1 = "?s0\<lparr>tsewer := q, responses := (responses ?s0)(3 := Some (sewer_create 1)), sent := [(3, Get_op ''c'')]\<rparr>"
  have "actors_step cal (Client_send 3 (Get_op ''c'')) ?s0 = Inr (Some ?s1)"
    using q(1) by (simp add: client_send_def actors_init_def)
  then have r1: "actors_reachable cal septic_tank_create 5 5 0 1000 ?s1" by (rule move [OF start])
  obtain q' where q': "sewer_consume q = Inr (Some ((3, Get_op ''c''), q'))"
    using sw.receive_some [OF q(2,3)] by blast
  have none: "hashmap_get (tank_data septic_tank_create) ''c'' = None"
    by (simp add: septic_tank_create_def get_new)
  let ?s2 = "?s1\<lparr>tsewer := q', turn := Answering 3 get_answer None, served := [(3, Get_op ''c'', at_second 5)]\<rparr>"
  have "actors_step cal (Tank_turn (at_second 5)) ?s1 = Inr (Some ?s2)"
    using q' digest_get_absent [OF none] by (simp add: tank_turn_def actors_init_def)
  from move [OF r1 this] show ?thesis
    by (intro exI [of _ ?s2]) (simp add: actors_init_def delivered_def sewer_create_def ring_create_wf)
qed

section \<open>Properties\<close>

text \<open>
  C6: the clients see one store. Whatever the interleaving of the threads, the store is what the actor
  alone computes, starting with the tank \<open>t0\<close>, from the operations sent so far, one after the other in the order in which they
  were sent, up to those still queued; every client receives exactly the responses of that sequential run to its own operations, each
  once and in order; and what was handed to the log is exactly what the run logs, but for the
  mutation of a turn that is not over yet.
\<close>

theorem actors_linearizable:
  assumes "actors_reachable cal t0 tc pc start space s"
  shows "sent s = map (\<lambda>(i, op, clk). (i, op)) (served s) @ ring_content (tsewer s) \<and>
    (\<exists>answers. actor_run cal t0 (served s) = Inr (tank s, answers, fed (psys s) @ unlogged (turn s)) \<and>
       (\<forall>i. of_client i answers = of_client i (received s) @ delivered s i @ of_client i (answering (turn s))))"
  using actors_inv [OF assms] by (simp add: history_ok_def)

theorem actors_linearizable_witness:
  "\<exists>s answers. actors_reachable (\<lambda>_. True) septic_tank_create 5 5 0 1000 s \<and> served s = [(3, Get_op ''c'', at_second 5)] \<and>
     actor_run (\<lambda>_. True) septic_tank_create (served s) = Inr (tank s, answers, fed (psys s) @ unlogged (turn s)) \<and>
     of_client 3 answers = [get_answer]"
proof -
  obtain s where r: "actors_reachable (\<lambda>_. True) septic_tank_create 5 5 0 1000 s" and t: "turn s = Answering 3 get_answer None"
    and s: "served s = [(3, Get_op ''c'', at_second 5)]" "received s = []" "delivered s 3 = []"
    using get_run by blast
  from actors_linearizable [OF r] obtain answers where
    "actor_run (\<lambda>_. True) septic_tank_create (served s) = Inr (tank s, answers, fed (psys s) @ unlogged (turn s))"
    "of_client 3 answers = of_client 3 (received s) @ delivered s 3 @ of_client 3 (answering (turn s))" by blast
  moreover from this(2) have "of_client 3 answers = [get_answer]" by (simp add: t s)
  ultimately show ?thesis using r s(1) by blast
qed

text \<open>
  C8: the send of the response never blocks, as a comment in \<^verbatim>\<open>septic_tank_digest\<close> hopes: when the
  store actor has an answer for a client, the client's response channel exists and has room.
\<close>

theorem response_never_blocks:
  assumes "actors_reachable cal t0 tc pc start space s" and "turn s = Answering i r logged"
  shows "\<exists>s'. actors_step cal Tank_answer s = Inr (Some s') \<and> delivered s' i = [r]"
proof -
  have ch: "channels_ok s" using actors_inv [OF assms(1)] by blast
  obtain q q' where "responses s i = Some q" "sewer_send q r = Inr (Some q')" "ring_content q' = [r]"
    using answer_enabled [OF ch assms(2)] by blast
  then show ?thesis by (simp add: tank_answer_def assms(2) delivered_def)
qed

theorem response_never_blocks_witness:
  "\<exists>s s'. actors_reachable (\<lambda>_. True) septic_tank_create 5 5 0 1000 s \<and> actors_step (\<lambda>_. True) Tank_answer s = Inr (Some s') \<and>
     delivered s' 3 = [get_answer]"
proof -
  obtain s where r: "actors_reachable (\<lambda>_. True) septic_tank_create 5 5 0 1000 s" and t: "turn s = Answering 3 get_answer None"
    using get_run by blast
  from response_never_blocks [OF r t] r show ?thesis by blast
qed

end
