(* ===== verification/Restart.thy ===== *)
theory Restart
  imports Requests Boot Actors
begin

text \<open>
  What the restart theorems need from the components: a file of whole records is replayed completely by
  \<open>main_boot\<close>, and the log of a sequence of requests determines the visible store.
\<close>

lemma boot_replays:
  assumes "\<forall>n. cal n" and "separate K" and "\<forall>mu \<in> set mus. persisted mu \<and> mutation_key mu \<in> K"
    and "list_all mutation_ok mus" and "length mus < SIZE_MOD"
  shows "\<exists>tank. main_boot cal (Opened (reading (concat (map enc_mutation mus)))) = Inr (tank, length mus) \<and>
    aof_enabled tank \<and> at_home K (tank_data tank) \<and> hashmap_get (tank_data tank) = fold spec_apply mus Map.empty"
proof -
  obtain m where m: "replay_mutations cal hashmap_new mus = Inr m" "at_home K m" and safe: "replay_safe cal hashmap_new mus"
    using separate_replay [OF assms(2) at_home_new assms(3)] by blast
  have "hashmap_get m = fold spec_apply mus (hashmap_get hashmap_new)"
    using replay_ok [OF assms(1) map_inv_new safe m(1)] by blast
  also have "hashmap_get (hashmap_new :: store) = Map.empty" by (rule ext) (rule get_new)
  finally have g: "hashmap_get m = fold spec_apply mus Map.empty" .
  have "train_loop cal hashmap_new 0 (reading (concat (map enc_mutation mus))) = Inr (m, length mus)"
    using train_records [OF assms(4), of 0 cal hashmap_new "[]"] assms(5) m(1) by (simp add: train_empty)
  then show ?thesis
    using g m(2) by (simp add: main_boot_def septic_tank_create_def septic_tank_disable_aof_def
        septic_tank_enable_aof_def)
qed

lemma boot_empty: "main_boot cal (Opened (reading [])) = Inr (septic_tank_create, 0)"
  by (simp add: main_boot_def train_empty septic_tank_create_def septic_tank_disable_aof_def septic_tank_enable_aof_def)

text \<open>
  A prefix of a file of records is a number of whole records and perhaps a part of the next one; with such a part
  the start ends in a fault.
\<close>

lemma records_prefix:
  assumes "p @ q = concat (map enc_mutation mus)"
  shows "\<exists>n \<le> length mus. p = concat (map enc_mutation (take n mus)) \<or>
    (\<exists>torn missing. p = concat (map enc_mutation (take n mus)) @ torn \<and> n < length mus \<and>
       torn @ missing = enc_mutation (mus ! n) \<and> torn \<noteq> [] \<and> missing \<noteq> [])"
  using assms
proof (induction mus arbitrary: p)
  case (Cons mu mus)
  then have split: "p @ q = enc_mutation mu @ concat (map enc_mutation mus)" by simp
  show ?case
  proof (cases "length (enc_mutation mu) \<le> length p")
    case True
    with split obtain p' where p': "p = enc_mutation mu @ p'" "p' @ q = concat (map enc_mutation mus)"
      by (metis append_eq_append_conv_if append_eq_conv_conj append_take_drop_id)
    from Cons.IH [OF p'(2)] obtain n where n: "n \<le> length mus"
      "p' = concat (map enc_mutation (take n mus)) \<or>
       (\<exists>torn missing. p' = concat (map enc_mutation (take n mus)) @ torn \<and> n < length mus \<and>
          torn @ missing = enc_mutation (mus ! n) \<and> torn \<noteq> [] \<and> missing \<noteq> [])" by blast
    show ?thesis by (rule exI [of _ "Suc n"]) (use n p'(1) in auto)
  next
    case False
    with split obtain missing where m: "p @ missing = enc_mutation mu" by (auto simp: append_eq_append_conv2)
    then have "missing \<noteq> []" using False by auto
    with m show ?thesis by (intro exI [of _ 0]) auto
  qed
qed simp

lemma boot_torn:
  assumes "\<forall>n. cal n" and "separate K" and "\<forall>mu \<in> set mus. persisted mu \<and> mutation_key mu \<in> K"
    and "list_all mutation_ok mus" and "length mus < SIZE_MOD"
    and "n < length mus" and "torn @ missing = enc_mutation (mus ! n)" and "torn \<noteq> []" and "missing \<noteq> []"
  shows "main_boot cal (Opened (reading (concat (map enc_mutation (take n mus)) @ torn))) = Inl Panic"
proof -
  have ok: "list_all mutation_ok (take n mus)" "mutation_ok (mus ! n)" "length (take n mus) < SIZE_MOD"
    using assms(4-6) by (auto simp: list_all_iff dest: in_set_takeD)
  have "\<forall>mu \<in> set (take n mus). persisted mu \<and> mutation_key mu \<in> K"
    using assms(3) by (auto dest: in_set_takeD)
  from separate_replay [OF assms(2) at_home_new this] obtain m where
    m: "replay_mutations cal hashmap_new (take n mus) = Inr m" by blast
  have "train_loop cal hashmap_new 0 (reading (concat (map enc_mutation (take n mus)) @ torn)) = Inl Panic"
    using train_records [OF ok(1), of 0 cal hashmap_new torn] ok(3) m train_torn [OF ok(2) assms(7-9)] by simp
  then show ?thesis
    by (simp add: main_boot_def septic_tank_create_def septic_tank_disable_aof_def)
qed

text \<open>What a run of the store actor hands to the log determines what its store shows.\<close>

lemma pump_log:
  assumes "\<forall>n. cal n" and "separate K" and "at_home K (tank_data t0)" and "aof_enabled t0"
    and "clocks_ok t msgs" and "\<forall>(op, clk) \<in> set msgs. op_key op \<in> K"
    and "septic_tank_pump cal t0 msgs = Inr (live, mus)"
  shows "\<forall>mu \<in> set mus. persisted mu \<and> mutation_key mu \<in> K"
    and "last_reading t msgs \<le> now \<Longrightarrow>
      visible now (fold spec_apply mus (hashmap_get (tank_data t0))) = visible now (hashmap_get (tank_data live))"
proof -
  note sep = separate_run [OF assms(2,3,5,6), of cal]
  show "\<forall>mu \<in> set mus. persisted mu \<and> mutation_key mu \<in> K"
    using sep assms(7) by auto
  have "shadows (last_reading t msgs) (fold spec_apply mus (hashmap_get (tank_data t0))) (hashmap_get (tank_data live))"
    using pump_shadows [OF assms(1) at_home_inv [OF assms(3)] assms(4,5) _ assms(7) shadows_refl] sep by auto
  then show "last_reading t msgs \<le> now \<Longrightarrow>
      visible now (fold spec_apply mus (hashmap_get (tank_data t0))) = visible now (hashmap_get (tank_data live))"
    using shadows_visible [OF shadows_mono] by blast
qed

lemma served_log:
  assumes "\<forall>n. cal n" and "separate K" and "at_home K (tank_data t0)" and "aof_enabled t0" and "requests_ok K t reqs"
    and "serve_requests cal \<lparr>wtank = t0, wlog = [], has_master = replica\<rparr> reqs = Inr (replies, w)"
  shows "\<forall>mu \<in> set (wlog w). persisted mu \<and> mutation_key mu \<in> K"
    and "end_time t reqs \<le> now \<Longrightarrow>
      visible now (fold spec_apply (wlog w) (hashmap_get (tank_data t0))) = visible now (hashmap_get (tank_data (wtank w)))"
proof -
  obtain msgs mus where run: "septic_tank_pump cal t0 msgs = Inr (wtank w, mus)"
    and log: "wlog w = mus" and keys: "\<forall>(op, clk) \<in> set msgs. op_key op \<in> K"
    and cl: "clocks_ok t msgs" "last_reading t msgs \<le> end_time t reqs"
    using requests_are_turns [OF assms(6,5)] by auto
  note pl = pump_log [OF assms(1-4) cl(1) keys run]
  show "\<forall>mu \<in> set (wlog w). persisted mu \<and> mutation_key mu \<in> K" using pl(1) log by simp
  show "end_time t reqs \<le> now \<Longrightarrow>
      visible now (fold spec_apply (wlog w) (hashmap_get (tank_data t0))) = visible now (hashmap_get (tank_data (wtank w)))"
    using pl(2) [of now] cl(2) log by simp
qed

lemma request_keeps_role: "process_command cal ts clk w v = Inr (reply, w') \<Longrightarrow> has_master w' = has_master w"
  using process_command_touches [of cal ts clk w v reply w']
  by (auto simp: touches_def septic_tank_feed_def rbind_eq_Inr_iff split: option.splits)

lemma requests_keep_role: "serve_requests cal w reqs = Inr (replies, w') \<Longrightarrow> has_master w' = has_master w"
proof (induction reqs arbitrary: w replies)
  case (Cons req reqs)
  obtain v ts clk where req: "req = (v, ts, clk)" by (cases req)
  from Cons.prems obtain reply w1 replies1 where "process_command cal ts clk w v = Inr (reply, w1)"
    "serve_requests cal w1 reqs = Inr (replies1, w')"
    by (auto simp: req rbind_eq_Inr_iff)
  then show ?case using request_keeps_role [of cal ts clk w v reply w1] Cons.IH [of w1 replies1] by simp
qed simp

lemma served_state:
  assumes "separate K" and "at_home K (tank_data (wtank w0))" and "requests_ok K t reqs"
    and "serve_requests cal w0 reqs = Inr (replies, w)"
  shows "at_home K (tank_data (wtank w)) \<and> aof_enabled (wtank w) = aof_enabled (wtank w0)"
proof -
  obtain msgs mus where "septic_tank_pump cal (wtank w0) msgs = Inr (wtank w, mus)"
    "\<forall>(op, clk) \<in> set msgs. op_key op \<in> K" "clocks_ok t msgs"
    using requests_are_turns [OF assms(4,3)] by blast
  with separate_run [OF assms(1,2), of t msgs cal] show ?thesis by auto
qed

lemma clocks_prefix: "clocks_ok t msgs \<Longrightarrow> clocks_ok t (take k msgs)"
proof (induction msgs arbitrary: t k)
  case (Cons m msgs)
  then show ?case by (cases k; cases m) auto
qed simp

text \<open>Each prefix of the log is the log of a prefix of the run.\<close>

lemma run_prefix:
  "actor_run cal t ms = Inr (t', answers, log) \<Longrightarrow> n \<le> length log \<Longrightarrow>
     \<exists>k t1 answers1. k \<le> length ms \<and> actor_run cal t (take k ms) = Inr (t1, answers1, take n log)"
proof (induction ms arbitrary: t n answers log)
  case (Cons m ms)
  obtain i op clk where m: "m = (i, op, clk)" by (cases m)
  from Cons.prems(1) obtain t1 r logged answers' log' where
    d: "septic_tank_digest cal clk t op True = Inr (t1, Some r, logged)" and
    run: "actor_run cal t1 ms = Inr (t', answers', log')" and
    log: "log = (case logged of None \<Rightarrow> log' | Some mu \<Rightarrow> mu # log')"
    by (auto simp: m rbind_eq_Inr_iff split: option.splits prod.splits)
  show ?case
  proof (cases n)
    case 0
    then show ?thesis by (intro exI [of _ 0]) simp
  next
    case (Suc n')
    let ?n = "case logged of None \<Rightarrow> n | Some _ \<Rightarrow> n'"
    have "?n \<le> length log'" using Cons.prems(2) log Suc by (cases logged) auto
    from Cons.IH [OF run this] obtain k t2 answers2 where
      k: "k \<le> length ms" "actor_run cal t1 (take k ms) = Inr (t2, answers2, take ?n log')" by blast
    have "actor_run cal t (take (Suc k) (m # ms)) = Inr (t2, (i, r) # answers2, take n log)"
      using d k(2) log Suc by (cases logged) (simp_all add: m)
    then show ?thesis
      using k(1) by (intro exI [of _ "Suc k"]) simp
  qed
qed simp

text \<open>Every prefix of the log is the log of a prefix of the turns, and a start from it restores their store.\<close>

lemma log_prefix_restored:
  assumes "\<forall>n. cal n" and "separate K" and "\<forall>mu \<in> set old. persisted mu \<and> mutation_key mu \<in> K"
    and "main_boot cal (Opened (reading (concat (map enc_mutation old)))) = Inr (t0, n0)"
    and "actors_reachable cal t0 tc pc start space s"
    and "\<forall>(i, op, clk) \<in> set (served s). op_key op \<in> K" and "clocks_ok t (map snd (served s))"
    and "list_all mutation_ok (old @ fed (psys s))" and "length (old @ fed (psys s)) < SIZE_MOD"
  shows "n0 = length old \<and> (\<forall>mu \<in> set (old @ fed (psys s)). persisted mu \<and> mutation_key mu \<in> K)"
    and "n \<le> length (fed (psys s)) \<Longrightarrow> \<exists>tk k live answers.
      main_boot cal (Opened (reading (concat (map enc_mutation old) @ concat (map enc_mutation (take n (fed (psys s))))))) =
        Inr (tk, n0 + n) \<and> aof_enabled tk \<and> k \<le> length (served s) \<and>
      actor_run cal t0 (take k (served s)) = Inr (live, answers, take n (fed (psys s))) \<and>
      (\<forall>now \<ge> last_reading t (take k (map snd (served s))).
         visible now (hashmap_get (tank_data tk)) = visible now (hashmap_get (tank_data live)))"
proof -
  let ?log = "fed (psys s)"
  have "list_all mutation_ok old" "length old < SIZE_MOD" using assms(8,9) by simp_all
  from boot_replays [OF assms(1,2,3) this] assms(4) have t0: "at_home K (tank_data t0)" "aof_enabled t0"
      "n0 = length old" "hashmap_get (tank_data t0) = fold spec_apply old Map.empty" by auto
  obtain answers' where full: "actor_run cal t0 (served s) = Inr (tank s, answers', ?log @ unlogged (turn s))"
    using actors_inv [OF assms(5)] unfolding history_ok_def by blast
  have prefix: "\<exists>k live answers. k \<le> length (served s) \<and>
      actor_run cal t0 (take k (served s)) = Inr (live, answers, take n ?log)" if "n \<le> length ?log" for n
    using run_prefix [OF full, of n] that by auto
  have keys: "\<forall>(op, clk) \<in> set (take k (map snd (served s))). op_key op \<in> K" for k
    using assms(6) by (auto simp: take_map dest!: in_set_takeD)
  have pumped: "septic_tank_pump cal t0 (take k (map snd (served s))) = Inr (live, take n ?log)"
    if "actor_run cal t0 (take k (served s)) = Inr (live, answers, take n ?log)" for k live answers n
    using actor_run_pump [OF that] by (simp add: take_map)
  note pl = pump_log [OF assms(1,2) t0(1,2) clocks_prefix [OF assms(7)] keys pumped]
  have "?log = take (length ?log) ?log" by simp
  with prefix [of "length ?log"] pl(1) assms(3) have
    persisted: "\<forall>mu \<in> set (old @ ?log). persisted mu \<and> mutation_key mu \<in> K"
    by (metis UnE order_refl set_append)
  with t0(3) show "n0 = length old \<and> (\<forall>mu \<in> set (old @ ?log). persisted mu \<and> mutation_key mu \<in> K)" by blast
  assume n: "n \<le> length ?log"
  have "list_all mutation_ok (old @ take n ?log)" "length (old @ take n ?log) < SIZE_MOD"
    "\<forall>mu \<in> set (old @ take n ?log). persisted mu \<and> mutation_key mu \<in> K"
    using assms(8,9) persisted by (auto simp: list_all_iff dest: in_set_takeD)
  from boot_replays [OF assms(1,2) this(3,1,2)] obtain tk where
    "main_boot cal (Opened (reading (concat (map enc_mutation old) @ concat (map enc_mutation (take n ?log))))) = Inr (tk, n0 + n)"
    "aof_enabled tk" "hashmap_get (tank_data tk) = fold spec_apply (take n ?log) (hashmap_get (tank_data t0))"
    using t0(3,4) n by auto
  with prefix [OF n] pl(2) show "\<exists>tk k live answers.
      main_boot cal (Opened (reading (concat (map enc_mutation old) @ concat (map enc_mutation (take n ?log))))) =
        Inr (tk, n0 + n) \<and> aof_enabled tk \<and> k \<le> length (served s) \<and>
      actor_run cal t0 (take k (served s)) = Inr (live, answers, take n ?log) \<and>
      (\<forall>now \<ge> last_reading t (take k (map snd (served s))).
         visible now (hashmap_get (tank_data tk)) = visible now (hashmap_get (tank_data live)))" by metis
qed

section \<open>One request followed through the system\<close>

definition set_c_request :: client_request where
  "set_c_request =
     (Some (RESP_array [RESP_bulk_string ''SET'', RESP_bulk_string ''c'', RESP_bulk_string ''v'']),
      \<lparr>tv_sec = 5, tv_nsec = 0\<rparr>, at_second 5)"

lemma set_c_served:
  "\<exists>w. serve_requests (\<lambda>_. True) (new_world False) [set_c_request] = Inr ([RESP_simple_string ''OK''], w) \<and>
     wlog w = [Set_mutation ''c'' ''v'' (- 1)] \<and>
     hashmap_get (tank_data (wtank w)) ''c'' = Some (string_entry (- 1) ''v'')"
proof -
  have clk: "clock_ok (at_second 5 0)" by (simp add: clock_ok_def)
  have tk: "hashmap_get (tank_data septic_tank_create) ''c'' = None"
      "hashmap_hash (tank_data septic_tank_create) ''c'' = Some 64"
    using get_new hash_new_c by (simp_all add: septic_tank_create_def)
  have g: "hashmap_get (hashmap_store (tank_data septic_tank_create) 64 ''c'' x) ''c'' = Some x" for x
    by (simp add: septic_tank_create_def probe_eval)
  show ?thesis
    using set_absent(2) [OF clk tk, where ex = "\<lparr>etype = ST_EXPIRATION_NO_EXPIRE, ets = 0\<rparr>" and v = "''v''"
        and b = True and cal = "\<lambda>_. True"] g
    by (simp add: set_c_request_def set_request septic_tank_feed_def plain_set_def set_reply_def error_reply_def
        blank_result_def new_world_def expiry_field_def set_expires_at_def septic_tank_create_def
        resp_create_simple_string_value_def)
qed

lemma set_c_queued:
  "\<exists>s. reachable 100 0 1000 s \<and> fed s = [Set_mutation ''c'' ''v'' (- 1)] \<and>
     in_flight s = [Set_mutation ''c'' ''v'' (- 1)]"
proof -
  have "\<exists>s. potty_run [Feed (Set_mutation ''c'' ''v'' (- 1))] (potty_init 100 0 1000) = Inr (Some s) \<and>
      fed s = [Set_mutation ''c'' ''v'' (- 1)] \<and> written (aof s) = []"
    by (simp add: potty_eval)
  then obtain s where s: "potty_run [Feed (Set_mutation ''c'' ''v'' (- 1))] (potty_init 100 0 1000) = Inr (Some s)"
    and f: "fed s = [Set_mutation ''c'' ''v'' (- 1)]" "written (aof s) = []" by blast
  have r: "reachable 100 0 1000 s" by (rule potty_run_reachable [OF init s])
  then obtain out where out: "written (aof s) = concat (map enc_mutation out)" "out @ in_flight s = fed s"
    using reachable_inv [OF r] unfolding potty_inv_def by blast
  have "out = []"
    using out f by (cases out) auto
  with out f r show ?thesis by auto
qed

lemma set_c_flushed:
  "\<exists>s. reachable 100 0 1000 s \<and> fed s = [Set_mutation ''c'' ''v'' (- 1)] \<and> ringbuf_is_empty (psewer (pt s)) \<and>
     hector_size (waste (pt s)) = 0 \<and> \<not> flusher_running (pt s)"
proof -
  have "\<exists>s. potty_run [Feed (Set_mutation ''c'' ''v'' (- 1)), Pump_consume False, Pump_check 2000 2000,
        Flusher_take 0 True, Flusher_write 0, Flusher_write 0, Flusher_take 0 True] (potty_init 100 0 1000) =
        Inr (Some s) \<and> fed s = [Set_mutation ''c'' ''v'' (- 1)] \<and> ringbuf_is_empty (psewer (pt s)) \<and>
        hector_size (waste (pt s)) = 0 \<and> \<not> flusher_running (pt s)"
    by (simp add: potty_eval fwrite_int64_def)
  then show ?thesis using potty_run_reachable [OF init] by blast
qed

text \<open>The same write in the system of all threads, up to the log channel.\<close>

lemma set_steps:
  "\<exists>s1 s2 s3 s4 r. actors_step (\<lambda>_. True) (Client_send 3 (plain_set ''c'' ''v'')) (actors_init septic_tank_create 5 5 0 1000) = Inr (Some s1) \<and>
     actors_step (\<lambda>_. True) (Tank_turn (at_second 5)) s1 = Inr (Some s2) \<and>
     actors_step (\<lambda>_. True) Tank_answer s2 = Inr (Some s3) \<and> actors_step (\<lambda>_. True) (Client_receive 3) s3 = Inr (Some s4) \<and>
     turn s2 = Answering 3 r (Some (Set_mutation ''c'' ''v'' (- 1))) \<and> success r \<and> aof_enabled (tank s2) \<and>
     turn s3 = Feeding (Set_mutation ''c'' ''v'' (- 1)) \<and> turn s4 = Feeding (Set_mutation ''c'' ''v'' (- 1)) \<and>
     responses s3 3 \<noteq> None \<and> responses s4 3 = None \<and> waiting s3 = [] \<and>
     served s3 = [(3, plain_set ''c'' ''v'', at_second 5)] \<and> psys s3 = potty_init 5 0 1000"
proof -
  let ?s0 = "actors_init septic_tank_create 5 5 0 1000" and ?op = "plain_set ''c'' ''v''" and ?mu = "Set_mutation ''c'' ''v'' (- 1)"
  have wf: "ring_wf (tsewer ?s0)" "\<not> ringbuf_is_full (tsewer ?s0)" "ring_content (tsewer ?s0) = []"
    by (simp_all add: actors_init_def sewer_create_def ring_create_wf ringbuf_is_full_def)
      (simp add: ringbuf_create_def)
  obtain q where q: "sewer_send (tsewer ?s0) (3, ?op) = Inr (Some q)" "ring_wf q" "ring_content q = [(3, ?op)]"
    using sw.send_room [OF wf(1,2), of "(3, ?op)"] wf(3) by auto
  let ?s1 = "?s0\<lparr>tsewer := q, responses := (responses ?s0)(3 := Some (sewer_create 1)), sent := [(3, ?op)]\<rparr>"
  have "actors_step (\<lambda>_. True) (Client_send 3 ?op) ?s0 = Inr (Some ?s1)"
    using q(1) by (simp add: client_send_def actors_init_def)
  note step1 = this
  from move [OF start step1] have r1: "actors_reachable (\<lambda>_. True) septic_tank_create 5 5 0 1000 ?s1" .
  obtain q' where q': "sewer_consume q = Inr (Some ((3, ?op), q'))"
    using sw.receive_some [OF q(2,3)] by blast
  have clk: "clock_ok (at_second 5 0)" by (simp add: clock_ok_def)
  have tk: "hashmap_get (tank_data septic_tank_create) ''c'' = None"
      "hashmap_hash (tank_data septic_tank_create) ''c'' = Some 64"
    using get_new hash_new_c by (simp_all add: septic_tank_create_def)
  obtain t r where d: "septic_tank_digest (\<lambda>_. True) (at_second 5) septic_tank_create ?op True = Inr (t, Some r, Some ?mu)"
      "success r" "aof_enabled t"
    using set_absent(2) [OF clk tk, where ex = "\<lparr>etype = ST_EXPIRATION_NO_EXPIRE, ets = 0\<rparr>" and v = "''v''"
        and b = True and cal = "\<lambda>_. True"]
    by (auto simp: plain_set_def expiry_field_def set_expires_at_def septic_tank_create_def blank_result_def)
  let ?s2 = "?s1\<lparr>tsewer := q', tank := t, turn := Answering 3 r (Some ?mu), served := [(3, ?op, at_second 5)]\<rparr>"
  have step2: "actors_step (\<lambda>_. True) (Tank_turn (at_second 5)) ?s1 = Inr (Some ?s2)"
    using q' d(1) by (simp add: tank_turn_def actors_init_def)
  from move [OF r1 step2] have r2: "actors_reachable (\<lambda>_. True) septic_tank_create 5 5 0 1000 ?s2" .
  have ch: "channels_ok ?s2" using actors_inv [OF r2] by blast
  have "turn ?s2 = Answering 3 r (Some ?mu)" by simp
  from answer_enabled [OF ch this] obtain p p' where p: "responses ?s2 3 = Some p" "sewer_send p r = Inr (Some p')"
    by blast
  let ?s3 = "?s2\<lparr>responses := (responses ?s2)(3 := Some p'), turn := Feeding ?mu\<rparr>"
  have step3: "actors_step (\<lambda>_. True) Tank_answer ?s2 = Inr (Some ?s3)"
    using p by (simp add: tank_answer_def)
  have empty: "waiting ?s3 = []" using sw.receive_some [OF q(2,3)] q' by (auto simp: waiting_def)
  have "ring_wf p" using ch p(1) unfolding channels_ok_def by blast
  from sw.sendD [OF this p(2)] have "ring_wf p'" "ring_content p' \<noteq> []" by simp_all
  then obtain x xs where "ring_content p' = x # xs" by (auto simp: neq_Nil_conv)
  from sw.receive_some [OF \<open>ring_wf p'\<close> this] obtain p'' where "sewer_consume p' = Inr (Some (x, p''))" by auto
  let ?s4 = "?s3\<lparr>responses := (responses ?s3)(3 := None), received := received ?s3 @ [(3, x)]\<rparr>"
  have step4: "actors_step (\<lambda>_. True) (Client_receive 3) ?s3 = Inr (Some ?s4)"
    using \<open>sewer_consume p' = Inr (Some (x, p''))\<close> by (simp add: client_receive_def)
  show ?thesis
    by (rule exI [of _ ?s1], rule exI [of _ ?s2], rule exI [of _ ?s3], rule exI [of _ ?s4], rule exI [of _ r], intro conjI,
        (rule step1 step2 step3 step4 empty | simp add: actors_init_def d(2,3))+)
qed

lemma set_answered:
  "\<exists>s. actors_reachable (\<lambda>_. True) septic_tank_create 5 5 0 1000 s \<and> served s = [(3, plain_set ''c'' ''v'', at_second 5)] \<and>
     turn s = Feeding (Set_mutation ''c'' ''v'' (- 1)) \<and> psys s = potty_init 5 0 1000 \<and>
     responses s 3 \<noteq> None \<and> waiting s = []"
proof -
  from set_steps obtain s1 s2 s3 s4 r where s: "actors_step (\<lambda>_. True) (Client_send 3 (plain_set ''c'' ''v'')) (actors_init septic_tank_create 5 5 0 1000) = Inr (Some s1)"
      "actors_step (\<lambda>_. True) (Tank_turn (at_second 5)) s1 = Inr (Some s2)" "actors_step (\<lambda>_. True) Tank_answer s2 = Inr (Some s3)"
      "turn s3 = Feeding (Set_mutation ''c'' ''v'' (- 1))" "responses s3 3 \<noteq> None" "waiting s3 = []"
      "served s3 = [(3, plain_set ''c'' ''v'', at_second 5)]" "psys s3 = potty_init 5 0 1000"
    by blast
  from move [OF move [OF move [OF start s(1)] s(2)] s(3)] s(4-8) show ?thesis by blast
qed

lemma set_run:
  "\<exists>s. actors_reachable (\<lambda>_. True) septic_tank_create 5 5 0 1000 s \<and> served s = [(3, plain_set ''c'' ''v'', at_second 5)] \<and>
     fed (psys s) = [Set_mutation ''c'' ''v'' (- 1)]"
proof -
  let ?mu = "Set_mutation ''c'' ''v'' (- 1)"
  obtain s where s: "actors_reachable (\<lambda>_. True) septic_tank_create 5 5 0 1000 s" "served s = [(3, plain_set ''c'' ''v'', at_second 5)]"
      "turn s = Feeding ?mu" "psys s = potty_init 5 0 1000" using set_answered by blast
  have "\<exists>ps. potty_step (Feed ?mu) (potty_init 5 0 1000) = Inr (Some ps) \<and> fed ps = [?mu]"
    by (simp add: potty_eval)
  then obtain ps where ps: "potty_step (Feed ?mu) (potty_init 5 0 1000) = Inr (Some ps)" "fed ps = [?mu]" by blast
  have "actors_step (\<lambda>_. True) Tank_feed s = Inr (Some (s\<lparr>psys := ps, turn := Receiving\<rparr>))"
    using ps(1) s(3,4) by (simp add: tank_feed_def del: potty_step.simps)
  from move [OF s(1) this] show ?thesis using s(2) ps(2) by fastforce
qed

end
