(* ===== verification/Continuity.thy ===== *)
theory Continuity
  imports Restart
begin

text \<open>
  Clients cannot tell a restart. Two servers are alike when their stores show the same keys from some time on,
  although their tables may differ in entries that have expired: the log, and so a restarted server, may still hold an
  expired key that the live server has evicted. Every request but TTL, which reads such entries, is answered alike by
  both and leaves them alike. The relation is kept by the store actor, lifted through the handlers and the
  dispatcher with \<^const>\<open>rel_sum\<close>, and then along sequences of requests.
\<close>

section \<open>Servers that look alike\<close>

definition alike :: "char list set \<Rightarrow> int \<Rightarrow> mutation list \<Rightarrow> world \<Rightarrow> world \<Rightarrow> bool" where
  \<comment> \<open>\<open>before\<close> is what only the first server has in its log\<close>
  "alike K t before w1 w2 \<longleftrightarrow>
     at_home K (tank_data (wtank w1)) \<and> at_home K (tank_data (wtank w2)) \<and>
     aof_enabled (wtank w1) = aof_enabled (wtank w2) \<and> has_master w1 = has_master w2 \<and>
     wlog w1 = before @ wlog w2 \<and>
     visible t (hashmap_get (tank_data (wtank w1))) = visible t (hashmap_get (tank_data (wtank w2)))"

definition same_result :: "septic_tank_result \<Rightarrow> septic_tank_result \<Rightarrow> bool" where
  "same_result r1 r2 \<longleftrightarrow> outcome r1 = outcome r2 \<and> success r1 = success r2"

lemma alike_mono: "alike K t before w1 w2 \<Longrightarrow> t \<le> t' \<Longrightarrow> alike K t' before w1 w2"
  unfolding alike_def by (metis visible_visible)

lemma same_resultD:
  "same_result r1 r2 \<Longrightarrow> rvalue r1 = rvalue r2 \<and> error r1 = error r2 \<and>
     resolved_mutation r1 = resolved_mutation r2 \<and> success r1 = success r2"
  by (simp add: same_result_def outcome_def)

lemma same_error_reply: "same_result r1 r2 \<Longrightarrow> error_reply r1 = error_reply r2"
  by (auto simp: error_reply_def dest: same_resultD)

lemma same_set_reply: "same_result r1 r2 \<Longrightarrow> set_reply g r1 = set_reply g r2"
  using same_error_reply [of r1 r2] same_resultD [of r1 r2] by (cases "error_reply r2") (simp_all add: set_reply_def)

definition answers_alike ::
  "(world \<Rightarrow> world \<Rightarrow> bool) \<Rightarrow> (resp_value \<times> world) res \<Rightarrow> (resp_value \<times> world) res \<Rightarrow> bool" where
  \<comment> \<open>the same fault, or the same reply and servers that are still related\<close>
  "answers_alike R = rel_sum (=) (rel_prod (=) R)"

lemma answers_alike_simps [simp]:
  "answers_alike R (Inl e) (Inl e') \<longleftrightarrow> e = e'"
  "answers_alike R (Inr (v, w1)) (Inr (v', w2)) \<longleftrightarrow> v = v' \<and> R w1 w2"
  "\<not> answers_alike R (Inr x) (Inl e)" "\<not> answers_alike R (Inl e) (Inr x)"
  by (simp_all add: answers_alike_def)

fun asks_ttl :: "resp_value option \<Rightarrow> bool" where
  "asks_ttl (Some (RESP_array (RESP_bulk_string command # _))) = str_eq_ci command ''TTL''"
| "asks_ttl _ = False"

definition settled :: "(nat \<Rightarrow> bool) \<Rightarrow> char list set \<Rightarrow> clock \<Rightarrow> bool" where
  \<comment> \<open>memory for the table, keys that do not meet in it, documented clock readings\<close>
  "settled cal K clk \<longleftrightarrow> (\<forall>n. cal n) \<and> separate K \<and> clock_ok (clk 0) \<and> clock_ok (clk 1)"

lemma digest_alike:
  assumes settled: "settled cal K clk"
    and "at_home K (tank_data t1)" and "at_home K (tank_data t2)" and "aof_enabled t1 = aof_enabled t2"
    and "visible (ms_of (clk 0)) (hashmap_get (tank_data t1)) = visible (ms_of (clk 0)) (hashmap_get (tank_data t2))"
    and "op_key op \<in> K" and "\<forall>k. op \<noteq> Ttl_op k"
  shows "\<exists>t1' t2' r1 r2 fed. septic_tank_digest cal clk t1 op True = Inr (t1', Some r1, fed) \<and>
    septic_tank_digest cal clk t2 op True = Inr (t2', Some r2, fed) \<and> same_result r1 r2 \<and>
    at_home K (tank_data t1') \<and> at_home K (tank_data t2') \<and> aof_enabled t1' = aof_enabled t2' \<and>
    visible (ms_of (clk 0)) (hashmap_get (tank_data t1')) = visible (ms_of (clk 0)) (hashmap_get (tank_data t2'))"
proof -
  have cal: "\<forall>n. cal n" and keys: "separate K" and clocks: "clock_ok (clk 0)" "clock_ok (clk 1)"
    using settled by (simp_all add: settled_def)
  from at_home_digest [OF assms(2) keys assms(6) clocks] obtain t1' reply1 fed1 where
    d1: "septic_tank_digest cal clk t1 op True = Inr (t1', reply1, fed1)" "at_home K (tank_data t1')" by blast
  from at_home_digest [OF assms(3) keys assms(6) clocks] obtain t2' reply2 fed2 where
    d2: "septic_tank_digest cal clk t2 op True = Inr (t2', reply2, fed2)" "at_home K (tank_data t2')" by blast
  have ttl: "\<forall>k. op = Ttl_op k \<longrightarrow> visible (ms_of (clk 0)) s k = s k" for s using assms(7) by simp
  let ?s = "visible (ms_of (clk 0)) (hashmap_get (tank_data t1))"
  from digest_spec [OF at_home_inv [OF assms(2)] cal clocks ttl at_home_probe(2) [OF assms(2) keys assms(6)] d1(1)]
  obtain r1 where r1: "reply1 = Some r1" "outcome r1 = spec (clk 0) (clk 1) ?s op" "success r1 = (error r1 = None)"
      "fed1 = (if aof_enabled t1 then resolved_mutation r1 else None)" "aof_enabled t1' = aof_enabled t1"
      "visible (ms_of (clk 0)) (hashmap_get (tank_data t1')) = visible (ms_of (clk 0)) (spec_step (resolved_mutation r1) ?s)"
    by auto
  from digest_spec [OF at_home_inv [OF assms(3)] cal clocks ttl at_home_probe(2) [OF assms(3) keys assms(6)] d2(1)]
  obtain r2 where r2: "reply2 = Some r2" "outcome r2 = spec (clk 0) (clk 1) ?s op" "success r2 = (error r2 = None)"
      "fed2 = (if aof_enabled t1 then resolved_mutation r2 else None)" "aof_enabled t2' = aof_enabled t1"
      "visible (ms_of (clk 0)) (hashmap_get (tank_data t2')) = visible (ms_of (clk 0)) (spec_step (resolved_mutation r2) ?s)"
    unfolding assms(4,5) by auto
  have "outcome r1 = outcome r2" using r1(2) r2(2) by simp
  then have same: "same_result r1 r2" "resolved_mutation r1 = resolved_mutation r2"
    using r1(3) r2(3) by (auto simp: same_result_def outcome_def)
  with d1 d2 r1(1,4-6) r2(1,4-6) show ?thesis by auto
qed

lemma feed_alike:
  assumes "settled cal K clk" and "alike K t before w1 w2" and "t \<le> ms_of (clk 0)" and "op_key op \<in> K"
    and "\<forall>k. op \<noteq> Ttl_op k"
  shows "\<exists>r1 w1' r2 w2'. septic_tank_feed cal clk w1 op = Inr (r1, w1') \<and> septic_tank_feed cal clk w2 op = Inr (r2, w2') \<and>
    same_result r1 r2 \<and> alike K (ms_of (clk 0)) before w1' w2'"
proof -
  have "alike K (ms_of (clk 0)) before w1 w2" using alike_mono [OF assms(2,3)] .
  then show ?thesis
    using digest_alike [OF assms(1), of "wtank w1" "wtank w2" op] assms(4,5)
    by (fastforce simp: alike_def septic_tank_feed_def)
qed

section \<open>Handlers\<close>

text \<open>
  The interface between the store actor and the handlers: if the actor answers related servers alike and leaves
  them related, then so do the commands, for keys in \<open>K\<close>.
\<close>

locale feed_simulation =
  fixes cal :: "nat \<Rightarrow> bool" and clk :: clock and K :: "char list set"
    and R :: "world \<Rightarrow> world \<Rightarrow> bool" and R' :: "world \<Rightarrow> world \<Rightarrow> bool"
  assumes keep: "R w1 w2 \<Longrightarrow> R' w1 w2"
    and master: "R w1 w2 \<Longrightarrow> has_master w1 = has_master w2"
    and feed: "R w1 w2 \<Longrightarrow> op_key op \<in> K \<Longrightarrow> \<forall>k. op \<noteq> Ttl_op k \<Longrightarrow>
      \<exists>r1 w1' r2 w2'. septic_tank_feed cal clk w1 op = Inr (r1, w1') \<and> septic_tank_feed cal clk w2 op = Inr (r2, w2') \<and>
        same_result r1 r2 \<and> R' w1' w2'"
begin

lemma alike_bind:
  "(\<And>x. r = Inr x \<Longrightarrow> answers_alike R' (f x) (g x)) \<Longrightarrow> answers_alike R' (rbind r f) (rbind r g)"
  by (cases r) simp_all

lemma alike_feed_bind:
  assumes "R w1 w2" and "op_key op \<in> K" and "\<forall>k. op \<noteq> Ttl_op k"
    and "\<And>r1 r2 w1' w2'. same_result r1 r2 \<Longrightarrow> R' w1' w2' \<Longrightarrow>
      answers_alike R' (f (r1, w1')) (g (r2, w2'))"
  shows "answers_alike R' (rbind (septic_tank_feed cal clk w1 op) f) (rbind (septic_tank_feed cal clk w2 op) g)"
  using feed [OF assms(1-3)] assms(4) by auto

lemma get_alike:
  assumes "R w1 w2" and "string_arg args 0 = Inr key" and "key \<in> K"
  shows "answers_alike R' (process_get cal ts clk w1 args) (process_get cal ts clk w2 args)"
  unfolding process_get_def assms(2) rbind_Inr
  by (rule alike_feed_bind [OF assms(1)]) (use assms(3) in \<open>auto dest!: same_resultD split: result_value.split option.split\<close>)

lemma exists_alike:
  assumes "R w1 w2" and "string_arg args 0 = Inr key" and "key \<in> K"
  shows "answers_alike R' (process_exists cal ts clk w1 args) (process_exists cal ts clk w2 args)"
  unfolding process_exists_def assms(2) rbind_Inr
  by (rule alike_feed_bind [OF assms(1)]) (use assms(3) in \<open>auto dest!: same_resultD split: result_value.split\<close>)

lemma del_alike:
  assumes "R w1 w2" and "string_arg args 0 = Inr key" and "key \<in> K"
  shows "answers_alike R' (process_del cal ts clk w1 args) (process_del cal ts clk w2 args)"
  unfolding process_del_def assms(2) rbind_Inr
  by (rule alike_feed_bind [OF assms(1)]) (use assms(3) in \<open>auto dest!: same_resultD split: result_value.split option.split\<close>)

lemma incrby_alike:
  assumes "R w1 w2" and "key \<in> K"
  shows "answers_alike R' (incrby_with cal clk w1 key delta) (incrby_with cal clk w2 key delta)"
  unfolding incrby_with_def
  by (rule alike_feed_bind [OF assms(1)])
    (use assms(2) in \<open>auto dest!: same_resultD simp: error_reply_def split: result_value.split option.split\<close>)

lemma number_handlers_alike:
  assumes "R w1 w2" and "string_arg args 0 = Inr key" and "key \<in> K"
  shows "answers_alike R' (process_incr cal ts clk w1 args) (process_incr cal ts clk w2 args)"
    and "answers_alike R' (process_decr cal ts clk w1 args) (process_decr cal ts clk w2 args)"
    and "answers_alike R' (process_incrby cal ts clk w1 args) (process_incrby cal ts clk w2 args)"
    and "answers_alike R' (process_decrby cal ts clk w1 args) (process_decrby cal ts clk w2 args)"
  unfolding process_incr_def process_decr_def process_incrby_def process_decrby_def assms(2) rbind_Inr
  by (intro alike_bind incrby_alike [OF assms(1,3)])+

lemma set_reply_alike:
  "same_result r1 r2 \<Longrightarrow> R' w1 w2 \<Longrightarrow>
     answers_alike R' (rbind (set_reply g r1) (\<lambda>reply. Inr (reply, w1))) (rbind (set_reply g r2) (\<lambda>reply. Inr (reply, w2)))"
  using same_set_reply [of r1 r2 g] by (cases "set_reply g r2") auto

lemma set_alike:
  assumes "R w1 w2" and "string_arg args 0 = Inr key" and "key \<in> K"
  shows "answers_alike R' (process_set cal ts clk w1 args) (process_set cal ts clk w2 args)"
  unfolding process_set_def assms(2) rbind_Inr Let_def
  by (intro alike_bind alike_feed_bind [OF assms(1)])
    (use assms(3) in \<open>auto intro!: set_reply_alike\<close>)

lemma expire_alike:
  assumes "R w1 w2" and "string_arg args 0 = Inr key" and "key \<in> K"
  shows "answers_alike R' (process_expire cal ts clk w1 args) (process_expire cal ts clk w2 args)"
  unfolding process_expire_def assms(2) rbind_Inr
  by (intro alike_bind alike_feed_bind [OF assms(1)])
    (use assms(3) in \<open>auto dest!: same_resultD simp: error_reply_def split: result_value.split option.split\<close>)

lemma keyless_alike:
  assumes "R w1 w2"
  shows "answers_alike R' (process_ping cal ts clk w1 args) (process_ping cal ts clk w2 args)"
    and "answers_alike R' (process_info cal ts clk w1 args) (process_info cal ts clk w2 args)"
proof -
  have w: "R' w1 w2" using keep [OF assms] .
  then show "answers_alike R' (process_info cal ts clk w1 args) (process_info cal ts clk w2 args)"
    by (simp add: process_info_def Let_def master [OF assms])
  show "answers_alike R' (process_ping cal ts clk w1 args) (process_ping cal ts clk w2 args)"
    unfolding process_ping_def by (intro alike_bind) (use w in \<open>auto intro!: alike_bind split: option.split\<close>)
qed

section \<open>Dispatch\<close>

lemma key_commands_alike:
  assumes "d \<in> set KEY_COMMANDS" and "d \<noteq> TTL_COMMAND" and "R w1 w2"
    and "string_arg args 0 = Inr key" and "key \<in> K"
  shows "answers_alike R' (processor d cal ts clk w1 args) (processor d cal ts clk w2 args)"
proof -
  from assms(1,2) consider "processor d = process_set" | "processor d = process_get" | "processor d = process_del"
    | "processor d = process_exists" | "processor d = process_expire"
    | "processor d = process_incr" | "processor d = process_decr" | "processor d = process_incrby"
    | "processor d = process_decrby"
    unfolding KEY_COMMANDS_def COMMANDS_unfold by fastforce
  then show ?thesis
    using get_alike [OF assms(3-5)] exists_alike [OF assms(3-5)] del_alike [OF assms(3-5)]
      number_handlers_alike [OF assms(3-5)] set_alike [OF assms(3-5)] expire_alike [OF assms(3-5)]
    by cases (simp_all only:)
qed

lemma command_alike:
  assumes "d \<in> set COMMANDS" and "d \<noteq> TTL_COMMAND" and "parse_command_arguments (cdefs d) words = Inr args"
    and "R w1 w2" and "words \<noteq> [] \<Longrightarrow> hd words \<in> K"
  shows "answers_alike R' (processor d cal ts clk w1 args) (processor d cal ts clk w2 args)"
proof (cases "d \<in> set KEY_COMMANDS")
  case True
  then obtain n ds where "cdefs d = COMMAND_ARG n ARG_TYPE_STRING False None # ds"
    using key_commands_key by blast
  then have "words \<noteq> []" "string_arg args 0 = Inr (hd words)"
    using key_first assms(3) by simp_all
  with key_commands_alike [OF True assms(2,4)] assms(5) show ?thesis by blast
next
  case False
  then have "d = PING_COMMAND \<or> d = INFO_COMMAND" using command_cases [OF assms(1)] by blast
  then show ?thesis
    using keyless_alike [OF assms(4)] by (auto simp: PING_COMMAND_def INFO_COMMAND_def)
qed

lemma helper_alike:
  assumes "R w1 w2" and "\<not> str_eq_ci command ''TTL''"
    and "words \<noteq> [] \<Longrightarrow> hd words \<in> K"
  shows "set ds \<subseteq> set COMMANDS \<Longrightarrow>
    answers_alike R' (process_command_helper ds cal ts clk w1 command words) (process_command_helper ds cal ts clk w2 command words)"
proof (induction ds)
  case Nil
  show ?case using keep [OF assms(1)] by simp
next
  case (Cons d ds)
  have d: "d \<in> set COMMANDS" using Cons.prems by simp
  have ttl: "d \<noteq> TTL_COMMAND" if "str_eq_ci command (cname d)"
    using that assms(2) by (auto simp: TTL_COMMAND_def)
  show ?case
    using Cons keep [OF assms(1)] command_alike [OF d ttl _ assms(1,3)]
    by (auto split: sum.split arg_stop.split)
qed

lemma process_command_alike:
  assumes "R w1 w2" and "\<not> asks_ttl v" and "\<forall>k. command_key v = Some k \<longrightarrow> k \<in> K"
  shows "answers_alike R' (process_command cal ts clk w1 v) (process_command cal ts clk w2 v)"
proof (cases "\<exists>vs. v = Some (RESP_array vs) \<and> is_valid_bulk_string_array_command vs")
  case False
  then have "process_command cal ts clk w v = Inl Unimplemented" for w
    by (auto simp: process_command_def split: option.splits resp_value.splits)
  then show ?thesis by simp
next
  case True
  then obtain vs command words where v: "v = Some (RESP_array vs)" "is_valid_bulk_string_array_command vs"
      "bulk_words vs = Some (command # words)" using valid_words by blast
  have "\<not> str_eq_ci command ''TTL''"
    using assms(2) v(1,3) bulk_words_Cons [of "hd vs" "tl vs" command words] bulk_words_Nil [OF v(3)]
    by (cases vs) auto
  moreover have "hd words \<in> K" if "words \<noteq> []"
    using that bulk_words_key [of vs command "hd words" "tl words"] v(1,3) assms(3) by simp
  ultimately show ?thesis
    using helper_alike [OF assms(1) _ _ subset_refl] v by (simp add: process_command_def)
qed

end

interpretation unnoticed: feed_simulation cal clk K
    "\<lambda>w1 w2. settled cal K clk \<and> alike K (ms_of (clk 0)) before w1 w2" "alike K (ms_of (clk 0)) before"
proof (unfold_locales, goal_cases)
  case (3 w1 w2 op)
  then show ?case using feed_alike [of cal K clk "ms_of (clk 0)" before w1 w2 op] by simp
qed (simp_all add: alike_def)

section \<open>Sequences of requests\<close>

lemma requests_alike:
  "\<forall>n. cal n \<Longrightarrow> separate K \<Longrightarrow> requests_ok K t reqs \<Longrightarrow> \<forall>(v, ts, clk) \<in> set reqs. \<not> asks_ttl v \<Longrightarrow> alike K t before w1 w2 \<Longrightarrow>
   serve_requests cal w1 reqs = Inr (replies, w1') \<Longrightarrow>
     \<exists>w2'. serve_requests cal w2 reqs = Inr (replies, w2') \<and> alike K (end_time t reqs) before w1' w2'"
proof (induction reqs arbitrary: t w1 w2 replies)
  case (Cons req reqs)
  obtain v ts clk where req: "req = (v, ts, clk)" by (cases req)
  from Cons.prems(3) have ok: "settled cal K clk" "t \<le> ms_of (clk 0)" "\<forall>k. command_key v = Some k \<longrightarrow> k \<in> K"
      "requests_ok K (ms_of (clk 0)) reqs"
    using Cons.prems(1,2) by (auto simp: req settled_def)
  from Cons.prems(6) obtain reply w3 replies1 where p: "process_command cal ts clk w1 v = Inr (reply, w3)"
    and run: "serve_requests cal w3 reqs = Inr (replies1, w1')" and replies: "replies = reply # replies1"
    by (auto simp: req rbind_eq_Inr_iff split: prod.splits)
  have "answers_alike (alike K (ms_of (clk 0)) before) (process_command cal ts clk w1 v) (process_command cal ts clk w2 v)"
    using Cons.prems(4) ok(1,3) alike_mono [OF Cons.prems(5) ok(2)]
    by (intro unnoticed.process_command_alike) (auto simp: req)
  then obtain w4 where w4: "process_command cal ts clk w2 v = Inr (reply, w4)" "alike K (ms_of (clk 0)) before w3 w4"
    unfolding p by (cases "process_command cal ts clk w2 v") auto
  have "\<forall>(v, ts, clk) \<in> set reqs. \<not> asks_ttl v" using Cons.prems(4) by auto
  from Cons.IH [OF Cons.prems(1,2) ok(4) this w4(2) run] w4(1) show ?case by (auto simp: req replies)
qed simp

section \<open>The restarted server\<close>

lemma restarted_alike:
  assumes "\<forall>n. cal n" and "separate K" and "\<forall>mu \<in> set old. persisted mu \<and> mutation_key mu \<in> K"
    and "main_boot cal (Opened (reading (concat (map enc_mutation old)))) = Inr (t0, n0)"
    and "requests_ok K t reqs"
    and "serve_requests cal \<lparr>wtank = t0, wlog = [], has_master = replica\<rparr> reqs = Inr (replies, w)"
    and "list_all mutation_ok (old @ wlog w)" and "length (old @ wlog w) < SIZE_MOD"
  shows "\<exists>tank. main_boot cal (Opened (reading (concat (map enc_mutation (old @ wlog w))))) = Inr (tank, n0 + length (wlog w)) \<and>
    aof_enabled tank \<and> alike K (end_time t reqs) (wlog w) w \<lparr>wtank = tank, wlog = [], has_master = replica\<rparr>"
proof -
  have old: "list_all mutation_ok old" "length old < SIZE_MOD" using assms(7,8) by simp_all
  from boot_replays [OF assms(1,2,3) old] assms(4) have t0: "at_home K (tank_data t0)" "aof_enabled t0" "n0 = length old"
      "hashmap_get (tank_data t0) = fold spec_apply old Map.empty" by auto
  note log = served_log [OF assms(1,2) t0(1,2) assms(5,6)]
  have "\<forall>mu \<in> set (old @ wlog w). persisted mu \<and> mutation_key mu \<in> K" using assms(3) log(1) by auto
  from boot_replays [OF assms(1,2) this assms(7,8)] obtain tank where
    tank: "main_boot cal (Opened (reading (concat (map enc_mutation (old @ wlog w))))) = Inr (tank, n0 + length (wlog w))"
      "aof_enabled tank" "at_home K (tank_data tank)"
      "hashmap_get (tank_data tank) = fold spec_apply (wlog w) (hashmap_get (tank_data t0))"
    using t0(3,4) by auto
  moreover have "at_home K (tank_data (wtank w))" "aof_enabled (wtank w)"
    using served_state [OF assms(2) _ assms(5,6)] t0(1,2) by simp_all
  moreover have "has_master w = replica" using requests_keep_role [OF assms(6)] by simp
  ultimately show ?thesis
    using log(2) [OF order_refl] by (simp add: alike_def)
qed

end
