(* ===== verification/Serving.thy ===== *)
theory Serving
  imports Continuity
begin

text \<open>
  The whole of \<^verbatim>\<open>main\<close>: command line, listening socket, replay of the file, and then the accept loop with
  the threads of the connections. What the operating system answers is an argument: the results of the
  socket calls, the events on the sockets in the order in which the store actor sees their
  requests, and the contents of a fresh buffer, which the code does not initialise. A
  connection is named by its descriptor. One event is handled as a whole; that the interleaving inside
  the actors makes no difference is what \<open>actors_linearizable\<close> shows.
\<close>

section \<open>The accept loop\<close>

record accepted =
  client_fd :: int
  host_found :: bool
  address_found :: bool
  fresh_buffer :: "char list"

datatype event =
    Incoming accepted
  | On_socket int received timespec clock

type_synonym connections = "int \<Rightarrow> char list option"

definition accept_client :: "accepted \<Rightarrow> connections \<Rightarrow> connections res" where
  \<comment> \<open>\<^verbatim>\<open>accept\<close>, the lookup of the client's name (\<^verbatim>\<open>gethostbyaddr\<close>) and address (\<^verbatim>\<open>inet_ntoa\<close>), a new thread\<close>
  "accept_client a conns =
     (if client_fd a < 0 then Inl Panic
      else if \<not> host_found a then Inl Panic
      else if \<not> address_found a then Inl Panic
      else Inr (conns(client_fd a \<mapsto> fresh_buffer a)))"

definition on_socket ::
  "(nat \<Rightarrow> bool) \<Rightarrow> int \<Rightarrow> received \<Rightarrow> timespec \<Rightarrow> clock \<Rightarrow> connections \<Rightarrow> world \<Rightarrow>
     ((int \<times> char list) list \<times> connections \<times> world) res" where
  \<comment> \<open>one iteration of the thread of a connection; the thread is gone after the end of its loop\<close>
  "on_socket cal fd r ts clk conns w =
     (case conns fd of
        None \<Rightarrow> Inr ([], conns, w)
      | Some buffer \<Rightarrow>
          (case r of
             Received bs \<Rightarrow>
               rbind (handle_request cal ts clk w buffer bs) (\<lambda>(out, buffer, w).
                 Inr ([(fd, out)], conns(fd \<mapsto> buffer), w))
           | Closed \<Rightarrow> Inr ([], conns(fd := None), w)
           | Read_error \<Rightarrow> Inr ([], conns(fd := None), w)))"

fun accept_loop ::
  "(nat \<Rightarrow> bool) \<Rightarrow> connections \<Rightarrow> world \<Rightarrow> event list \<Rightarrow> ((int \<times> char list) list \<times> connections \<times> world) res" where
  "accept_loop cal conns w [] = Inr ([], conns, w)"
| "accept_loop cal conns w (Incoming a # evs) =
     rbind (accept_client a conns) (\<lambda>conns. accept_loop cal conns w evs)"
| "accept_loop cal conns w (On_socket fd r ts clk # evs) =
     rbind (on_socket cal fd r ts clk conns w) (\<lambda>(outs, conns, w).
     rbind (accept_loop cal conns w evs) (\<lambda>(outs', conns, w). Inr (outs @ outs', conns, w)))"

section \<open>The program\<close>

record system_calls =
  socket_result :: int
  bind_result :: int
  listen_result :: int
  aof_file :: open_result

datatype outcome =
    Usage_printed
  | Serving "16 word" "(int \<times> char list) list" connections world

definition open_listener :: "system_calls \<Rightarrow> unit res" where
  "open_listener os =
     (if socket_result os < 0 then Inl Panic
      else if bind_result os < 0 then Inl Panic
      else if listen_result os < 0 then Inl Panic
      else Inr ())"

definition main ::
  "(char list \<Rightarrow> 32 word option) \<Rightarrow> (nat \<Rightarrow> bool) \<Rightarrow> system_calls \<Rightarrow> char list list \<Rightarrow> event list \<Rightarrow> outcome res" where
  "main inet_pton cal os argv evs =
     rbind (main_options inet_pton argv) (\<lambda>st.
       case st of
         Usage \<Rightarrow> Inr Usage_printed
       | Listening server p \<Rightarrow>
           rbind (open_listener os) (\<lambda>_.
           rbind (main_boot cal (aof_file os)) (\<lambda>(tank, _).
           rbind (accept_loop cal (\<lambda>_. None)
                   \<lparr>wtank = tank, wlog = [], has_master = maybe_master server \<noteq> None\<rparr> evs) (\<lambda>(outs, conns, w).
             Inr (Serving p outs conns w)))))"

section \<open>Whole requests\<close>

text \<open>A client request that arrives in one read: the words, and the readings of the clock while it is served.\<close>

type_synonym whole_request = "int \<times> char list list \<times> timespec \<times> clock"

fun arrives :: "whole_request \<Rightarrow> event" where
  "arrives (fd, ws, ts, clk) = On_socket fd (Received (resp_enc (request ws))) ts clk"

fun as_request :: "whole_request \<Rightarrow> client_request" where
  "as_request (fd, ws, ts, clk) = (Some (request ws), ts, clk)"

definition words_fit :: "char list list \<Rightarrow> bool" where
  "words_fit ws \<longleftrightarrow> length (resp_enc (request ws)) \<le> BUFFER_SIZE"

definition connected :: "connections \<Rightarrow> int \<Rightarrow> bool" where
  "connected conns fd \<longleftrightarrow> (\<exists>buffer. conns fd = Some buffer \<and> length buffer = BUFFER_SIZE)"

lemma words_fit_lengths:
  assumes "words_fit ws"
  shows "list_all (\<lambda>s. length s < SIZE_MOD) ws" and "length ws * 16 < SIZE_MOD"
proof -
  have "length s \<le> length (resp_enc_all (map RESP_bulk_string ws))" if "s \<in> set ws" for s
    using that by (induction ws) auto
  moreover have n: "length ws \<le> length (resp_enc_all (map RESP_bulk_string ws))"
    by (induction ws) auto
  ultimately show "list_all (\<lambda>s. length s < SIZE_MOD) ws" and "length ws * 16 < SIZE_MOD"
    using assms by (fastforce simp: words_fit_def request_def list_all_iff)+
qed

lemma read_into_length: "length bs \<le> length buffer \<Longrightarrow> length (read_into buffer bs) = length buffer"
  by (simp add: read_into_def)

lemma request_handled:
  assumes "words_fit ws" and "length buffer = BUFFER_SIZE"
    and "process_command cal ts clk w (Some (request ws)) = Inr (v, w')" and "length (resp_enc v) < BUFFER_SIZE"
  shows "\<exists>buffer'. handle_request cal ts clk w buffer (resp_enc (request ws)) = Inr (resp_enc v, buffer', w') \<and>
    length buffer' = BUFFER_SIZE"
proof -
  let ?b = "read_into (read_into buffer (resp_enc (request ws))) (resp_enc v @ [NUL])"
  have "handle_request cal ts clk w buffer (resp_enc (request ws)) = Inr (resp_enc v, ?b, w')"
    using assms(3,4) serialize_enc(1) [of BUFFER_SIZE v "[]"]
    by (simp add: handle_request_def Let_def parse_request [OF request_wf [OF words_fit_lengths [OF assms(1)]]]
        parsed_value_def resp_serialize_value_def)
  moreover have "length ?b = BUFFER_SIZE"
    using assms(1,2,4) by (simp add: read_into_length words_fit_def)
  ultimately show ?thesis by blast
qed

lemma accept_loop_append:
  "accept_loop cal conns w (xs @ ys) =
     rbind (accept_loop cal conns w xs) (\<lambda>(outs, conns, w).
     rbind (accept_loop cal conns w ys) (\<lambda>(outs', conns, w). Inr (outs @ outs', conns, w)))"
proof (induction xs arbitrary: conns w)
  case Nil
  show ?case by (cases "accept_loop cal conns w ys") auto
next
  case (Cons e xs)
  then show ?case
    by (cases e) (auto simp: rbind_def split: sum.splits prod.splits)
qed

text \<open>Whole requests on any connections, in any order, are served one after the other.\<close>

lemma requests_served:
  "serve_requests cal w (map as_request reqs) = Inr (replies, w') \<Longrightarrow>
   \<forall>(fd, ws, ts, clk) \<in> set reqs. words_fit ws \<and> connected conns fd \<Longrightarrow>
   \<forall>v \<in> set replies. length (resp_enc v) < BUFFER_SIZE \<Longrightarrow>
     \<exists>conns'. accept_loop cal conns w (map arrives reqs) = Inr (zip (map fst reqs) (map resp_enc replies), conns', w') \<and>
       (\<forall>fd. connected conns fd \<longrightarrow> connected conns' fd)"
proof (induction reqs arbitrary: w replies conns)
  case (Cons req reqs)
  obtain fd ws ts clk where req: "req = (fd, ws, ts, clk)" by (cases req)
  from Cons.prems(1) obtain v w1 vs where p: "process_command cal ts clk w (Some (request ws)) = Inr (v, w1)"
    and run: "serve_requests cal w1 (map as_request reqs) = Inr (vs, w')" and replies: "replies = v # vs"
    by (auto simp: req rbind_eq_Inr_iff split: prod.splits)
  from Cons.prems(2) obtain buffer where b: "words_fit ws" "conns fd = Some buffer" "length buffer = BUFFER_SIZE"
    by (auto simp: req connected_def)
  from request_handled [OF b(1,3) p] Cons.prems(3) obtain buffer' where
    h: "handle_request cal ts clk w buffer (resp_enc (request ws)) = Inr (resp_enc v, buffer', w1)"
      "length buffer' = BUFFER_SIZE" by (auto simp: replies)
  let ?conns = "conns(fd \<mapsto> buffer')"
  have keep: "connected conns fd' \<Longrightarrow> connected ?conns fd'" for fd'
    using h(2) by (auto simp: connected_def)
  have fit: "\<forall>(fd, ws, ts, clk) \<in> set reqs. words_fit ws \<and> connected ?conns fd"
    using Cons.prems(2) keep by auto
  have "\<forall>v \<in> set vs. length (resp_enc v) < BUFFER_SIZE" using Cons.prems(3) by (simp add: replies)
  from Cons.IH [OF run fit this] obtain conns' where
    "accept_loop cal ?conns w1 (map arrives reqs) = Inr (zip (map fst reqs) (map resp_enc vs), conns', w')"
    "\<forall>fd. connected ?conns fd \<longrightarrow> connected conns' fd" by blast
  with h(1) b(2) keep show ?case
    by (auto simp: req replies on_socket_def)
qed simp

definition reachable_client :: "accepted \<Rightarrow> bool" where
  "reachable_client a \<longleftrightarrow> 0 \<le> client_fd a \<and> host_found a \<and> address_found a \<and> length (fresh_buffer a) = BUFFER_SIZE"

lemma clients_accepted:
  "list_all reachable_client as \<Longrightarrow>
     \<exists>conns'. accept_loop cal conns w (map Incoming as) = Inr ([], conns', w) \<and>
       (\<forall>fd. connected conns fd \<or> fd \<in> client_fd ` set as \<longrightarrow> connected conns' fd)"
proof (induction as arbitrary: conns)
  case (Cons a as)
  let ?conns = "conns(client_fd a \<mapsto> fresh_buffer a)"
  from Cons.prems have a: "accept_client a conns = Inr ?conns" "length (fresh_buffer a) = BUFFER_SIZE"
    by (simp_all add: reachable_client_def accept_client_def)
  from Cons obtain conns' where "accept_loop cal ?conns w (map Incoming as) = Inr ([], conns', w)"
    "\<forall>fd. connected ?conns fd \<or> fd \<in> client_fd ` set as \<longrightarrow> connected conns' fd" by fastforce
  moreover have "connected ?conns fd" if "connected conns fd \<or> fd = client_fd a" for fd
    using that a(2) by (auto simp: connected_def)
  ultimately show ?case using a(1) by auto
qed simp

lemma clients_served:
  assumes "list_all reachable_client as"
    and "\<forall>(fd, ws, ts, clk) \<in> set reqs. words_fit ws \<and> fd \<in> client_fd ` set as"
    and "serve_requests cal w (map as_request reqs) = Inr (replies, w')"
    and "\<forall>v \<in> set replies. length (resp_enc v) < BUFFER_SIZE"
  shows "\<exists>conns. accept_loop cal (\<lambda>_. None) w (map Incoming as @ map arrives reqs) =
    Inr (zip (map fst reqs) (map resp_enc replies), conns, w')"
proof -
  obtain conns where acc: "accept_loop cal (\<lambda>_. None) w (map Incoming as) = Inr ([], conns, w)"
    and conns: "\<forall>fd. fd \<in> client_fd ` set as \<longrightarrow> connected conns fd"
    using clients_accepted [OF assms(1), where cal = cal and conns = "\<lambda>_. None" and w = w] by metis
  have "\<forall>(fd, ws, ts, clk) \<in> set reqs. words_fit ws \<and> connected conns fd"
    using assms(2) conns by fastforce
  from requests_served [OF assms(3) this assms(4)] acc show ?thesis
    by (auto simp: accept_loop_append)
qed

lemma no_arguments: "main_options inet_pton [] = Inr (Listening create_server_instance 6969)"
proof -
  have "clear_line CLI_OPTION_DEFINITIONS []" by (simp add: clear_line_def CLI_OPTION_DEFINITIONS_def)
  from parsed_options [OF this refl] show ?thesis
    by (auto simp: main_options_def given_def spec_option_simps option_slot_def main_port_def main_master_def)
qed

lemma set_c_encoded:
  "resp_enc (request [''SET'', ''c'', ''v'']) =
     ''*3'' @ [CR, LF] @ ''$3'' @ [CR, LF] @ ''SET'' @ [CR, LF] @ ''$1'' @ [CR, LF] @ ''c'' @ [CR, LF] @ ''$1'' @ [CR, LF] @ ''v'' @ [CR, LF]"
proof -
  have "show_nat 3 = ''3''" "show_nat (Suc 0) = ''1''" by (simp_all add: show_nat.simps char_of_def bit_0)
  then show ?thesis by (simp add: request_def numeral_3_eq_3)
qed

section \<open>Properties\<close>

text \<open>
  C11: the server answers its clients. Started with options that it accepts, on sockets that open, it replays its file,
  accepts every client whose name and address can be found, and answers the requests of all connections, each
  arriving whole, in the order in which they come and each on its own connection, with the encodings of what the
  command processor answers to the one sequence of them, whatever the buffers held before.
\<close>

theorem main_serves:
  assumes "main_options inet_pton argv = Inr (Listening serv p)" and "open_listener os = Inr ()"
    and "main_boot cal (aof_file os) = Inr (t0, n)" and "list_all reachable_client as"
    and "\<forall>(fd, ws, ts, clk) \<in> set reqs. words_fit ws \<and> fd \<in> client_fd ` set as"
    and "serve_requests cal \<lparr>wtank = t0, wlog = [], has_master = maybe_master serv \<noteq> None\<rparr> (map as_request reqs) =
      Inr (replies, w)"
    and "\<forall>v \<in> set replies. length (resp_enc v) < BUFFER_SIZE"
  shows "\<exists>conns. main inet_pton cal os argv (map Incoming as @ map arrives reqs) =
    Inr (Serving p (zip (map fst reqs) (map resp_enc replies)) conns w)"
  using clients_served [OF assms(4-7)] by (auto simp: main_def assms(1-3))

theorem main_serves_witness:
  "\<exists>conns w. main (\<lambda>_. None) (\<lambda>_. True)
      \<lparr>socket_result = 3, bind_result = 0, listen_result = 0, aof_file = Opened \<lparr>rest = [], fails_after = None\<rparr>\<rparr> []
      (map Incoming [\<lparr>client_fd = 4, host_found = True, address_found = True, fresh_buffer = replicate BUFFER_SIZE (CHR ''9'')\<rparr>] @
       map arrives [(4, [''SET'', ''c'', ''v''], \<lparr>tv_sec = 5, tv_nsec = 0\<rparr>, at_second 5)]) =
    Inr (Serving 6969 [(4, ''+OK'' @ [CR, LF])] conns w) \<and> wlog w = [Set_mutation ''c'' ''v'' (- 1)]"
proof -
  let ?os = "\<lparr>socket_result = 3, bind_result = 0, listen_result = 0, aof_file = Opened (reading [])\<rparr>"
  let ?c = "\<lparr>client_fd = 4, host_found = True, address_found = True, fresh_buffer = replicate BUFFER_SIZE (CHR ''9'')\<rparr>"
  let ?r = "(4, [''SET'', ''c'', ''v''], \<lparr>tv_sec = 5, tv_nsec = 0\<rparr>, at_second 5) :: whole_request"
  obtain w where w: "serve_requests (\<lambda>_. True) (new_world False) [set_c_request] = Inr ([RESP_simple_string ''OK''], w)"
      "wlog w = [Set_mutation ''c'' ''v'' (- 1)]" using set_c_served by blast
  have req: "map as_request [?r] = [set_c_request]" by (simp add: set_c_request_def request_def)
  have world: "new_world False =
      \<lparr>wtank = septic_tank_create, wlog = [], has_master = maybe_master create_server_instance \<noteq> None\<rparr>"
    by (simp add: new_world_def create_server_instance_def)
  have boot: "main_boot (\<lambda>_. True) (aof_file ?os) = Inr (septic_tank_create, 0)" by (simp add: boot_empty)
  have "open_listener ?os = Inr ()" by (simp add: open_listener_def)
  note serves = main_serves [OF no_arguments this boot, where as = "[?c]" and reqs = "[?r]", unfolded req, folded world,
      OF _ _ w(1)]
  have "\<exists>conns. main (\<lambda>_. None) (\<lambda>_. True) ?os [] (map Incoming [?c] @ map arrives [?r]) =
      Inr (Serving 6969 (zip (map fst [?r]) (map resp_enc [RESP_simple_string ''OK''])) conns w)"
  proof (rule serves)
    show "list_all reachable_client [?c]" by (simp add: reachable_client_def)
    have "words_fit [''SET'', ''c'', ''v'']" unfolding words_fit_def set_c_encoded by simp
    then show "\<forall>(fd, ws, ts, clk) \<in> set [?r]. words_fit ws \<and> fd \<in> client_fd ` set [?c]" by simp
    show "\<forall>v \<in> set [RESP_simple_string ''OK'']. length (resp_enc v) < BUFFER_SIZE" by (simp add: c_string_def)
  qed
  with w(2) show ?thesis by (auto simp: c_string_def simp del: arrives.simps)
qed

text \<open>
  C27: one unknown client ends the server. However many clients are being served, a connection from an address that has
  no name (\<^verbatim>\<open>gethostbyaddr\<close> finds none), like any failure of \<^verbatim>\<open>accept\<close>, ends the whole process.
\<close>

theorem unnamed_client_exits:
  assumes "main inet_pton cal os argv evs = Inr (Serving p outs conns w)" and "\<not> host_found a \<or> client_fd a < 0"
  shows "main inet_pton cal os argv (evs @ Incoming a # evs') = Inl Panic"
proof -
  have refused: "accept_client a conns = Inl Panic" for conns using assms(2) by (auto simp: accept_client_def)
  obtain serv p' where opts: "main_options inet_pton argv = Inr (Listening serv p')"
  proof (cases "main_options inet_pton argv")
    case (Inr st)
    with assms(1) that show ?thesis by (cases st) (auto simp: main_def)
  qed (use assms(1) in \<open>simp add: main_def\<close>)
  obtain t n where boot: "open_listener os = Inr ()" "main_boot cal (aof_file os) = Inr (t, n)"
    using assms(1) by (auto simp: main_def opts rbind_eq_Inr_iff split: prod.splits)
  let ?w = "\<lparr>wtank = t, wlog = [], has_master = maybe_master serv \<noteq> None\<rparr>"
  obtain r where "accept_loop cal (\<lambda>_. None) ?w evs = Inr r"
    using assms(1) by (auto simp: main_def opts boot rbind_eq_Inr_iff simp del: not_None_eq split: prod.splits)
  with opts boot show ?thesis
    by (cases r) (simp add: main_def accept_loop_append refused del: not_None_eq)
qed

theorem unnamed_client_exits_witness:
  "main (\<lambda>_. None) (\<lambda>_. True)
      \<lparr>socket_result = 3, bind_result = 0, listen_result = 0, aof_file = Not_found\<rparr> []
      ([] @ Incoming \<lparr>client_fd = 4, host_found = False, address_found = True, fresh_buffer = []\<rparr> # []) = Inl Panic"
proof -
  let ?os = "\<lparr>socket_result = 3, bind_result = 0, listen_result = 0, aof_file = Not_found\<rparr>"
  have "main (\<lambda>_. None) (\<lambda>_. True) ?os [] [] = Inr (Serving 6969 [] (\<lambda>_. None)
      \<lparr>wtank = septic_tank_create, wlog = [], has_master = False\<rparr>)"
    by (simp add: main_def no_arguments open_listener_def main_boot_def septic_tank_disable_aof_def
        septic_tank_enable_aof_def septic_tank_create_def create_server_instance_def)
  then show ?thesis by (rule unnamed_client_exits) simp
qed

end
