(* ===== verification/Flush_Stream.thy ===== *)
theory Flush_Stream
  imports Potty_Codec
begin

text \<open>
  Writing one flush job through a \<^verbatim>\<open>stdio\<close> stream (\<^verbatim>\<open>perform_flush\<close>), with the three places where bytes can be: the
  buffer of the stream, the file as the system shows it to a process that opens it, and the
  device, which is what survives a power failure. \<^verbatim>\<open>fwrite\<close> adds to the buffer; \<^verbatim>\<open>stdio\<close> may hand on bytes from
  the front of the buffer at any time, as many as the argument \<open>drains\<close> says after each record; \<^verbatim>\<open>fsync\<close> on the descriptor
  copies the file to the device and does not see the buffer; \<^verbatim>\<open>fclose\<close> empties the buffer into the file.
\<close>

record stream =
  stdio :: "char list"
  os :: "char list"
  device :: "char list"

definition stream_put :: "char list \<Rightarrow> stream \<Rightarrow> stream" where
  "stream_put bs st = st\<lparr>stdio := stdio st @ bs\<rparr>"

definition stream_drain :: "nat \<Rightarrow> stream \<Rightarrow> stream" where
  "stream_drain k st = st\<lparr>os := os st @ take k (stdio st), stdio := drop k (stdio st)\<rparr>"

definition fsync :: "stream \<Rightarrow> stream" where
  "fsync st = st\<lparr>device := os st\<rparr>"

definition fclose :: "stream \<Rightarrow> stream" where
  "fclose st = st\<lparr>os := os st @ stdio st, stdio := []\<rparr>"

fun flush_loop :: "nat \<Rightarrow> (mutation \<times> nat) list \<Rightarrow> stream \<Rightarrow> stream res" where
  \<comment> \<open>the loop over the job; \<open>space\<close> bounds the bytes of a record the device accepts\<close>
  "flush_loop space [] st = Inr st"
| "flush_loop space ((mu, k) # job) st =
     rbind (potty_serialize_mutation \<lparr>written = [], room = space\<rparr> mu) (\<lambda>f.
       flush_loop space job (stream_drain k (stream_put (written f) st)))"

definition perform_flush :: "nat \<Rightarrow> (mutation \<times> nat) list \<Rightarrow> char list option \<Rightarrow> char list \<Rightarrow> stream res" where
  \<comment> \<open>open for appending (\<open>None\<close> if the file cannot be opened), write, synchronise, close\<close>
  "perform_flush space job aof dev =
     (case aof of
        None \<Rightarrow> Inl Panic
      | Some contents \<Rightarrow>
          rbind (flush_loop space job \<lparr>stdio = [], os = contents, device = dev\<rparr>) (\<lambda>st. Inr (fclose (fsync st))))"

lemma drain_bytes:
  "os (stream_drain k st) @ stdio (stream_drain k st) = os st @ stdio st"
  by (simp add: stream_drain_def)

lemma flush_loop_bytes:
  "flush_loop space job st = Inr st' \<Longrightarrow>
     os st' @ stdio st' = os st @ stdio st @ concat (map (enc_mutation \<circ> fst) job) \<and> device st' = device st"
proof (induction job arbitrary: st)
  case (Cons mk job)
  obtain mu k where mk: "mk = (mu, k)" by (cases mk)
  from Cons.prems obtain f where f: "potty_serialize_mutation \<lparr>written = [], room = space\<rparr> mu = Inr f"
    and run: "flush_loop space job (stream_drain k (stream_put (written f) st)) = Inr st'"
    by (auto simp: mk rbind_eq_Inr_iff)
  have "written f = enc_mutation mu" using serialize_written [OF f] by simp
  moreover have "device (stream_drain k (stream_put (written f) st)) = device st"
    by (simp add: stream_drain_def stream_put_def)
  moreover have "os (stream_drain k (stream_put (written f) st)) @ stdio (stream_drain k (stream_put (written f) st)) =
      os st @ stdio st @ written f"
    unfolding drain_bytes by (simp add: stream_put_def)
  ultimately show ?case
    using Cons.IH [OF run] by (simp add: mk)
qed simp

lemma flush_loop_undrained:
  "flush_loop space job st = Inr st' \<Longrightarrow> \<forall>(mu, k) \<in> set job. k = 0 \<Longrightarrow> os st' = os st"
proof (induction job arbitrary: st)
  case (Cons mk job)
  then show ?case
    by (cases mk) (fastforce simp: rbind_eq_Inr_iff stream_drain_def stream_put_def)
qed simp

section \<open>Properties\<close>

text \<open>
  C29: a finished flush is in the file but need not be on the device. Afterwards the file is what it was before with the
  records of the job appended, in order, and no byte is left in the buffer; but \<^verbatim>\<open>fsync\<close> runs before the buffer is
  flushed, so the device holds only the bytes that had left the buffer by then, which is none
  of the job when its records fit the buffer.
\<close>

theorem flush_appends_unsynced:
  assumes "perform_flush space job (Some contents) dev = Inr st"
  shows "os st = contents @ concat (map (enc_mutation \<circ> fst) job) \<and> stdio st = [] \<and>
    (\<exists>late. device st @ late = os st) \<and>
    ((\<forall>(mu, k) \<in> set job. k = 0) \<longrightarrow> device st = contents)"
proof -
  from assms obtain st1 where run: "flush_loop space job \<lparr>stdio = [], os = contents, device = dev\<rparr> = Inr st1"
    and st: "st = fclose (fsync st1)"
    by (auto simp: perform_flush_def rbind_eq_Inr_iff)
  from flush_loop_bytes [OF run] flush_loop_undrained [OF run] show ?thesis
    by (auto simp: st fclose_def fsync_def)
qed

theorem flush_appends_unsynced_witness:
  "\<exists>st. perform_flush 1000 [(Del_mutation ''c'', 0), (Set_mutation ''c'' ''v'' (- 1), 0)] (Some []) [] = Inr st \<and>
     os st = enc_mutation (Del_mutation ''c'') @ enc_mutation (Set_mutation ''c'' ''v'' (- 1)) \<and> device st = []"
proof -
  let ?job = "[(Del_mutation ''c'', 0), (Set_mutation ''c'' ''v'' (- 1), 0)]"
  obtain st where st: "perform_flush 1000 ?job (Some []) [] = Inr st"
    by (simp add: perform_flush_def potty_serialize_mutation_def fwrite_byte_def fwrite_string_def
        fwrite_int64_def fwrite_def)
  from flush_appends_unsynced [OF st] st show ?thesis by auto
qed

end
