(* ===== verification/Memory.thy ===== *)
theory Memory
  imports Prelude "HOL-Library.Multiset"
begin

text \<open>
  Allocated memory. A block of the system allocator is a number that is never given out again; a heap is the set of
  blocks that are allocated now. Releasing a block that is not allocated is the fault
  \<^const>\<open>UseAfterFree\<close>, and the operations that read through a pointer check its block in the same way. Ownership is stated by
  listing the blocks of every owner, each block once. The locale \<open>resource\<close> is the contract of a kind of object that is created
  from and destroyed to blocks.
\<close>

section \<open>Blocks\<close>

record heap =
  live :: "nat set"
  next_block :: nat

definition heap_empty :: heap where
  "heap_empty = \<lparr>live = {}, next_block = 0\<rparr>"

definition malloc :: "heap \<Rightarrow> nat \<times> heap" where
  "malloc h = (next_block h, h\<lparr>live := insert (next_block h) (live h), next_block := Suc (next_block h)\<rparr>)"

definition release :: "nat \<Rightarrow> heap \<Rightarrow> heap res" where
  "release b h = (if b \<in> live h then Inr (h\<lparr>live := live h - {b}\<rparr>) else Inl UseAfterFree)"

definition heap_ok :: "heap \<Rightarrow> bool" where
  "heap_ok h \<longleftrightarrow> (\<forall>b \<in> live h. b < next_block h)"

section \<open>Ownership\<close>

definition owns :: "heap \<Rightarrow> nat list \<Rightarrow> bool" where
  \<comment> \<open>the allocated blocks, each listed once\<close>
  "owns h bs \<longleftrightarrow> distinct bs \<and> live h = set bs"

definition holds :: "heap \<Rightarrow> nat list \<Rightarrow> bool" where
  "holds h bs \<longleftrightarrow> owns h bs \<and> heap_ok h"

lemma owns_mset: "owns h bs \<Longrightarrow> mset bs = mset cs \<Longrightarrow> owns h cs"
  by (metis owns_def mset_eq_imp_distinct_iff mset_eq_setD)

lemma holds_empty [simp]: "holds heap_empty []"
  by (simp add: holds_def owns_def heap_empty_def heap_ok_def)

lemma holds_mset: "holds h bs \<Longrightarrow> mset bs = mset cs \<Longrightarrow> holds h cs"
  using owns_mset by (auto simp: holds_def)

lemma holds_live: "holds h bs \<Longrightarrow> live h = set bs"
  by (simp add: holds_def owns_def)

lemma malloc_holds: "holds h bs \<Longrightarrow> malloc h = (b, h') \<Longrightarrow> holds h' (b # bs)"
  by (auto simp: holds_def owns_def heap_ok_def malloc_def less_Suc_eq)

lemma release_holds: "holds h (b # bs) \<Longrightarrow> \<exists>h'. release b h = Inr h' \<and> holds h' bs"
  by (auto simp: holds_def owns_def release_def heap_ok_def)

lemma release_needs: "release b h = Inr h' \<Longrightarrow> b \<in> live h \<and> live h' = live h - {b}"
  by (auto simp: release_def split: if_splits)

lemma concat_update:
  "i < length xs \<Longrightarrow> mset (concat (map f (xs[i := y]))) + mset (f (xs ! i)) = mset (concat (map f xs)) + mset (f y)"
  by (subst (3) id_take_nth_drop [of i xs]) (simp_all add: upd_conv_take_nth_drop ac_simps)

section \<open>Objects made of blocks\<close>

fun destroy_all :: "('r \<Rightarrow> heap \<Rightarrow> heap res) \<Rightarrow> 'r list \<Rightarrow> heap \<Rightarrow> heap res" where
  "destroy_all destroy [] h = Inr h"
| "destroy_all destroy (r # rs) h = rbind (destroy r h) (destroy_all destroy rs)"

locale resource =
  fixes create :: "heap \<Rightarrow> 'r \<times> heap"
    and destroy :: "'r \<Rightarrow> heap \<Rightarrow> heap res"
    and blocks :: "'r \<Rightarrow> nat list"
  assumes create_holds: "holds h bs \<Longrightarrow> create h = (r, h') \<Longrightarrow> holds h' (blocks r @ bs)"
    and destroy_holds: "holds h (blocks r @ bs) \<Longrightarrow> \<exists>h'. destroy r h = Inr h' \<and> holds h' bs"
    and destroy_frees: "destroy r h = Inr h' \<Longrightarrow> set (blocks r) \<subseteq> live h \<and> live h' = live h - set (blocks r)"
    and has_block: "blocks r \<noteq> []"
begin

lemma create_destroy:
  assumes "holds h bs" and "create h = (r, h')"
  shows "\<exists>h''. destroy r h' = Inr h'' \<and> live h'' = live h"
  using destroy_holds [OF create_holds [OF assms]] assms(1) by (auto simp: holds_live)

lemma destroy_one:
  assumes "holds h cs" and "mset cs = mset (blocks r) + mset bs"
  shows "\<exists>h'. destroy r h = Inr h' \<and> holds h' bs"
  using destroy_holds [OF holds_mset [OF assms(1)], of r bs] assms(2) by simp

lemma destroy_twice: "destroy r h = Inr h' \<Longrightarrow> destroy r h' \<noteq> Inr h''"
  using destroy_frees [of r h h'] destroy_frees [of r h' h''] has_block [of r] by (cases "blocks r") auto

lemma destroy_all_holds:
  "holds h (concat (map blocks rs) @ bs) \<Longrightarrow> \<exists>h'. destroy_all destroy rs h = Inr h' \<and> holds h' bs"
proof (induction rs arbitrary: h)
  case (Cons r rs)
  then have "holds h (blocks r @ (concat (map blocks rs) @ bs))" by simp
  from destroy_holds [OF this] Cons.IH show ?case by auto
qed simp

end

end
