(* ===== verification/Hashmap_Memory.thy ===== *)
theory Hashmap_Memory
  imports Hashmap_Correct Memory
begin

text \<open>
  The memory of the hash map. The map is a struct with an array, and owns its keys and values: \<^verbatim>\<open>hashmap_put\<close>,
  \<^verbatim>\<open>hashmap_remove\<close> and \<^verbatim>\<open>hashmap_free\<close> release them through the two callbacks that \<^verbatim>\<open>septic_tank_create\<close> installs, and
  a rehash allocates a new array and releases the old one. Here every value carries the numbers of the two blocks it and its
  key live in, the map those of its struct and its array, and the heap of \<open>Memory\<close> is passed through the operations. Reading the
  struct, the array, a key or, through the pointer that \<^verbatim>\<open>hashmap_get\<close> returned, an entry, and releasing a
  block is the fault \<open>UseAfterFree\<close> when the block is not allocated. The lemmas show that these operations do to the
  table what those of \<open>Hashmap\<close> do and never meet that fault, with no condition on the probe chains.
\<close>

section \<open>Owned values\<close>

record 'v owned =
  kblock :: nat
  vblock :: nat
  content :: 'v

type_synonym 'v owned_table = "'v owned hashmap_map"

record 'v owned_map =
  table :: "'v owned_table"
  marray :: nat
  mstruct :: nat

section \<open>Operations\<close>

definition table_access :: "'v owned_map \<Rightarrow> heap \<Rightarrow> unit res" where
  "table_access m h = (if mstruct m \<in> live h \<and> marray m \<in> live h then Inr () else Inl UseAfterFree)"

definition owned_new :: "heap \<Rightarrow> 'v owned_map \<times> heap" where
  \<comment> \<open>\<^verbatim>\<open>hashmap_new_with_free\<close>\<close>
  "owned_new h =
     (let (s, h) = malloc h; (d, h) = malloc h in (\<lparr>table = hashmap_new, marray = d, mstruct = s\<rparr>, h))"

definition owned_has_key :: "heap \<Rightarrow> 'v owned hashmap_element option \<Rightarrow> char list \<Rightarrow> bool res" where
  \<comment> \<open>the bytes of the stored key are read when the lengths agree\<close>
  "owned_has_key h s key =
     (case s of
        None \<Rightarrow> Inr False
      | Some e \<Rightarrow>
          if length (ekey e) \<noteq> length key then Inr False
          else if kblock (edata e) \<in> live h then Inr (ekey e = key)
          else Inl UseAfterFree)"

fun owned_probe_free ::
  "heap \<Rightarrow> 'v owned hashmap_element option list \<Rightarrow> nat \<Rightarrow> char list \<Rightarrow> nat \<Rightarrow> nat \<Rightarrow> nat option res" where
  "owned_probe_free h d ts key cur 0 = Inr None"
| "owned_probe_free h d ts key cur (Suc i) =
     (if d ! cur = None then Inr (Some cur)
      else rbind (owned_has_key h (d ! cur) key) (\<lambda>b.
        if b then Inr (Some cur) else owned_probe_free h d ts key ((cur + 1) mod ts) i))"

fun owned_probe_key ::
  "heap \<Rightarrow> 'v owned hashmap_element option list \<Rightarrow> nat \<Rightarrow> char list \<Rightarrow> nat \<Rightarrow> nat \<Rightarrow> nat option res" where
  "owned_probe_key h d ts key cur 0 = Inr None"
| "owned_probe_key h d ts key cur (Suc i) =
     rbind (owned_has_key h (d ! cur) key) (\<lambda>b.
       if b then Inr (Some cur) else owned_probe_key h d ts key ((cur + 1) mod ts) i)"

definition owned_hash :: "heap \<Rightarrow> 'v owned_map \<Rightarrow> char list \<Rightarrow> nat option res" where
  "owned_hash h om key =
     (let m = table om in
      rbind (table_access om h) (\<lambda>_.
        if msize m \<ge> table_size m div 2 then Inr None
        else owned_probe_free h (mdata m) (table_size m) key
               (hashmap_hash_int (table_size m) key) MAX_CHAIN_LENGTH))"

definition free_element :: "'v owned hashmap_element \<Rightarrow> heap \<Rightarrow> heap res" where
  \<comment> \<open>the two callbacks\<close>
  "free_element e h = rbind (release (kblock (edata e)) h) (\<lambda>h. release (vblock (edata e)) h)"

definition owned_store :: "heap \<Rightarrow> 'v owned_map \<Rightarrow> nat \<Rightarrow> char list \<Rightarrow> 'v owned \<Rightarrow> (heap \<times> 'v owned_map) res" where
  "owned_store h om index key value =
     rbind (case mdata (table om) ! index of None \<Rightarrow> Inr h | Some e \<Rightarrow> free_element e h) (\<lambda>h.
     rbind (table_access om h) (\<lambda>_.
       Inr (h, om\<lparr>table := hashmap_store (table om) index key value\<rparr>)))"

type_synonym 'v owned_put_fn =
  "heap \<Rightarrow> 'v owned_map \<Rightarrow> char list \<Rightarrow> 'v owned \<Rightarrow> (heap \<times> map_status \<times> 'v owned_map) res"

fun owned_rehash_loop ::
  "'v owned_put_fn \<Rightarrow> heap \<Rightarrow> nat \<Rightarrow> 'v owned hashmap_element option list \<Rightarrow> 'v owned_map \<Rightarrow>
     (heap \<times> map_status \<times> 'v owned_map) res" where
  \<comment> \<open>\<open>old\<close> is the old array, which is read while the elements are put into the new one\<close>
  "owned_rehash_loop put h old [] om = Inr (h, MAP_OK, om)"
| "owned_rehash_loop put h old (s # es) om =
     (if old \<notin> live h then Inl UseAfterFree
      else case s of
        None \<Rightarrow> owned_rehash_loop put h old es om
      | Some e \<Rightarrow> rbind (put h om (ekey e) (edata e)) (\<lambda>(h, status, om').
          if status \<noteq> MAP_OK then Inr (h, status, om') else owned_rehash_loop put h old es om'))"

definition owned_rehash_with ::
  "(nat \<Rightarrow> bool) \<Rightarrow> 'v owned_put_fn \<Rightarrow> heap \<Rightarrow> 'v owned_map \<Rightarrow> (heap \<times> map_status \<times> 'v owned_map) res" where
  "owned_rehash_with cal put h om =
     (let m = table om in
      if 2 * table_size m > INT_MAX then Inl SignedOverflow
      else if \<not> cal (2 * table_size m) then Inr (h, MAP_OMEM, om)
      else
        let (temp, h) = malloc h; old = marray om;
            new = \<lparr>table_size = 2 * table_size m, msize = 0, mdata = replicate (2 * table_size m) None\<rparr>
        in rbind (owned_rehash_loop put h old (mdata m) (om\<lparr>table := new, marray := temp\<rparr>)) (\<lambda>(h, status, om').
             if status \<noteq> MAP_OK then Inr (h, status, om')
             else rbind (release old h) (\<lambda>h. Inr (h, MAP_OK, om'))))"

primrec owned_put_fuel :: "(nat \<Rightarrow> bool) \<Rightarrow> nat \<Rightarrow> 'v owned_put_fn" where
  "owned_put_fuel cal 0 = (\<lambda>h om key value. Inl OutOfFuel)"
| "owned_put_fuel cal (Suc fuel) = (\<lambda>h om key value.
     rbind (owned_hash h om key) (\<lambda>index.
       case index of
         Some i \<Rightarrow> rbind (owned_store h om i key value) (\<lambda>(h, om'). Inr (h, MAP_OK, om'))
       | None \<Rightarrow> rbind (owned_rehash_with cal (owned_put_fuel cal fuel) h om) (\<lambda>(h, status, om').
           if status = MAP_OMEM then Inr (h, MAP_OMEM, om') else owned_put_fuel cal fuel h om' key value)))"

definition owned_put :: "(nat \<Rightarrow> bool) \<Rightarrow> 'v owned_put_fn" where
  "owned_put cal = owned_put_fuel cal 31"

definition owned_find :: "heap \<Rightarrow> 'v owned_map \<Rightarrow> char list \<Rightarrow> nat option res" where
  \<comment> \<open>the probing loop that \<^verbatim>\<open>hashmap_get\<close> and \<^verbatim>\<open>hashmap_remove\<close> share\<close>
  "owned_find h om key =
     (let m = table om in
      rbind (table_access om h) (\<lambda>_.
        owned_probe_key h (mdata m) (table_size m) key (hashmap_hash_int (table_size m) key) MAX_CHAIN_LENGTH))"

definition owned_get :: "heap \<Rightarrow> 'v owned_map \<Rightarrow> char list \<Rightarrow> 'v owned option res" where
  \<comment> \<open>the pointer to the value; what it points to is read by \<open>deref\<close>\<close>
  "owned_get h om key =
     rbind (owned_find h om key) (\<lambda>r.
       case r of
         None \<Rightarrow> Inr None
       | Some cur \<Rightarrow> (case mdata (table om) ! cur of None \<Rightarrow> Inl NullDeref | Some e \<Rightarrow> Inr (Some (edata e))))"

definition deref :: "'v owned \<Rightarrow> heap \<Rightarrow> 'v res" where
  "deref p h = (if vblock p \<in> live h then Inr (content p) else Inl UseAfterFree)"

definition owned_remove :: "heap \<Rightarrow> 'v owned_map \<Rightarrow> char list \<Rightarrow> (heap \<times> map_status \<times> 'v owned_map) res" where
  "owned_remove h om key =
     (let m = table om in
      rbind (owned_find h om key) (\<lambda>r.
       case r of
         None \<Rightarrow> Inr (h, MAP_MISSING, om)
       | Some cur \<Rightarrow>
           rbind (case mdata m ! cur of None \<Rightarrow> Inl NullDeref | Some e \<Rightarrow> free_element e h) (\<lambda>h.
           rbind (table_access om h) (\<lambda>_.
             Inr (h, MAP_OK, om\<lparr>table := m\<lparr>mdata := (mdata m)[cur := None], msize := msize m - 1\<rparr>\<rparr>)))))"

fun free_loop :: "'v owned hashmap_element option list \<Rightarrow> nat \<Rightarrow> heap \<Rightarrow> heap res" where
  "free_loop [] data h = Inr h"
| "free_loop (s # es) data h =
     (if data \<notin> live h then Inl UseAfterFree
      else rbind (case s of None \<Rightarrow> Inr h | Some e \<Rightarrow> free_element e h) (free_loop es data))"

definition hashmap_free :: "'v owned_map \<Rightarrow> heap \<Rightarrow> heap res" where
  "hashmap_free om h =
     rbind (table_access om h) (\<lambda>_.
     rbind (free_loop (mdata (table om)) (marray om) h) (\<lambda>h.
     rbind (release (marray om) h) (release (mstruct om))))"

section \<open>Ownership\<close>

fun slot_blocks :: "'v owned hashmap_element option \<Rightarrow> nat list" where
  "slot_blocks None = []"
| "slot_blocks (Some e) = [kblock (edata e), vblock (edata e)]"

definition slots_blocks :: "'v owned hashmap_element option list \<Rightarrow> nat list" where
  "slots_blocks d = concat (map slot_blocks d)"

abbreviation map_blocks :: "'v owned_map \<Rightarrow> nat list" where
  "map_blocks om \<equiv> mstruct om # marray om # slots_blocks (mdata (table om))"

definition shape :: "'v hashmap_map \<Rightarrow> bool" where
  "shape m \<longleftrightarrow> length (mdata m) = table_size m \<and> 0 < table_size m"

lemma slots_blocks_simps [simp]:
  "slots_blocks [] = []" "slots_blocks (s # d) = slot_blocks s @ slots_blocks d"
  "slots_blocks (d @ d') = slots_blocks d @ slots_blocks d'" "slots_blocks (replicate n None) = []"
  by (simp_all add: slots_blocks_def)

lemma slots_blocks_update:
  "i < length d \<Longrightarrow>
     mset (slots_blocks (d[i := s])) + mset (slot_blocks (d ! i)) = mset (slots_blocks d) + mset (slot_blocks s)"
  unfolding slots_blocks_def by (rule concat_update)

lemma slot_block_in: "d ! i = Some e \<Longrightarrow> i < length d \<Longrightarrow> {kblock (edata e), vblock (edata e)} \<subseteq> set (slots_blocks d)"
  by (subst id_take_nth_drop [of i d]) simp_all

lemma free_element_owned:
  assumes "holds h (slot_blocks (Some e) @ bs)"
  shows "\<exists>h'. free_element e h = Inr h' \<and> holds h' bs"
  using assms release_holds [of h "kblock (edata e)" "vblock (edata e) # bs"] release_holds [of _ "vblock (edata e)" bs]
  by (fastforce simp: free_element_def)

lemma table_access_ok: "holds h (map_blocks om @ rest) \<Longrightarrow> table_access om h = Inr ()"
  by (simp add: table_access_def holds_live)

lemma probe_owned:
  assumes "set (slots_blocks d) \<subseteq> live h" and "length d = ts" and "cur < ts"
  shows "owned_probe_free h d ts key cur n = Inr (probe_free d ts key cur n)"
    and "owned_probe_key h d ts key cur n = Inr (probe_key d ts key cur n)"
proof -
  have key: "owned_has_key h (d ! c) key = Inr (slot_has_key (d ! c) key)" if "c < ts" for c
    using slot_block_in [of d c] assms(1,2) that
    by (auto simp: owned_has_key_def slot_has_key_def split: option.splits)
  have "owned_probe_free h d ts key cur n = Inr (probe_free d ts key cur n) \<and>
      owned_probe_key h d ts key cur n = Inr (probe_key d ts key cur n)"
    using assms(3) by (induction n arbitrary: cur) (auto simp: key)
  then show "owned_probe_free h d ts key cur n = Inr (probe_free d ts key cur n)"
    and "owned_probe_key h d ts key cur n = Inr (probe_key d ts key cur n)" by simp_all
qed

section \<open>Operations keep ownership\<close>

lemma shape_hash: "shape m \<Longrightarrow> hashmap_hash m k = Some i \<Longrightarrow> i < length (mdata m)"
  using probe_free_Some_iff [of "hashmap_hash_int (table_size m) k" "table_size m" "mdata m" k MAX_CHAIN_LENGTH i]
  by (auto simp: hashmap_hash_def shape_def hashmap_hash_int_def split: if_splits)

lemma shape_store: "shape m \<Longrightarrow> shape (hashmap_store m i k v)"
  by (simp add: shape_def hashmap_store_def)

lemma probes_ok:
  assumes "shape (table om)" and "holds h (map_blocks om @ rest)"
  shows "owned_hash h om k = Inr (hashmap_hash (table om) k)"
    and "owned_find h om k = Inr (probe_key (mdata (table om)) (table_size (table om)) k
      (hashmap_hash_int (table_size (table om)) k) MAX_CHAIN_LENGTH)"
proof -
  have "set (slots_blocks (mdata (table om))) \<subseteq> live h" using assms(2) by (auto simp: holds_live)
  from probe_owned [OF this] assms(1) table_access_ok [OF assms(2)]
  show "owned_hash h om k = Inr (hashmap_hash (table om) k)"
    and "owned_find h om k = Inr (probe_key (mdata (table om)) (table_size (table om)) k
      (hashmap_hash_int (table_size (table om)) k) MAX_CHAIN_LENGTH)"
    by (simp_all add: owned_hash_def owned_find_def hashmap_hash_def shape_def hashmap_hash_int_def Let_def)
qed

lemma owned_store_ok:
  assumes "shape (table om)" and "i < length (mdata (table om))" and "holds h (map_blocks om @ [kblock v, vblock v] @ rest)"
  shows "\<exists>h'. owned_store h om i k v = Inr (h', om\<lparr>table := hashmap_store (table om) i k v\<rparr>) \<and>
    holds h' (map_blocks (om\<lparr>table := hashmap_store (table om) i k v\<rparr>) @ rest)"
proof -
  let ?m = "om\<lparr>table := hashmap_store (table om) i k v\<rparr>" and ?s = "mdata (table om) ! i"
  have "mset (map_blocks om @ [kblock v, vblock v] @ rest) = mset (slot_blocks ?s @ map_blocks ?m @ rest)"
    using slots_blocks_update [OF assms(2), of "Some \<lparr>ekey = k, edata = v\<rparr>"]
    by (simp add: hashmap_store_def ac_simps)
  from holds_mset [OF assms(3) this] obtain h' where
    "(case ?s of None \<Rightarrow> Inr h | Some e \<Rightarrow> free_element e h) = Inr h'" "holds h' (map_blocks ?m @ rest)"
    using free_element_owned [of h "the ?s" "map_blocks ?m @ rest"] by (cases ?s) auto
  moreover from this(2) have "table_access om h' = Inr ()" by (simp add: table_access_def holds_live)
  ultimately show ?thesis by (simp add: owned_store_def)
qed

text \<open>
  What an insertion does with the blocks: after \<^verbatim>\<open>MAP_OK\<close> the map owns exactly what it holds, the
  two new blocks included; after \<^verbatim>\<open>MAP_OMEM\<close> the new blocks are still allocated but no longer owned.
\<close>

definition tracks ::
  "nat list \<Rightarrow> nat list \<Rightarrow> (map_status \<times> 'v owned_table) res \<Rightarrow> (heap \<times> map_status \<times> 'v owned_map) res \<Rightarrow> bool"
where
  "tracks new rest r mr \<longleftrightarrow>
     (case r of
        Inl e \<Rightarrow> mr = Inl e
      | Inr (st, m') \<Rightarrow> \<exists>h' om. mr = Inr (h', st, om) \<and> table om = m' \<and> shape m' \<and>
          (if st = MAP_OK then holds h' (map_blocks om @ rest)
           else \<exists>lost. holds h' (map_blocks om @ new @ lost @ rest)))"

lemma tracks_Inl [simp]: "tracks new rest (Inl e) mr \<longleftrightarrow> mr = Inl e"
  by (simp add: tracks_def)

lemma tracks_Inr [simp]: "tracks new rest (Inr (st, m')) mr \<longleftrightarrow>
    (\<exists>h' om. mr = Inr (h', st, om) \<and> table om = m' \<and> shape m' \<and>
      (if st = MAP_OK then holds h' (map_blocks om @ rest)
       else \<exists>lost. holds h' (map_blocks om @ new @ lost @ rest)))"
  by (simp add: tracks_def)

definition put_owns :: "'v owned_put_fn \<Rightarrow> 'v owned put_fn \<Rightarrow> bool" where
  "put_owns oput put \<longleftrightarrow> (\<forall>h om k v rest. shape (table om) \<longrightarrow> holds h (map_blocks om @ [kblock v, vblock v] @ rest) \<longrightarrow>
     tracks [kblock v, vblock v] rest (put (table om) k v) (oput h om k v))"

lemma put_ownsD:
  "put_owns oput put \<Longrightarrow> shape (table om) \<Longrightarrow> holds h (map_blocks om @ [kblock v, vblock v] @ rest) \<Longrightarrow>
     tracks [kblock v, vblock v] rest (put (table om) k v) (oput h om k v)"
  unfolding put_owns_def by blast

lemma owned_rehash_loop_ok:
  assumes "put_owns oput put" and "old \<in> set rest"
  shows "shape (table om) \<Longrightarrow> holds h (map_blocks om @ slots_blocks es @ rest) \<Longrightarrow>
    tracks [] rest (rehash_loop put es (table om)) (owned_rehash_loop oput h old es om)"
proof (induction es arbitrary: om h)
  case (Cons s es)
  have live: "old \<in> live h" using assms(2) Cons.prems(2) by (simp add: holds_live)
  show ?case
  proof (cases s)
    case None
    with Cons live show ?thesis by simp
  next
    case (Some e)
    let ?new = "[kblock (edata e), vblock (edata e)]"
    from Cons.prems(2) have own: "holds h (map_blocks om @ ?new @ slots_blocks es @ rest)" by (simp add: Some)
    note put = put_ownsD [OF assms(1) Cons.prems(1) own, of "ekey e"]
    show ?thesis
    proof (cases "put (table om) (ekey e) (edata e)")
      case (Inl f)
      with put live show ?thesis by (simp add: Some)
    next
      case (Inr r)
      obtain st m1 where r: "r = (st, m1)" by (cases r)
      from put obtain h1 om1 where h1: "oput h om (ekey e) (edata e) = Inr (h1, st, om1)" "table om1 = m1" "shape m1"
        and o: "if st = MAP_OK then holds h1 (map_blocks om1 @ slots_blocks es @ rest)
          else \<exists>lost. holds h1 (map_blocks om1 @ ?new @ lost @ slots_blocks es @ rest)"
        unfolding Inr r tracks_Inr by blast
      show ?thesis
      proof (cases "st = MAP_OK")
        case True
        with o h1 Cons.IH [of om1 h1] live show ?thesis
          by (simp add: Some Inr r del: tracks_Inr)
      next
        case False
        with o obtain lost where "holds h1 (map_blocks om1 @ (?new @ lost @ slots_blocks es) @ rest)" by auto
        then have "\<exists>lost. holds h1 (map_blocks om1 @ lost @ rest)" by blast
        with False h1 live show ?thesis by (simp add: Some Inr r)
      qed
    qed
  qed
qed simp

lemma owned_rehash_with_ok:
  assumes "put_owns oput put" and "shape (table om)" and "holds h (map_blocks om @ rest)"
  shows "tracks [] rest (rehash_with cal put (table om)) (owned_rehash_with cal oput h om)"
proof (cases "2 * table_size (table om) > INT_MAX \<or> \<not> cal (2 * table_size (table om))")
  case True
  have "\<exists>lost. holds h (map_blocks om @ lost @ rest)"
    using assms(3) by (intro exI [of _ "[]"]) simp
  with True assms(2) show ?thesis by (auto simp: rehash_with_def owned_rehash_with_def Let_def)
next
  case False
  let ?n = "2 * table_size (table om)"
  let ?e = "\<lparr>table_size = ?n, msize = 0, mdata = replicate ?n None\<rparr>"
  obtain temp h1 where t: "malloc h = (temp, h1)" by fastforce
  let ?om = "om\<lparr>table := ?e, marray := temp\<rparr>"
  have "shape (table ?om)" using assms(2) by (simp add: shape_def)
  moreover have "holds h1 (map_blocks ?om @ slots_blocks (mdata (table om)) @ (marray om # rest))"
    using malloc_holds [OF assms(3) t] by (rule holds_mset) simp
  ultimately have loop: "tracks [] (marray om # rest) (rehash_loop put (mdata (table om)) ?e)
      (owned_rehash_loop oput h1 (marray om) (mdata (table om)) ?om)"
    using owned_rehash_loop_ok [OF assms(1), of "marray om" "marray om # rest" ?om h1] by simp
  have def: "rehash_with cal put (table om) = rehash_loop put (mdata (table om)) ?e"
    "owned_rehash_with cal oput h om = rbind (owned_rehash_loop oput h1 (marray om) (mdata (table om)) ?om)
      (\<lambda>(h, status, om'). if status \<noteq> MAP_OK then Inr (h, status, om')
         else rbind (release (marray om) h) (\<lambda>h. Inr (h, MAP_OK, om')))"
    using False by (simp_all add: rehash_with_def owned_rehash_with_def t Let_def)
  show ?thesis
  proof (cases "rehash_loop put (mdata (table om)) ?e")
    case (Inl e)
    with loop show ?thesis by (simp add: def)
  next
    case (Inr r)
    obtain st m' where r: "r = (st, m')" by (cases r)
    from loop obtain h2 om' where h2: "owned_rehash_loop oput h1 (marray om) (mdata (table om)) ?om = Inr (h2, st, om')"
        "table om' = m'" "shape m'"
      and o: "if st = MAP_OK then holds h2 (map_blocks om' @ marray om # rest)
        else \<exists>lost. holds h2 (map_blocks om' @ [] @ lost @ marray om # rest)"
      unfolding Inr r tracks_Inr by blast
    show ?thesis
    proof (cases "st = MAP_OK")
      case True
      with o have "holds h2 (marray om # map_blocks om' @ rest)" by (auto intro: holds_mset)
      from release_holds [OF this] h2 True show ?thesis by (auto simp: def Inr r)
    next
      case False
      with o obtain lost where "holds h2 (map_blocks om' @ (lost @ [marray om]) @ rest)" by auto
      then have "\<exists>lost. holds h2 (map_blocks om' @ lost @ rest)" by blast
      with h2 False show ?thesis by (simp add: def Inr r)
    qed
  qed
qed

lemma owned_put_fuel_ok: "put_owns (owned_put_fuel cal f) (put_fuel cal f :: 'a owned put_fn)"
proof (induction f)
  case 0
  show ?case by (simp add: put_owns_def)
next
  case (Suc f)
  show ?case
    unfolding put_owns_def
  proof (intro allI impI)
    fix h and om :: "'a owned_map" and k rest and v :: "'a owned"
    let ?new = "[kblock v, vblock v]" and ?m = "table om"
    assume sh: "shape ?m" and own: "holds h (map_blocks om @ ?new @ rest)"
    note hash = probes_ok(1) [OF sh own, of k]
    show "tracks ?new rest (put_fuel cal (Suc f) ?m k v) (owned_put_fuel cal (Suc f) h om k v)"
    proof (cases "hashmap_hash ?m k")
      case (Some i)
      from owned_store_ok [OF sh shape_hash [OF sh Some] own] obtain h' where
        "owned_store h om i k v = Inr (h', om\<lparr>table := hashmap_store ?m i k v\<rparr>)"
        "holds h' (map_blocks (om\<lparr>table := hashmap_store ?m i k v\<rparr>) @ rest)" by blast
      then show ?thesis by (simp add: hash Some shape_store [OF sh])
    next
      case None
      note re = owned_rehash_with_ok [OF Suc.IH sh own, of cal]
      show ?thesis
      proof (cases "rehash_with cal (put_fuel cal f) ?m")
        case (Inl e)
        with re show ?thesis by (simp add: hash None)
      next
        case (Inr r)
        obtain st m1 where r: "r = (st, m1)" by (cases r)
        from re obtain h1 om1 where h1: "owned_rehash_with cal (owned_put_fuel cal f) h om = Inr (h1, st, om1)"
            "table om1 = m1" "shape m1"
          and o: "if st = MAP_OK then holds h1 (map_blocks om1 @ ?new @ rest)
            else \<exists>lost. holds h1 (map_blocks om1 @ [] @ lost @ ?new @ rest)"
          unfolding Inr r tracks_Inr by blast
        show ?thesis
        proof (cases "st = MAP_OMEM")
          case True
          with o obtain lost where "holds h1 (map_blocks om1 @ lost @ ?new @ rest)" by auto
          then have "holds h1 (map_blocks om1 @ ?new @ lost @ rest)" by (rule holds_mset) simp
          then have "\<exists>lost. holds h1 (map_blocks om1 @ ?new @ lost @ rest)" by blast
          with True h1 show ?thesis by (simp add: hash None Inr r)
        next
          case False
          with rehash_with_status [OF put_fuel_status] Inr r o have
            "holds h1 (map_blocks om1 @ ?new @ rest)" by fastforce
          from put_ownsD [OF Suc.IH _ this, of k] False h1 show ?thesis
            by (simp add: hash None Inr r del: tracks_Inr)
        qed
      qed
    qed
  qed
qed

lemma owned_put_ok:
  assumes "shape (table om)" and "holds h (map_blocks om @ [kblock v, vblock v] @ rest)"
  shows "tracks [kblock v, vblock v] rest (hashmap_put cal (table om) k v) (owned_put cal h om k v)"
  using put_ownsD [OF owned_put_fuel_ok assms] by (simp add: hashmap_put_def owned_put_def)

lemma probe_key_lt: "c < ts \<Longrightarrow> probe_key d ts k c n = Some i \<Longrightarrow> i < ts \<and> slot_has_key (d ! i) k"
  by (induction d ts k c n rule: probe_key.induct) (auto split: if_splits)

text \<open>Where a key is found there is an element, whose blocks the map owns.\<close>

lemma found:
  assumes "shape m" and "probe_key (mdata m) (table_size m) k (hashmap_hash_int (table_size m) k) n = Some i"
  shows "\<exists>e. mdata m ! i = Some e \<and> i < length (mdata m)"
  using probe_key_lt [OF _ assms(2)] assms(1)
  by (auto simp: shape_def hashmap_hash_int_def slot_has_key_def split: option.splits)

lemma owned_remove_ok:
  assumes "shape (table om)" and "holds h (map_blocks om @ rest)"
  shows "\<exists>h' om'. owned_remove h om k = Inr (h', fst (hashmap_remove (table om) k), om') \<and>
    table om' = snd (hashmap_remove (table om) k) \<and> shape (table om') \<and> holds h' (map_blocks om' @ rest)"
proof -
  let ?m = "table om"
  note probe = probes_ok(2) [OF assms, of k]
  show ?thesis
  proof (cases "probe_key (mdata ?m) (table_size ?m) k (hashmap_hash_int (table_size ?m) k) MAX_CHAIN_LENGTH")
    case None
    with probe assms show ?thesis by (simp add: owned_remove_def hashmap_remove_def Let_def)
  next
    case (Some i)
    from found [OF assms(1) Some] obtain e where e: "mdata ?m ! i = Some e" and i: "i < length (mdata ?m)" by blast
    let ?om = "om\<lparr>table := ?m\<lparr>mdata := (mdata ?m)[i := None], msize := msize ?m - 1\<rparr>\<rparr>"
    have "mset (map_blocks om @ rest) = mset (slot_blocks (Some e) @ map_blocks ?om @ rest)"
      using slots_blocks_update [OF i, of None] by (simp add: e add_mset_commute)
    from free_element_owned [OF holds_mset [OF assms(2) this]] obtain h' where
      h': "free_element e h = Inr h'" "holds h' (map_blocks ?om @ rest)" by blast
    then have "table_access om h' = Inr ()" by (simp add: table_access_def holds_live)
    with probe assms(1) Some e h' show ?thesis
      by (auto simp: owned_remove_def hashmap_remove_def shape_def Let_def)
  qed
qed

lemma free_loop_owned:
  "holds h (slots_blocks d @ rest) \<Longrightarrow> data \<in> set rest \<Longrightarrow> \<exists>h'. free_loop d data h = Inr h' \<and> holds h' rest"
proof (induction d arbitrary: h)
  case (Cons s d)
  then have "data \<in> live h" by (simp add: holds_live)
  moreover obtain h1 where "(case s of None \<Rightarrow> Inr h | Some e \<Rightarrow> free_element e h) = Inr h1" "holds h1 (slots_blocks d @ rest)"
    using Cons.prems(1) free_element_owned [of h "the s" "slots_blocks d @ rest"] by (cases s) auto
  ultimately show ?case using Cons.IH Cons.prems(2) by simp
qed simp

lemma hashmap_free_ok:
  assumes "holds h (map_blocks om @ rest)"
  shows "\<exists>h'. hashmap_free om h = Inr h' \<and> holds h' rest"
proof -
  have "holds h (slots_blocks (mdata (table om)) @ marray om # mstruct om # rest)"
    using assms by (rule holds_mset) simp
  from free_loop_owned [OF this, of "marray om"] obtain h1 where
    "free_loop (mdata (table om)) (marray om) h = Inr h1" "holds h1 (marray om # mstruct om # rest)" by auto
  moreover from release_holds [OF this(2)] obtain h2 where "release (marray om) h1 = Inr h2" "holds h2 (mstruct om # rest)"
    by blast
  ultimately show ?thesis
    using table_access_ok [OF assms] release_holds [of h2 "mstruct om" rest] by (simp add: hashmap_free_def)
qed

lemma owned_new_ok:
  assumes "holds h bs" and "owned_new h = (om, h')"
  shows "holds h' (map_blocks om @ bs) \<and> table om = hashmap_new"
proof -
  obtain st h1 where a: "malloc h = (st, h1)" by fastforce
  obtain d h2 where b: "malloc h1 = (d, h2)" by fastforce
  from malloc_holds [OF malloc_holds [OF assms(1) a] b] have "holds h2 (st # d # bs)" by (rule holds_mset) simp
  with assms(2) a b show ?thesis by (auto simp: owned_new_def hashmap_new_def)
qed

lemma free_loop_frees:
  "free_loop d data h = Inr h' \<Longrightarrow> set (slots_blocks d) \<subseteq> live h \<and> live h' = live h - set (slots_blocks d)"
proof (induction d data h rule: free_loop.induct)
  case (2 s es data h)
  from 2(2) obtain h1 where h1: "(case s of None \<Rightarrow> Inr h | Some e \<Rightarrow> free_element e h) = Inr h1" "data \<in> live h"
    "free_loop es data h1 = Inr h'"
    by (auto simp: rbind_eq_Inr_iff split: if_splits)
  from h1(1) have "set (slot_blocks s) \<subseteq> live h \<and> live h1 = live h - set (slot_blocks s)"
    by (cases s) (auto simp: free_element_def rbind_eq_Inr_iff dest!: release_needs)
  with 2(1) [OF _ h1(1,3)] h1(2) show ?case by auto
qed simp

interpretation maps: resource owned_new hashmap_free "\<lambda>om. map_blocks om"
proof (unfold_locales, goal_cases)
  case (1 h bs r h')
  then show ?case using owned_new_ok by blast
next
  case (2 h r bs)
  then show ?case by (rule hashmap_free_ok)
next
  case (3 r h h')
  then show ?case
    by (auto simp: hashmap_free_def rbind_eq_Inr_iff dest!: release_needs free_loop_frees)
qed simp

section \<open>The table without its blocks\<close>

definition forget_slot :: "'v owned hashmap_element option \<Rightarrow> 'v hashmap_element option" where
  "forget_slot = map_option (\<lambda>e. \<lparr>ekey = ekey e, edata = content (edata e)\<rparr>)"

definition forget :: "'v owned_table \<Rightarrow> 'v hashmap_map" where
  "forget m = \<lparr>table_size = table_size m, msize = msize m, mdata = map forget_slot (mdata m)\<rparr>"

lemma forget_simps [simp]:
  "table_size (forget m) = table_size m" "msize (forget m) = msize m" "mdata (forget m) = map forget_slot (mdata m)"
  "forget_slot None = None" "forget_slot (Some e) = Some \<lparr>ekey = ekey e, edata = content (edata e)\<rparr>"
  by (simp_all add: forget_def forget_slot_def)

lemma forget_slot_None [simp]: "forget_slot s = None \<longleftrightarrow> s = None"
  by (cases s) simp_all

lemma slot_has_key_forget [simp]: "slot_has_key (forget_slot s) k = slot_has_key s k"
  by (cases s) (simp_all add: slot_has_key_def)

lemma probe_forget:
  assumes "length d = ts" and "c < ts"
  shows "probe_free (map forget_slot d) ts k c n = probe_free d ts k c n"
    and "probe_key (map forget_slot d) ts k c n = probe_key d ts k c n"
proof -
  have "probe_free (map forget_slot d) ts k c n = probe_free d ts k c n \<and>
      probe_key (map forget_slot d) ts k c n = probe_key d ts k c n"
    using assms by (induction n arbitrary: c) simp_all
  then show "probe_free (map forget_slot d) ts k c n = probe_free d ts k c n"
    and "probe_key (map forget_slot d) ts k c n = probe_key d ts k c n" by simp_all
qed

lemma forget_hash: "shape m \<Longrightarrow> hashmap_hash (forget m) k = hashmap_hash m k"
  by (simp add: hashmap_hash_def shape_def probe_forget hashmap_hash_int_def)

lemma forget_store:
  "i < length (mdata m) \<Longrightarrow> hashmap_store (forget m) i k (content v) = forget (hashmap_store m i k v)"
  by (simp add: hashmap_store_def forget_def map_update)

lemma forget_remove:
  "shape m \<Longrightarrow> hashmap_remove (forget m) k = (fst (hashmap_remove m k), forget (snd (hashmap_remove m k)))"
  by (simp add: hashmap_remove_def shape_def probe_forget hashmap_hash_int_def forget_def map_update split: option.splits)

abbreviation forget_result :: "(map_status \<times> 'v owned_table) res \<Rightarrow> (map_status \<times> 'v hashmap_map) res" where
  "forget_result \<equiv> map_sum id (map_prod id forget)"

definition put_forgets :: "'v owned put_fn \<Rightarrow> 'v put_fn \<Rightarrow> bool" where
  "put_forgets put put' \<longleftrightarrow> (\<forall>m k v. shape m \<longrightarrow>
     put' (forget m) k (content v) = forget_result (put m k v) \<and> (\<forall>st m'. put m k v = Inr (st, m') \<longrightarrow> shape m'))"

lemma put_forgetsD:
  assumes "put_forgets put put'" and "shape m"
  shows "put' (forget m) k (content v) = forget_result (put m k v)"
    and "put m k v = Inr (st, m') \<Longrightarrow> shape m'"
  using assms unfolding put_forgets_def by blast+

lemma forget_rehash_loop:
  assumes "put_forgets put put'"
  shows "shape m \<Longrightarrow> rehash_loop put' (map forget_slot es) (forget m) = forget_result (rehash_loop put es m) \<and>
    (\<forall>st m'. rehash_loop put es m = Inr (st, m') \<longrightarrow> shape m')"
proof (induction es arbitrary: m)
  case (Cons s es)
  show ?case
  proof (cases s)
    case None
    with Cons show ?thesis by simp
  next
    case (Some e)
    note put = put_forgetsD [OF assms Cons.prems]
    show ?thesis
    proof (cases "put m (ekey e) (edata e)")
      case (Inl f)
      with put(1) [of "ekey e" "edata e"] show ?thesis by (simp add: Some)
    next
      case (Inr r)
      obtain st m1 where r: "r = (st, m1)" by (cases r)
      with Inr put(1) [of "ekey e" "edata e"] put(2) [of "ekey e" "edata e" st m1] Cons.IH [of m1] show ?thesis
        by (simp add: Some)
    qed
  qed
qed simp

lemma forget_put_fuel: "put_forgets (put_fuel cal f) (put_fuel cal f :: 'a put_fn)"
proof (induction f)
  case 0
  show ?case by (simp add: put_forgets_def)
next
  case (Suc f)
  have loop: "rehash_with cal (put_fuel cal f) (forget m) = forget_result (rehash_with cal (put_fuel cal f) m) \<and>
      (\<forall>st m'. rehash_with cal (put_fuel cal f) m = Inr (st, m') \<longrightarrow> shape m')"
    if "shape m" for m :: "'a owned_table"
  proof -
    let ?n = "2 * table_size m"
    let ?e = "\<lparr>table_size = ?n, msize = 0, mdata = replicate ?n None\<rparr> :: 'a owned_table"
    have e: "shape ?e" "forget ?e = \<lparr>table_size = ?n, msize = 0, mdata = replicate ?n None\<rparr>"
      using that by (simp_all add: shape_def forget_def)
    from forget_rehash_loop [OF Suc.IH e(1), of "mdata m"] that show ?thesis
      by (auto simp: rehash_with_def e(2))
  qed
  show ?case
    unfolding put_forgets_def
  proof (intro allI impI conjI)
    fix m :: "'a owned_table" and k v
    assume sh: "shape m"
    note step = forget_hash [OF sh] loop [OF sh]
    show "put_fuel cal (Suc f) (forget m) k (content v) = forget_result (put_fuel cal (Suc f) m k v)"
    proof (cases "hashmap_hash m k")
      case None
      with step put_forgetsD(1) [OF Suc.IH] show ?thesis
        by (cases "rehash_with cal (put_fuel cal f) m") (auto simp: split_beta)
    next
      case (Some i)
      with step(1) forget_store [OF shape_hash [OF sh Some]] show ?thesis by simp
    qed
    show "shape m'" if "put_fuel cal (Suc f) m k v = Inr (st, m')" for st m'
      using that step(2) put_forgetsD(2) [OF Suc.IH] shape_store [OF sh]
      by (fastforce simp: rbind_eq_Inr_iff split: option.splits if_splits prod.splits)
  qed
qed

lemma forget_put:
  "shape m \<Longrightarrow> hashmap_put cal (forget m) k (content v) = forget_result (hashmap_put cal m k v)"
  using put_forgetsD(1) [OF forget_put_fuel] by (simp add: hashmap_put_def)

lemma forget_update:
  assumes "shape m"
  shows "forget (hashmap_update m k (\<lambda>v. v\<lparr>content := f (content v)\<rparr>)) = hashmap_update (forget m) k f"
proof -
  let ?c = "hashmap_hash_int (table_size m) k"
  have c: "length (mdata m) = table_size m" "?c < table_size m"
    using assms by (simp_all add: shape_def hashmap_hash_int_def)
  show ?thesis
  proof (cases "probe_key (mdata m) (table_size m) k ?c MAX_CHAIN_LENGTH")
    case None
    with probe_forget(2) [OF c] show ?thesis by (simp add: hashmap_update_def)
  next
    case (Some i)
    with probe_key_lt [OF c(2) Some] obtain e where "mdata m ! i = Some e" "i < length (mdata m)"
      using c(1) by (auto simp: slot_has_key_def split: option.splits)
    with Some probe_forget(2) [OF c] show ?thesis
      by (simp add: hashmap_update_def forget_def map_update)
  qed
qed

lemma shape_forget [simp]: "shape (forget m) = shape m"
  by (simp add: shape_def)

section \<open>The operations against those on values\<close>

text \<open>
  What the store actor does with its table, in terms of values: the pointer that \<open>owned_get\<close> returns points to the value that
  \<open>hashmap_get\<close> returns, and can be read as long as its block is allocated.
\<close>

lemma owned_get_ok:
  assumes "shape (table om)" and "holds h (map_blocks om @ rest)"
  shows "\<exists>p. owned_get h om k = Inr p \<and> map_option content p = hashmap_get (forget (table om)) k \<and>
    (\<forall>q. p = Some q \<longrightarrow> vblock q \<in> live h)"
proof -
  let ?m = "table om" and ?c = "hashmap_hash_int (table_size (table om)) k"
  have c: "length (mdata ?m) = table_size ?m" "?c < table_size ?m"
    using assms(1) by (simp_all add: shape_def hashmap_hash_int_def)
  note probe = probes_ok(2) [OF assms, of k]
  show ?thesis
  proof (cases "probe_key (mdata ?m) (table_size ?m) k ?c MAX_CHAIN_LENGTH")
    case None
    with probe probe_forget(2) [OF c] show ?thesis by (simp add: owned_get_def hashmap_get_def)
  next
    case (Some i)
    from found [OF assms(1) Some] obtain e where e: "mdata ?m ! i = Some e" and i: "i < length (mdata ?m)" by blast
    from slot_block_in [OF e i] have "vblock (edata e) \<in> live h" using assms(2) by (auto simp: holds_live)
    with probe probe_forget(2) [OF c] Some e i show ?thesis by (simp add: owned_get_def hashmap_get_def)
  qed
qed

definition owned_insert :: "(nat \<Rightarrow> bool) \<Rightarrow> heap \<Rightarrow> 'v owned_map \<Rightarrow> char list \<Rightarrow> 'v \<Rightarrow> (heap \<times> map_status \<times> 'v owned_map) res" where
  \<comment> \<open>the entry is allocated first, then the copy of the key\<close>
  "owned_insert cal h om k v =
     (let (entry, h) = malloc h; (stored_key, h) = malloc h
      in owned_put cal h om k \<lparr>kblock = stored_key, vblock = entry, content = v\<rparr>)"

definition owned_update :: "heap \<Rightarrow> 'v owned_map \<Rightarrow> char list \<Rightarrow> ('v \<Rightarrow> 'v) \<Rightarrow> 'v owned_map res" where
  \<comment> \<open>a write through the pointer that \<^verbatim>\<open>hashmap_get\<close> returned\<close>
  "owned_update h om k f =
     rbind (owned_get h om k) (\<lambda>r.
       case r of
         None \<Rightarrow> Inr om
       | Some p \<Rightarrow> rbind (deref p h) (\<lambda>_.
           Inr (om\<lparr>table := hashmap_update (table om) k (\<lambda>v. v\<lparr>content := f (content v)\<rparr>)\<rparr>)))"

lemma owned_insert_ok:
  assumes "shape (table om)" and "holds h (map_blocks om @ lost)"
  shows "case hashmap_put cal (forget (table om)) k v of
      Inl e \<Rightarrow> owned_insert cal h om k v = Inl e
    | Inr (st, m') \<Rightarrow> \<exists>h' om' lost'. owned_insert cal h om k v = Inr (h', st, om') \<and> forget (table om') = m' \<and>
        shape (table om') \<and> holds h' (map_blocks om' @ lost' @ lost) \<and> (lost' = [] \<longleftrightarrow> st = MAP_OK)"
proof -
  obtain a h1 where a: "malloc h = (a, h1)" by fastforce
  obtain b h2 where b: "malloc h1 = (b, h2)" by fastforce
  let ?v = "\<lparr>kblock = b, vblock = a, content = v\<rparr>"
  have ins: "owned_insert cal h om k v = owned_put cal h2 om k ?v" by (simp add: owned_insert_def a b)
  have "holds h2 (map_blocks om @ [kblock ?v, vblock ?v] @ lost)"
    using malloc_holds [OF malloc_holds [OF assms(2) a] b] by (rule holds_mset) simp
  from owned_put_ok [OF assms(1) this, of cal k] have t: "tracks [b, a] lost (hashmap_put cal (table om) k ?v) (owned_insert cal h om k v)"
    by (simp add: ins)
  have f: "hashmap_put cal (forget (table om)) k v = forget_result (hashmap_put cal (table om) k ?v)"
    using forget_put [OF assms(1), of cal k ?v] by simp
  show ?thesis
  proof (cases "hashmap_put cal (table om) k ?v")
    case (Inl e)
    with t f show ?thesis by simp
  next
    case (Inr r)
    obtain st m1 where r: "r = (st, m1)" by (cases r)
    from t obtain h' om' where h': "owned_insert cal h om k v = Inr (h', st, om')" "table om' = m1" "shape m1"
      and o: "if st = MAP_OK then holds h' (map_blocks om' @ lost)
        else \<exists>lost'. holds h' (map_blocks om' @ [b, a] @ lost' @ lost)"
      unfolding Inr r tracks_Inr by auto
    then obtain lost' where "holds h' (map_blocks om' @ lost' @ lost)" "lost' = [] \<longleftrightarrow> st = MAP_OK"
    proof (cases "st = MAP_OK")
      case False
      with o obtain l where "holds h' (map_blocks om' @ ([b, a] @ l) @ lost)" by auto
      with False that show ?thesis by blast
    qed (use that [of "[]"] in simp)
    with h' f show ?thesis by (auto simp: Inr r)
  qed
qed

lemma update_absent:
  assumes "hashmap_get m k = None"
  shows "hashmap_update m k f = m"
proof -
  have "m\<lparr>mdata := (mdata m)[i := None]\<rparr> = m" if "mdata m ! i = None" for i
    using list_update_id [of "mdata m" i] that by simp
  with assms show ?thesis
    by (auto simp: hashmap_get_def hashmap_update_def split: option.splits)
qed

lemma owned_update_ok:
  assumes "shape (table om)" and "holds h (map_blocks om @ lost)"
  shows "\<exists>om'. owned_update h om k f = Inr om' \<and> forget (table om') = hashmap_update (forget (table om)) k f \<and>
    shape (table om') \<and> map_blocks om' = map_blocks om"
proof -
  let ?m = "table om" and ?g = "\<lambda>v. v\<lparr>content := f (content v)\<rparr>"
  from owned_get_ok [OF assms, of k] obtain p where p: "owned_get h om k = Inr p"
    "map_option content p = hashmap_get (forget ?m) k" "\<forall>q. p = Some q \<longrightarrow> vblock q \<in> live h" by blast
  have blocks: "slots_blocks (mdata (hashmap_update ?m k ?g)) = slots_blocks (mdata ?m)"
    "shape (hashmap_update ?m k ?g)"
  proof -
    consider "hashmap_update ?m k ?g = ?m" | i e where "mdata ?m ! i = Some e" "i < length (mdata ?m)"
        "hashmap_update ?m k ?g = ?m\<lparr>mdata := (mdata ?m)[i := Some (e\<lparr>edata := ?g (edata e)\<rparr>)]\<rparr>"
      using found [OF assms(1), of k MAX_CHAIN_LENGTH]
      by (cases "probe_key (mdata ?m) (table_size ?m) k (hashmap_hash_int (table_size ?m) k) MAX_CHAIN_LENGTH")
        (auto simp: hashmap_update_def)
    then show "slots_blocks (mdata (hashmap_update ?m k ?g)) = slots_blocks (mdata ?m)"
    proof cases
      case 2
      have "slots_blocks ((mdata ?m)[i := Some (e\<lparr>edata := ?g (edata e)\<rparr>)]) = slots_blocks (mdata ?m)"
        using 2(2) by (subst (2) id_take_nth_drop [of i "mdata ?m"]) (simp_all add: upd_conv_take_nth_drop 2(1))
      then show ?thesis by (simp add: 2(3))
    qed simp
    show "shape (hashmap_update ?m k ?g)"
      using assms(1) by (auto simp: shape_def hashmap_update_def split: option.split)
  qed
  show ?thesis
  proof (cases p)
    case None
    then have "hashmap_get (forget ?m) k = None" using p(2) by simp
    with None p(1) assms(1) show ?thesis by (simp add: owned_update_def update_absent)
  next
    case (Some q)
    with p blocks forget_update [OF assms(1), of k f] show ?thesis by (simp add: owned_update_def deref_def)
  qed
qed

end
