(* ===== verification/Tank_Memory.thy ===== *)
theory Tank_Memory
  imports Septic_Tank_Correct Hashmap_Memory
begin

text \<open>
  The memory of the store: the resolve and apply functions, a turn and a run of the store actor once more, on the map of
  \<open>Hashmap_Memory\<close>, up to \<^verbatim>\<open>septic_tank_destroy\<close>. Each read of the code through the pointer to an entry is a \<open>peek\<close>
  at its place, so that an entry that is read after its removal is a fault. What the functions of \<open>Septic_Tank\<close>
  compute is computed here in the same way.
\<close>

section \<open>Resolving on owned memory\<close>

type_synonym entry_ptr = "data_entry owned option"

type_synonym entries = "data_entry owned_map"

definition peek :: "heap \<Rightarrow> entry_ptr \<Rightarrow> data_entry option res" where
  \<comment> \<open>what a pointer points to, if it is not null\<close>
  "peek h p = (case p of None \<Rightarrow> Inr None | Some q \<Rightarrow> rbind (deref q h) (\<lambda>e. Inr (Some e)))"

definition owned_evict :: "heap \<Rightarrow> entries \<Rightarrow> char list \<Rightarrow> (heap \<times> entries) res" where
  "owned_evict h om key = rbind (owned_remove h om key) (\<lambda>(h, status, om). Inr (h, om))"

definition owned_expired :: "timespec \<Rightarrow> entry_ptr \<Rightarrow> heap \<Rightarrow> bool res" where
  \<comment> \<open>\<^verbatim>\<open>entry != NULL && data_is_expired(entry)\<close>\<close>
  "owned_expired ts p h = rbind (peek h p) (entry_is_expired ts)"

definition not_a_string :: "entry_ptr \<Rightarrow> heap \<Rightarrow> bool res" where
  \<comment> \<open>\<^verbatim>\<open>entry != NULL && entry->type != DATA_STRING\<close>\<close>
  "not_a_string p h = rbind (peek h p) (\<lambda>e. Inr (case e of None \<Rightarrow> False | Some e \<Rightarrow> dtype e \<noteq> DATA_STRING))"

definition owned_resolve_set ::
  "clock \<Rightarrow> heap \<Rightarrow> entries \<Rightarrow> set_operation \<Rightarrow> (heap \<times> entries \<times> septic_tank_result) res" where
  "owned_resolve_set clk h om op =
     (let key = so_key op; result = blank_result SEPTIC_TANK_SET (Set_result None) in
      rbind (owned_get h om key) (\<lambda>old_entry.
      rbind (owned_expired (clk 0) old_entry h) (\<lambda>old_entry_is_expired.
      rbind (if old_entry_is_expired then Inr False else not_a_string old_entry h) (\<lambda>wrong_type.
        if wrong_type then Inr (h, om, fail_with WRONGTYPE result)
        else if so_nx op \<and> old_entry \<noteq> None \<and> \<not> old_entry_is_expired
        then (if so_get op
              then rbind (peek h old_entry) (\<lambda>e. rbind (copy_old_value e) (\<lambda>v.
                Inr (h, om, result\<lparr>rvalue := Set_result v\<rparr>)))
              else Inr (h, om, result))
        else if so_xx op \<and> (old_entry = None \<or> old_entry_is_expired)
        then rbind (if old_entry_is_expired then owned_evict h om key else Inr (h, om)) (\<lambda>(h, om).
          Inr (h, om, result))
        else rbind (if old_entry \<noteq> None \<and> old_entry_is_expired then owned_evict h om key else Inr (h, om)) (\<lambda>(h, om).
          let entry = (if old_entry \<noteq> None \<and> old_entry_is_expired then None else old_entry) in
          rbind (if etype (so_expiration op) = ST_EXPIRATION_KEEP_OLD then peek h entry else Inr None) (\<lambda>e.
          let mutation = Set_mutation key (so_value op) (expiry_field (set_expires_at (so_expiration op) e)) in
          rbind (if so_get op then rbind (peek h entry) copy_old_value else Inr None) (\<lambda>v.
            Inr (h, om, result\<lparr>rvalue := Set_result v, resolved_mutation := Some mutation\<rparr>))))))))"

definition owned_tank_get ::
  "clock \<Rightarrow> heap \<Rightarrow> entries \<Rightarrow> char list \<Rightarrow> (heap \<times> entries \<times> septic_tank_result) res" where
  "owned_tank_get clk h om key =
     (let result = blank_result SEPTIC_TANK_GET Unset_result in
      rbind (owned_get h om key) (\<lambda>entry.
        if entry = None then Inr (h, om, result\<lparr>rvalue := Get_result None\<rparr>)
        else rbind (owned_expired (clk 0) entry h) (\<lambda>is_expired.
          if is_expired then rbind (owned_evict h om key) (\<lambda>(h, om). Inr (h, om, result\<lparr>rvalue := Get_result None\<rparr>))
          else rbind (not_a_string entry h) (\<lambda>wrong_type.
            if wrong_type then Inr (h, om, fail_with WRONGTYPE result)
            else rbind (peek h entry) (\<lambda>e. rbind (copy_old_value e) (\<lambda>v.
              Inr (h, om, result\<lparr>rvalue := Get_result v\<rparr>)))))))"

definition owned_resolve_del ::
  "clock \<Rightarrow> heap \<Rightarrow> entries \<Rightarrow> char list \<Rightarrow> (heap \<times> entries \<times> septic_tank_result) res" where
  "owned_resolve_del clk h om key =
     (let result = blank_result SEPTIC_TANK_DEL (Del_result 0) in
      rbind (owned_get h om key) (\<lambda>entry.
        if entry = None then Inr (h, om, result)
        else rbind (owned_expired (clk 0) entry h) (\<lambda>is_expired.
          if is_expired then rbind (owned_evict h om key) (\<lambda>(h, om). Inr (h, om, result))
          else Inr (h, om, result\<lparr>rvalue := Del_result 1, resolved_mutation := Some (Del_mutation key)\<rparr>))))"

definition owned_ttl ::
  "clock \<Rightarrow> heap \<Rightarrow> entries \<Rightarrow> char list \<Rightarrow> (heap \<times> entries \<times> septic_tank_result) res" where
  "owned_ttl clk h om key =
     (let result = blank_result SEPTIC_TANK_GET Unset_result in
      rbind (owned_get h om key) (\<lambda>entry.
      rbind (peek h entry) (\<lambda>e.
        case e of
          None \<Rightarrow> Inr (h, om, result\<lparr>rvalue := Ttl_result (- 2)\<rparr>)
        | Some e \<Rightarrow>
            (case expires_at e of
               None \<Rightarrow> Inr (h, om, result\<lparr>rvalue := Ttl_result (- 1)\<rparr>)
             | Some value \<Rightarrow> rbind (int64_of (c_div (sint value) 1000 - sint (tv_sec (clk 0)))) (\<lambda>ttl_s.
                 Inr (h, om, result\<lparr>rvalue := Ttl_result ttl_s\<rparr>))))))"

definition owned_exists ::
  "clock \<Rightarrow> heap \<Rightarrow> entries \<Rightarrow> char list \<Rightarrow> (heap \<times> entries \<times> septic_tank_result) res" where
  "owned_exists clk h om key =
     (let result = blank_result SEPTIC_TANK_EXISTS (Exists_result 0) in
      rbind (owned_get h om key) (\<lambda>entry.
        if entry = None then Inr (h, om, result)
        else rbind (owned_expired (clk 0) entry h) (\<lambda>is_expired.
          rbind (if is_expired then owned_evict h om key else Inr (h, om)) (\<lambda>(h, om).
            Inr (h, om, if \<not> is_expired then result\<lparr>rvalue := Exists_result 1\<rparr> else result)))))"

definition owned_resolve_expire ::
  "clock \<Rightarrow> heap \<Rightarrow> entries \<Rightarrow> expire_operation \<Rightarrow> (heap \<times> entries \<times> septic_tank_result) res" where
  "owned_resolve_expire clk h om op =
     (let key = eo_key op; result = blank_result SEPTIC_TANK_EXPIRE (Expire_result 0) in
      rbind (owned_get h om key) (\<lambda>entry.
        if entry = None then Inr (h, om, result)
        else rbind (owned_expired (clk 0) entry h) (\<lambda>is_expired.
          if is_expired then rbind (owned_evict h om key) (\<lambda>(h, om). Inr (h, om, result))
          else rbind (peek h entry) (\<lambda>e.
            if (case e of None \<Rightarrow> False
                | Some e \<Rightarrow> expire_is_noop (eo_condition op) (eo_expires_at op) (expires_at e))
            then Inr (h, om, result)
            else rbind (data_now_ms (clk 1)) (\<lambda>now.
              Inr (h, om, result\<lparr>rvalue := Expire_result 1,
                   resolved_mutation := Some
                     (if sint (eo_expires_at op) \<le> sint now then Del_mutation key
                      else Expire_mutation key (eo_expires_at op))\<rparr>))))))"

definition owned_resolve_incrby ::
  "clock \<Rightarrow> heap \<Rightarrow> entries \<Rightarrow> incrby_operation \<Rightarrow> (heap \<times> entries \<times> septic_tank_result) res" where
  "owned_resolve_incrby clk h om op =
     (let key = io_key op; result = blank_result SEPTIC_TANK_INCRBY (Incrby_result 0) in
      rbind (owned_get h om key) (\<lambda>found.
      rbind (owned_expired (clk 0) found h) (\<lambda>is_expired.
      let entry = (if found \<noteq> None \<and> is_expired then None else found) in
      rbind (not_a_string entry h) (\<lambda>wrong_type.
        if wrong_type then Inr (h, om, fail_with WRONGTYPE result)
        else rbind (peek h entry) (\<lambda>e.
          rbind (case e of None \<Rightarrow> Inr (Some 0)
                 | Some e \<Rightarrow> rbind (data_unwrap_string e) (\<lambda>s. Inr (parse_int64 s))) (\<lambda>parsed.
          case parsed of
            None \<Rightarrow> Inr (h, om, fail_with ''ERR value is not an integer or out of range'' result)
          | Some value \<Rightarrow>
              if incrby_overflows value (io_delta op)
              then Inr (h, om, fail_with ''Integer overflow'' result)
              else rbind (int64_of (sint value + sint (io_delta op))) (\<lambda>value'.
                rbind (peek h entry) (\<lambda>e.
                Inr (h, om, result\<lparr>rvalue := Incrby_result value',
                     resolved_mutation := Some (Set_mutation key (data_string_from_int64 value')
                       (expiry_field (case e of None \<Rightarrow> None | Some e \<Rightarrow> expires_at e)))\<rparr>)))))))))"

fun owned_resolve :: "clock \<Rightarrow> heap \<Rightarrow> entries \<Rightarrow> operation \<Rightarrow> (heap \<times> entries \<times> septic_tank_result) res" where
  "owned_resolve clk h om (Get_op key) = owned_tank_get clk h om key"
| "owned_resolve clk h om (Set_op op) = owned_resolve_set clk h om op"
| "owned_resolve clk h om (Del_op key) = owned_resolve_del clk h om key"
| "owned_resolve clk h om (Ttl_op key) = owned_ttl clk h om key"
| "owned_resolve clk h om (Exists_op key) = owned_exists clk h om key"
| "owned_resolve clk h om (Expire_op op) = owned_resolve_expire clk h om op"
| "owned_resolve clk h om (Incrby_op op) = owned_resolve_incrby clk h om op"

section \<open>Applying, turns and runs\<close>

fun owned_apply :: "(nat \<Rightarrow> bool) \<Rightarrow> heap \<Rightarrow> entries \<Rightarrow> mutation \<Rightarrow> (heap \<times> entries \<times> bool) res" where
  \<comment> \<open>the Boolean tells whether an insertion was made, which the code does not look at\<close>
  "owned_apply cal h om (Set_mutation key value at) =
     (let exp = (if at = ST_MUTATION_NO_EXPIRY then None else Some at)
      in rbind (owned_insert cal h om key (data_create_string_entry exp value)) (\<lambda>(h, status, om).
           Inr (h, om, status = MAP_OK)))"
| "owned_apply cal h om (Del_mutation key) = rbind (owned_evict h om key) (\<lambda>(h, om). Inr (h, om, True))"
| "owned_apply cal h om (Expire_mutation key at) =
     rbind (owned_update h om key (\<lambda>e. e\<lparr>expires_at := Some at\<rparr>)) (\<lambda>om. Inr (h, om, True))"
| "owned_apply cal h om (Other_mutation _) = Inl Unreachable"

record owned_tank =
  omap :: entries
  tstruct :: nat
  logging :: bool

definition owned_tank_create :: "heap \<Rightarrow> owned_tank \<times> heap" where
  "owned_tank_create h =
     (let (s, h) = malloc h; (om, h) = owned_new h in (\<lparr>omap = om, tstruct = s, logging = True\<rparr>, h))"

definition septic_tank_destroy :: "owned_tank \<Rightarrow> heap \<Rightarrow> heap res" where
  "septic_tank_destroy t h =
     (if tstruct t \<notin> live h then Inl UseAfterFree
      else rbind (hashmap_free (omap t) h) (release (tstruct t)))"

definition owned_digest ::
  "(nat \<Rightarrow> bool) \<Rightarrow> clock \<Rightarrow> heap \<Rightarrow> owned_tank \<Rightarrow> operation \<Rightarrow>
     (heap \<times> owned_tank \<times> septic_tank_result \<times> mutation option \<times> bool) res" where
  "owned_digest cal clk h t op =
     (if tstruct t \<notin> live h then Inl UseAfterFree
      else rbind (owned_resolve clk h (omap t) op) (\<lambda>(h, om, result).
        let succeeded = success result in
        rbind (case resolved_mutation result of
                 Some mutation \<Rightarrow> if succeeded then owned_apply cal h om mutation else Inr (h, om, True)
               | None \<Rightarrow> Inr (h, om, True)) (\<lambda>(h, om, ok).
          Inr (h, t\<lparr>omap := om\<rparr>, result, if logging t \<and> succeeded then resolved_mutation result else None, ok))))"

fun owned_pump ::
  "(nat \<Rightarrow> bool) \<Rightarrow> heap \<Rightarrow> owned_tank \<Rightarrow> (operation \<times> clock) list \<Rightarrow>
     (heap \<times> owned_tank \<times> mutation list \<times> bool) res" where
  "owned_pump cal h t [] = Inr (h, t, [], True)"
| "owned_pump cal h t ((op, clk) # msgs) =
     rbind (owned_digest cal clk h t op) (\<lambda>(h, t, result, fed, ok).
       rbind (owned_pump cal h t msgs) (\<lambda>(h, t, log, ok').
         Inr (h, t, (case fed of None \<Rightarrow> log | Some mu \<Rightarrow> mu # log), ok \<and> ok')))"

definition stored :: "owned_tank \<Rightarrow> septic_tank" where
  "stored t = \<lparr>tank_data = forget (table (omap t)), aof_enabled = logging t\<rparr>"

section \<open>Following the store of values\<close>

definition keeps :: "nat list \<Rightarrow> heap \<Rightarrow> entries \<Rightarrow> bool" where
  "keeps rest h om \<longleftrightarrow> shape (table om) \<and> holds h (map_blocks om @ rest)"

definition follows :: "nat list \<Rightarrow> (store \<times> 'r) res \<Rightarrow> (heap \<times> entries \<times> 'r) res \<Rightarrow> bool" where
  \<comment> \<open>the same outcome, and the map owns what it holds\<close>
  "follows rest v r \<longleftrightarrow>
     (case v of
        Inl e \<Rightarrow> r = Inl e
      | Inr (m, x) \<Rightarrow> \<exists>h' om'. r = Inr (h', om', x) \<and> forget (table om') = m \<and> keeps rest h' om')"

lemma follows_simps [simp]:
  "follows rest (Inl e) r \<longleftrightarrow> r = Inl e"
  "follows rest (Inr (m, x)) r \<longleftrightarrow> (\<exists>h' om'. r = Inr (h', om', x) \<and> forget (table om') = m \<and> keeps rest h' om')"
  by (simp_all add: follows_def)

lemma follows_bind:
  "(\<And>x. r = Inr x \<Longrightarrow> follows rest (f x) (g x)) \<Longrightarrow> follows rest (rbind r f) (rbind r g)"
  by (cases r) simp_all

definition points_to :: "heap \<Rightarrow> entry_ptr \<Rightarrow> data_entry option \<Rightarrow> bool" where
  "points_to h p e \<longleftrightarrow> map_option content p = e \<and> (\<forall>q. p = Some q \<longrightarrow> vblock q \<in> live h)"

lemma get_points:
  "keeps rest h om \<Longrightarrow> \<exists>p. owned_get h om k = Inr p \<and> points_to h p (hashmap_get (forget (table om)) k)"
  using owned_get_ok [of om h rest k] by (auto simp: keeps_def points_to_def)

lemma points_null: "points_to h p e \<Longrightarrow> p = None \<longleftrightarrow> e = None"
  by (auto simp: points_to_def)

lemma null_points [simp]: "points_to h None e \<longleftrightarrow> e = None"
  by (auto simp: points_to_def)

lemma read_points:
  assumes "points_to h p e"
  shows "peek h p = Inr e" "owned_expired ts p h = entry_is_expired ts e"
    "not_a_string p h = Inr (case e of None \<Rightarrow> False | Some e \<Rightarrow> dtype e \<noteq> DATA_STRING)"
proof -
  show "peek h p = Inr e" using assms by (cases p) (auto simp: points_to_def peek_def deref_def)
  then show "owned_expired ts p h = entry_is_expired ts e"
    "not_a_string p h = Inr (case e of None \<Rightarrow> False | Some e \<Rightarrow> dtype e \<noteq> DATA_STRING)"
    by (simp_all add: owned_expired_def not_a_string_def)
qed

lemma evict_keeps:
  assumes "keeps rest h om"
  shows "\<exists>h' om'. owned_evict h om k = Inr (h', om') \<and> forget (table om') = evict (forget (table om)) k \<and> keeps rest h' om'"
proof -
  from assms have sh: "shape (table om)" and own: "holds h (map_blocks om @ rest)" by (simp_all add: keeps_def)
  from owned_remove_ok [OF sh own, of k] forget_remove [OF sh, of k] show ?thesis
    by (auto simp: owned_evict_def evict_def keeps_def)
qed

lemma resolve_follows:
  assumes "keeps rest h om"
  shows "follows rest (septic_tank_resolve clk (forget (table om)) op) (owned_resolve clk h om op)"
proof -
  let ?m = "forget (table om)" and ?k = "op_key op"
  obtain p where p: "owned_get h om ?k = Inr p" "points_to h p (hashmap_get ?m ?k)"
    using get_points [OF assms] by blast
  note at = read_points [OF p(2)] points_null [OF p(2)]
  obtain h1 om1 where ev: "owned_evict h om ?k = Inr (h1, om1)" "forget (table om1) = evict ?m ?k" "keeps rest h1 om1"
    using evict_keeps [OF assms] by blast
  have peek_null: "peek h' None = Inr None" for h' by (simp add: peek_def)
  show ?thesis
  proof (cases op)
    case (Set_op sop)
    with p(1) at ev assms peek_null show ?thesis
      by (cases "hashmap_get ?m ?k"; cases "entry_is_expired (clk 0) (hashmap_get ?m ?k)")
        (auto simp: owned_resolve_set_def septic_tank_resolve_set_def Let_def set_expires_at_def entry_is_expired_def
          rbind_def copy_old_value_def split: sum.split expiration_type.split)
  next
    case (Get_op key)
    with p(1) at ev assms show ?thesis
      by (cases "hashmap_get ?m ?k")
        (auto simp: owned_tank_get_def septic_tank_get_def Let_def entry_is_expired_def copy_old_value_def intro!: follows_bind)
  next
    case (Del_op key)
    with p(1) at ev assms show ?thesis
      by (cases "hashmap_get ?m ?k")
        (auto simp: owned_resolve_del_def septic_tank_resolve_del_def Let_def entry_is_expired_def intro!: follows_bind)
  next
    case (Ttl_op key)
    with p(1) at assms show ?thesis
      by (cases "hashmap_get ?m ?k")
        (auto simp: owned_ttl_def septic_tank_ttl_def Let_def intro!: follows_bind split: option.split)
  next
    case (Exists_op key)
    with p(1) at ev assms show ?thesis
      by (cases "hashmap_get ?m ?k")
        (auto simp: owned_exists_def septic_tank_exists_def Let_def entry_is_expired_def intro!: follows_bind)
  next
    case (Expire_op eop)
    with p(1) at ev assms show ?thesis
      by (cases "hashmap_get ?m ?k")
        (auto simp: owned_resolve_expire_def septic_tank_resolve_expire_def Let_def entry_is_expired_def intro!: follows_bind)
  next
    case (Incrby_op iop)
    with p(1) at assms peek_null show ?thesis
      by (cases "hashmap_get ?m ?k")
        (auto simp: owned_resolve_incrby_def septic_tank_resolve_incrby_def Let_def entry_is_expired_def not_a_string_def
          intro!: follows_bind split: option.split)
  qed
qed

text \<open>Applying a mutation, a turn and a run may lose blocks, \<open>lost\<close>, when an insertion is not made.\<close>

definition absorbs :: "(nat \<Rightarrow> bool) \<Rightarrow> nat list \<Rightarrow> store \<Rightarrow> heap \<times> entries \<times> bool \<Rightarrow> bool" where
  "absorbs cal rest m r \<longleftrightarrow> (case r of (h, om, ok) \<Rightarrow>
     \<exists>lost. forget (table om) = m \<and> keeps (lost @ rest) h om \<and> (ok \<longleftrightarrow> lost = []) \<and> ((\<forall>n. cal n) \<longrightarrow> ok))"

lemma absorbsI:
  "forget (table om) = m \<Longrightarrow> keeps (lost @ rest) h om \<Longrightarrow> (ok \<longleftrightarrow> lost = []) \<Longrightarrow> ((\<forall>n. cal n) \<longrightarrow> ok) \<Longrightarrow>
    absorbs cal rest m (h, om, ok)"
  unfolding absorbs_def prod.case by blast

lemma absorbs_all: "forget (table om) = m \<Longrightarrow> keeps rest h om \<Longrightarrow> absorbs cal rest m (h, om, True)"
  by (simp add: absorbs_def)

lemma absorbs_trans:
  assumes "keeps (lost @ rest) h om \<and> (ok1 \<longleftrightarrow> lost = []) \<and> ((\<forall>n. cal n) \<longrightarrow> ok1)"
    and "absorbs cal (lost @ rest) m (h', om', ok2)"
  shows "absorbs cal rest m (h', om', ok1 \<and> ok2)"
proof -
  from assms(2) obtain l where "forget (table om') = m" "keeps ((l @ lost) @ rest) h' om'" "ok2 \<longleftrightarrow> l = []"
      "(\<forall>n. cal n) \<longrightarrow> ok2"
    by (auto simp: absorbs_def)
  moreover from this(3) assms(1) have "(ok1 \<and> ok2) \<longleftrightarrow> l @ lost = []" by auto
  ultimately show ?thesis
    using assms(1) unfolding absorbs_def prod.case by blast
qed

lemma omap_eq [simp]: "t\<lparr>omap := a\<rparr> = t\<lparr>omap := b\<rparr> \<longleftrightarrow> a = b"
  by (cases t) simp

lemma apply_follows:
  assumes "keeps rest h om"
  shows "case septic_tank_apply_mutation cal (forget (table om)) mu of
      Inl e \<Rightarrow> owned_apply cal h om mu = Inl e
    | Inr m \<Rightarrow> \<exists>r. owned_apply cal h om mu = Inr r \<and> absorbs cal rest m r"
proof (cases mu)
  case (Set_mutation key v at)
  let ?e = "data_create_string_entry (if at = ST_MUTATION_NO_EXPIRY then None else Some at) v"
  from assms have "shape (table om)" "holds h (map_blocks om @ rest)" by (simp_all add: keeps_def)
  note ins = owned_insert_ok [OF this, of cal key ?e]
  show ?thesis
  proof (cases "hashmap_put cal (forget (table om)) key ?e")
    case (Inl e)
    with ins have "owned_insert cal h om key ?e = Inl e" by simp
    with Inl show ?thesis by (simp add: Set_mutation septic_tank_apply_set_def)
  next
    case (Inr r)
    obtain st m' where r: "r = (st, m')" by (cases r)
    from ins obtain h' om' lost' where i: "owned_insert cal h om key ?e = Inr (h', st, om')" "forget (table om') = m'"
        "shape (table om')" "holds h' (map_blocks om' @ lost' @ rest)" "lost' = [] \<longleftrightarrow> st = MAP_OK"
      unfolding Inr r sum.case prod.case by blast
    have "(\<forall>n. cal n) \<longrightarrow> st = MAP_OK" by (intro impI hashmap_put_all_ok [OF _ Inr [unfolded r]])
    with i have "absorbs cal rest m' (h', om', st = MAP_OK)"
      by (intro absorbsI [where lost = lost']) (simp_all add: keeps_def)
    with Inr r i(1) show ?thesis by (simp add: Set_mutation septic_tank_apply_set_def)
  qed
next
  case (Del_mutation key)
  from evict_keeps [OF assms, of key] obtain h' om' where ev: "owned_evict h om key = Inr (h', om')"
    "forget (table om') = evict (forget (table om)) key" "keeps rest h' om'" by blast
  from absorbs_all [OF ev(2,3)] ev(1) show ?thesis
    by (simp add: Del_mutation septic_tank_apply_del_def evict_def)
next
  case (Expire_mutation key at)
  let ?f = "\<lambda>e. e\<lparr>expires_at := Some at\<rparr>"
  from assms owned_update_ok [of om h rest key ?f] obtain om' where up: "owned_update h om key ?f = Inr om'"
      "keeps rest h om'" "forget (table om') = hashmap_update (forget (table om)) key ?f"
    by (auto simp: keeps_def)
  have "septic_tank_apply_mutation cal (forget (table om)) mu = Inr (hashmap_update (forget (table om)) key ?f)"
    by (auto simp: Expire_mutation septic_tank_apply_expire_def update_absent split: option.split)
  with absorbs_all [OF up(3,2)] up(1) show ?thesis by (simp add: Expire_mutation)
qed simp

lemma digest_follows:
  assumes "keeps rest h (omap t)" and "tstruct t \<in> set rest"
  shows "case septic_tank_digest cal clk (stored t) op True of
      Inl e \<Rightarrow> owned_digest cal clk h t op = Inl e
    | Inr (tank, reply, fed) \<Rightarrow> \<exists>h' om' r ok. owned_digest cal clk h t op = Inr (h', t\<lparr>omap := om'\<rparr>, r, fed, ok) \<and>
        stored (t\<lparr>omap := om'\<rparr>) = tank \<and> reply = Some r \<and> absorbs cal rest (tank_data tank) (h', om', ok)"
proof -
  have live: "tstruct t \<in> live h" using assms by (auto simp: keeps_def holds_live)
  note res = resolve_follows [OF assms(1), of clk op]
  note defs = septic_tank_digest_def owned_digest_def stored_def live
  show ?thesis
  proof (cases "septic_tank_resolve clk (forget (table (omap t))) op")
    case (Inl e)
    with res show ?thesis by (simp add: defs)
  next
    case resolved: (Inr x)
    obtain m r where x: "x = (m, r)" by (cases x)
    from res obtain h1 om1 where 1: "owned_resolve clk h (omap t) op = Inr (h1, om1, r)" "forget (table om1) = m"
      "keeps rest h1 om1" unfolding resolved x by auto
    note none = absorbs_all [OF 1(2,3)]
    show ?thesis
    proof (cases "resolved_mutation r")
      case None
      with none [of cal] 1(1,2) resolved x show ?thesis by (simp add: defs ex_bool_eq)
    next
      case (Some mu)
      show ?thesis
      proof (cases "success r")
        case False
        with Some none [of cal] 1(1,2) resolved x show ?thesis by (simp add: defs ex_bool_eq)
      next
        case True
        note app = apply_follows [OF 1(3), of cal mu, unfolded 1(2)]
        show ?thesis
        proof (cases "septic_tank_apply_mutation cal m mu")
          case (Inl e)
          with app have "owned_apply cal h1 om1 mu = Inl e" by simp
          with Inl 1(1) resolved x Some True show ?thesis by (simp add: defs)
        next
          case applied: (Inr m2)
          with app obtain h2 om2 ok where 2: "owned_apply cal h1 om1 mu = Inr (h2, om2, ok)" "absorbs cal rest m2 (h2, om2, ok)"
            by auto
          then have "forget (table om2) = m2" by (auto simp: absorbs_def)
          with 2 applied 1(1) resolved x Some True show ?thesis by (simp add: defs)
        qed
      qed
    qed
  qed
qed

lemma pump_follows:
  assumes "keeps rest h (omap t)" and "tstruct t \<in> set rest"
  shows "case septic_tank_pump cal (stored t) msgs of
      Inl e \<Rightarrow> owned_pump cal h t msgs = Inl e
    | Inr (tank, log) \<Rightarrow> \<exists>h' om' ok. owned_pump cal h t msgs = Inr (h', t\<lparr>omap := om'\<rparr>, log, ok) \<and>
        stored (t\<lparr>omap := om'\<rparr>) = tank \<and> absorbs cal rest (tank_data tank) (h', om', ok)"
  using assms
proof (induction msgs arbitrary: rest t h)
  case Nil
  then show ?case using absorbs_all [of "omap t" _ rest h cal] by (auto simp: stored_def intro!: exI [of _ "omap t"])
next
  case (Cons msg msgs)
  obtain op clk where msg: "msg = (op, clk)" by (cases msg)
  note d = digest_follows [OF Cons.prems, of cal clk op]
  show ?case
  proof (cases "septic_tank_digest cal clk (stored t) op True")
    case (Inl e)
    with d show ?thesis by (simp add: msg)
  next
    case turn: (Inr x)
    obtain tank1 reply fed where x: "x = (tank1, reply, fed)" by (cases x)
    from d obtain h1 om1 r ok1 where 1: "owned_digest cal clk h t op = Inr (h1, t\<lparr>omap := om1\<rparr>, r, fed, ok1)"
        "stored (t\<lparr>omap := om1\<rparr>) = tank1" "absorbs cal rest (tank_data tank1) (h1, om1, ok1)"
      unfolding turn x by auto
    then obtain lost where lost: "keeps (lost @ rest) h1 om1 \<and> (ok1 \<longleftrightarrow> lost = []) \<and> ((\<forall>n. cal n) \<longrightarrow> ok1)"
      by (auto simp: absorbs_def)
    have "case septic_tank_pump cal (stored (t\<lparr>omap := om1\<rparr>)) msgs of
        Inl e \<Rightarrow> owned_pump cal h1 (t\<lparr>omap := om1\<rparr>) msgs = Inl e
      | Inr (tank, log) \<Rightarrow> \<exists>h' om' ok. owned_pump cal h1 (t\<lparr>omap := om1\<rparr>) msgs = Inr (h', t\<lparr>omap := om1, omap := om'\<rparr>, log, ok) \<and>
          stored (t\<lparr>omap := om1, omap := om'\<rparr>) = tank \<and> absorbs cal (lost @ rest) (tank_data tank) (h', om', ok)"
      using lost Cons.prems(2) by (intro Cons.IH) simp_all
    note rest = this [unfolded 1(2)]
    show ?thesis
    proof (cases "septic_tank_pump cal tank1 msgs")
      case (Inl e)
      with rest 1(1) turn x show ?thesis by (simp add: msg)
    next
      case run: (Inr y)
      obtain tank log where y: "y = (tank, log)" by (cases y)
      from rest obtain h2 om2 ok2 where 2: "owned_pump cal h1 (t\<lparr>omap := om1\<rparr>) msgs = Inr (h2, t\<lparr>omap := om2\<rparr>, log, ok2)"
        "stored (t\<lparr>omap := om2\<rparr>) = tank" "absorbs cal (lost @ rest) (tank_data tank) (h2, om2, ok2)"
        unfolding run y by auto
      from absorbs_trans [OF lost 2(3)] 1(1) 2(1,2) run turn x y show ?thesis by (simp add: msg)
    qed
  qed
qed

lemma destroy_ok:
  assumes "keeps (lost @ [tstruct t]) h (omap t)"
  shows "\<exists>h'. septic_tank_destroy t h = Inr h' \<and> live h' = set lost"
proof -
  have "holds h (map_blocks (omap t) @ tstruct t # lost)"
    using assms by (auto simp: keeps_def intro: holds_mset)
  moreover from this have "tstruct t \<in> live h" by (simp add: holds_live)
  moreover obtain h1 where "hashmap_free (omap t) h = Inr h1" "holds h1 (tstruct t # lost)"
    using hashmap_free_ok [OF calculation(1)] by blast
  ultimately show ?thesis
    using release_holds [of h1 "tstruct t" lost] by (auto simp: septic_tank_destroy_def dest: holds_live)
qed

lemma create_ok:
  assumes "owned_tank_create heap_empty = (t, h)"
  shows "keeps [tstruct t] h (omap t) \<and> stored t = septic_tank_create"
proof -
  obtain s h1 where s: "malloc heap_empty = (s, h1)" by fastforce
  obtain om :: entries and h2 where om: "owned_new h1 = (om, h2)" by fastforce
  from owned_new_ok [OF malloc_holds [OF holds_empty s] om] assms s om show ?thesis
    by (auto simp: owned_tank_create_def keeps_def stored_def septic_tank_create_def forget_def shape_def hashmap_new_def)
qed

lemma pump_no_misuse: "septic_tank_pump cal tank msgs \<noteq> Inl UseAfterFree"
proof (induction msgs arbitrary: tank)
  case (Cons msg msgs)
  obtain op clk where msg: "msg = (op, clk)" by (cases msg)
  have "septic_tank_resolve clk m op \<noteq> Inl UseAfterFree" for m
    by (cases op)
      (auto simp: septic_tank_get_def septic_tank_resolve_set_def septic_tank_resolve_del_def septic_tank_ttl_def
        septic_tank_exists_def septic_tank_resolve_expire_def septic_tank_resolve_incrby_def Let_def rbind_eq_Inl_iff
        entry_is_expired_def data_is_expired_def data_now_ms_def int64_of_def copy_old_value_def data_unwrap_string_def
        split: option.splits if_splits)
  moreover have "septic_tank_apply_mutation cal m mu \<noteq> Inl UseAfterFree" for m mu
    using only_faultsD [OF put_fuel_faults, of cal 31 m]
    by (cases mu) (auto simp: septic_tank_apply_set_def rbind_eq_Inl_iff hashmap_put_def)
  ultimately have "septic_tank_digest cal clk tank op True \<noteq> Inl UseAfterFree"
    by (auto simp: septic_tank_digest_def Let_def rbind_eq_Inl_iff split: option.splits if_splits)
  with Cons show ?case by (auto simp: msg rbind_eq_Inl_iff)
qed simp

section \<open>Properties\<close>

text \<open>
  C23: the store neither leaks nor misuses memory. Whatever operations the store actor serves, its run on owned memory answers and logs
  what the run on values does and no struct, array, key or entry of the tank is read, written or released
  after its release: not by the probing of the table, not by a rehash, and not by a read through the pointer
  to an entry. Destroying the tank afterwards releases every block that was allocated for it exactly when all insertions were made
  (\<open>ok\<close>), which is so when \<^verbatim>\<open>calloc\<close> never failed.
\<close>

theorem tank_memory_balanced:
  "let (t, h) = owned_tank_create heap_empty in
   case septic_tank_pump cal septic_tank_create msgs of
     Inl e \<Rightarrow> owned_pump cal h t msgs = Inl e \<and> e \<noteq> UseAfterFree
   | Inr (tank, log) \<Rightarrow> \<exists>h1 t1 ok h2. owned_pump cal h t msgs = Inr (h1, t1, log, ok) \<and> stored t1 = tank \<and>
       septic_tank_destroy t1 h1 = Inr h2 \<and> (live h2 = {} \<longleftrightarrow> ok) \<and> ((\<forall>n. cal n) \<longrightarrow> ok)"
proof -
  obtain t h where t: "owned_tank_create heap_empty = (t, h)" by fastforce
  note new = create_ok [OF t]
  have run: "case septic_tank_pump cal septic_tank_create msgs of
      Inl e \<Rightarrow> owned_pump cal h t msgs = Inl e
    | Inr (tank, log) \<Rightarrow> \<exists>h' om' ok. owned_pump cal h t msgs = Inr (h', t\<lparr>omap := om'\<rparr>, log, ok) \<and>
        stored (t\<lparr>omap := om'\<rparr>) = tank \<and> absorbs cal [tstruct t] (tank_data tank) (h', om', ok)"
    using pump_follows [of "[tstruct t]" h t cal msgs] new by simp
  show ?thesis
  proof (cases "septic_tank_pump cal septic_tank_create msgs")
    case (Inl e)
    with run pump_no_misuse [of cal septic_tank_create msgs] show ?thesis by (simp add: t)
  next
    case (Inr x)
    obtain tank log where x: "x = (tank, log)" by (cases x)
    from run obtain h1 om1 ok where 1: "owned_pump cal h t msgs = Inr (h1, t\<lparr>omap := om1\<rparr>, log, ok)"
        "stored (t\<lparr>omap := om1\<rparr>) = tank" "absorbs cal [tstruct t] (tank_data tank) (h1, om1, ok)"
      unfolding Inr x by auto
    then obtain lost where lost: "keeps (lost @ [tstruct t]) h1 om1" "ok \<longleftrightarrow> lost = []" "(\<forall>n. cal n) \<longrightarrow> ok"
      by (auto simp: absorbs_def)
    with destroy_ok [of lost "t\<lparr>omap := om1\<rparr>" h1] obtain h2 where
      "septic_tank_destroy (t\<lparr>omap := om1\<rparr>) h1 = Inr h2" "live h2 = set lost" by auto
    with 1 lost(2,3) Inr x show ?thesis by (simp add: t)
  qed
qed

theorem tank_memory_balanced_witness:
  "\<exists>tank log t1 h1 h2. (let (t, h) = owned_tank_create heap_empty in owned_pump (\<lambda>_. True) h t
       [(Set_op \<lparr>so_key = ''c'', so_value = ''v'', so_nx = False, so_xx = False, so_get = False,
          so_expiration = \<lparr>etype = ST_EXPIRATION_NO_EXPIRE, ets = 0\<rparr>\<rparr>, \<lambda>_. \<lparr>tv_sec = 5, tv_nsec = 0\<rparr>)] =
       Inr (h1, t1, log, True)) \<and>
     stored t1 = tank \<and> hashmap_get (tank_data tank) ''c'' = Some (string_entry (- 1) ''v'') \<and>
     septic_tank_destroy t1 h1 = Inr h2 \<and> live h2 = {}"
proof -
  let ?op = "Set_op \<lparr>so_key = ''c'', so_value = ''v'', so_nx = False, so_xx = False, so_get = False,
      so_expiration = \<lparr>etype = ST_EXPIRATION_NO_EXPIRE, ets = 0\<rparr>\<rparr>"
  let ?clk = "\<lambda>_ :: nat. \<lparr>tv_sec = 5, tv_nsec = 0\<rparr>"
  have clk: "clock_ok (?clk 0)" by (simp add: clock_ok_def)
  have tk: "hashmap_get (tank_data septic_tank_create) ''c'' = None"
      "hashmap_hash (tank_data septic_tank_create) ''c'' = Some 64"
    using get_new hash_new_c by (simp_all add: septic_tank_create_def)
  have g: "hashmap_get (hashmap_store (tank_data septic_tank_create) 64 ''c'' x) ''c'' = Some x" for x
    by (simp add: septic_tank_create_def probe_eval)
  obtain tank log where run: "septic_tank_pump (\<lambda>_. True) septic_tank_create [(?op, ?clk)] = Inr (tank, log)"
    and v: "hashmap_get (tank_data tank) ''c'' = Some (string_entry (- 1) ''v'')"
    using set_absent(2) [OF clk tk, where ex = "\<lparr>etype = ST_EXPIRATION_NO_EXPIRE, ets = 0\<rparr>" and v = "''v''"
        and b = True and cal = "\<lambda>_. True"] g by (auto simp: expiry_field_def set_expires_at_def)
  obtain t h where t: "owned_tank_create heap_empty = (t, h)" by fastforce
  from tank_memory_balanced [of "\<lambda>_. True" "[(?op, ?clk)]"] v show ?thesis unfolding t run by auto
qed

end
