(* ===== verification/Liveness.thy ===== *)
theory Liveness
  imports Actors
begin

text \<open>
  Every client is answered. What each step of \<open>Actors\<close> does to the channels is collected first. The number of steps that a
  waiting client is away from its response, \<open>distance\<close>, counts the turns before its own, with a hand-over to the log for
  each, and the wait of the store actor for room in the log channel. No action of any thread makes it larger, and one of the
  store actor, the collecting thread or the client itself is always enabled that makes it smaller; so the response comes,
  whatever the other clients do.
\<close>

abbreviation potty_of :: "actors \<Rightarrow> potty" where
  "potty_of s \<equiv> pt (psys s)"

section \<open>What the steps do to the channels\<close>

lemma send_facts:
  assumes "client_send i op s = Inr (Some s')" and "ring_wf (tsewer s)"
  shows "ring_content (tsewer s') = ring_content (tsewer s) @ [(i, op)]" "psys s' = psys s" "turn s' = turn s"
    "responses s i = None" "responses s' j \<noteq> None \<longleftrightarrow> j = i \<or> responses s j \<noteq> None"
proof -
  from assms(1) show free: "responses s i = None" by (auto simp: client_send_def split: if_splits)
  with assms(1) obtain q where q: "sewer_send (tsewer s) (i, op) = Inr (Some q)"
    and s': "s' = s\<lparr>tsewer := q, responses := (responses s)(i := Some (sewer_create 1)), sent := sent s @ [(i, op)]\<rparr>"
    by (auto simp: client_send_def rbind_eq_Inr_iff)
  from sw.sendD [OF assms(2) q] s' show "ring_content (tsewer s') = ring_content (tsewer s) @ [(i, op)]"
    "psys s' = psys s" "turn s' = turn s" "responses s' j \<noteq> None \<longleftrightarrow> j = i \<or> responses s j \<noteq> None"
    by auto
qed

lemma receive_facts:
  assumes "client_receive i s = Inr (Some s')"
  shows "tsewer s' = tsewer s" "psys s' = psys s" "turn s' = turn s"
    "responses s i \<noteq> None" "responses s' j \<noteq> None \<longleftrightarrow> j \<noteq> i \<and> responses s j \<noteq> None" "delivered s i \<noteq> [] \<or> \<not> ring_wf (the (responses s i))"
  using assms sw.receiveD [of "the (responses s i)"]
  by (auto simp: client_receive_def rbind_eq_Inr_iff delivered_def split: option.splits if_splits)

lemma tank_turn_facts:
  assumes "tank_turn cal clk s = Inr (Some s')" and "ring_wf (tsewer s)"
  shows "\<exists>i op r logged. ring_content (tsewer s) = (i, op) # ring_content (tsewer s') \<and> turn s' = Answering i r logged"
    and "turn s = Receiving" "psys s' = psys s" "responses s' = responses s"
proof -
  from assms(1) obtain i op q t r logged where q: "sewer_consume (tsewer s) = Inr (Some ((i, op), q))"
    and s': "s' = s\<lparr>tsewer := q, tank := t, turn := Answering i r logged, served := served s @ [(i, op, clk)]\<rparr>"
    and "turn s = Receiving"
    by (auto simp: tank_turn_def rbind_eq_Inr_iff split: option.splits if_splits)
  with sw.receiveD [OF assms(2) q] show "turn s = Receiving" "psys s' = psys s" "responses s' = responses s"
    "\<exists>i op r logged. ring_content (tsewer s) = (i, op) # ring_content (tsewer s') \<and> turn s' = Answering i r logged"
    by auto
qed

lemma tank_answer_facts:
  assumes "tank_answer s = Inr (Some s')"
  shows "\<exists>i r logged. turn s = Answering i r logged \<and> turn s' \<noteq> Answering i' r' logged'"
    and "tsewer s' = tsewer s" "psys s' = psys s" "responses s' j = None \<longleftrightarrow> responses s j = None"
  using assms by (auto simp: tank_answer_def rbind_eq_Inr_iff split: tank_thread.splits option.splits if_splits)

lemma tank_feed_facts:
  assumes "tank_feed s = Inr (Some s')" and "ring_wf (psewer (pt (psys s)))"
  shows "turn s' = Receiving" "tsewer s' = tsewer s" "responses s' = responses s"
    "length (ring_content (psewer (pt (psys s')))) = Suc (length (ring_content (psewer (pt (psys s)))))"
    "flush_jobs (pt (psys s')) = flush_jobs (pt (psys s))" "flushers (psys s') = flushers (psys s)"
  using assms sw.sendD [OF assms(2)]
  by (auto simp: tank_feed_def potty_feed_def rbind_eq_Inr_iff simp del: length_ring_content split: tank_thread.splits)

lemma potty_moves_facts:
  assumes "potty_moves act s = Inr (Some s')"
  shows "potty_step act (psys s) = Inr (Some (psys s'))" "tsewer s' = tsewer s" "turn s' = turn s" "responses s' = responses s"
  using assms by (auto simp: potty_moves_def rbind_eq_Inr_iff simp del: potty_step.simps split: action.splits)

lemma consume_facts:
  assumes "potty_step (Pump_consume b) s = Inr (Some s')" and "ring_wf (psewer (pt s))"
  shows "flush_jobs (pt s') = flush_jobs (pt s)" "flushers s' = flushers s"
    "ringbuf_is_empty (psewer (pt s)) \<Longrightarrow> psewer (pt s') = psewer (pt s)"
    "\<not> ringbuf_is_empty (psewer (pt s)) \<Longrightarrow>
       length (ring_content (psewer (pt s))) = Suc (length (ring_content (psewer (pt s'))))"
proof -
  from assms(1) obtain p where p: "pump_consume (pt s) b = Inr (Some p)" and s': "s' = s\<lparr>pt := p, pump := Checking\<rparr>"
    by (auto simp: rbind_eq_Inr_iff split: if_splits)
  from consume_cases [OF p] obtain m q where r: "sewer_timed_consume (psewer (pt s)) b = Inr (Some (m, q))"
    and "flush_jobs p = flush_jobs (pt s)" "psewer p = q"
    by (auto simp: potty_poop_def rbind_eq_Inr_iff split: option.splits)
  then show "flush_jobs (pt s') = flush_jobs (pt s)" "flushers s' = flushers s"
    "ringbuf_is_empty (psewer (pt s)) \<Longrightarrow> psewer (pt s') = psewer (pt s)"
    "\<not> ringbuf_is_empty (psewer (pt s)) \<Longrightarrow>
       length (ring_content (psewer (pt s))) = Suc (length (ring_content (psewer (pt s'))))"
    using sw.receiveD [OF assms(2)]
    by (auto simp: s' timed_consume_eq sewer_consume_def rbind_eq_Inr_iff simp del: length_ring_content split: option.splits if_splits)
qed

lemma check_facts:
  assumes "potty_step (Pump_check now now') s = Inr (Some s')" and "potty_inv s"
  shows "psewer (pt s') = psewer (pt s)"
    and "should_flush (pt s) now \<and> hector_size (waste (pt s)) \<noteq> 0 \<Longrightarrow>
      length (elems (flush_jobs (pt s'))) = Suc (length (elems (flush_jobs (pt s)))) \<and>
      flushers s' = flushers s @ (if flusher_running (pt s) then [] else [Looking])"
    and "\<not> (should_flush (pt s) now \<and> hector_size (waste (pt s)) \<noteq> 0) \<Longrightarrow>
      flush_jobs (pt s') = flush_jobs (pt s) \<and> flushers s' = flushers s"
proof -
  have wf: "hector_wf (flush_jobs (pt s))" "0 < capacity (flush_jobs (pt s))"
    using assms(2) by (simp_all add: potty_inv_def)
  show "psewer (pt s') = psewer (pt s)"
    using assms(1) by (auto simp: potty_flush_def rbind_eq_Inr_iff Let_def split: if_splits)
  show "length (elems (flush_jobs (pt s'))) = Suc (length (elems (flush_jobs (pt s)))) \<and>
      flushers s' = flushers s @ (if flusher_running (pt s) then [] else [Looking])"
    if "should_flush (pt s) now \<and> hector_size (waste (pt s)) \<noteq> 0"
  proof -
    let ?job = "\<lparr>jwaste = waste (pt s), jts = now'\<rparr>"
    from check_cases [OF assms(1) that] obtain jobs where "hector_push (flush_jobs (pt s)) ?job = Inr jobs"
      and "flush_jobs (pt s') = jobs" "flushers s' = flushers s @ (if flusher_running (pt s) then [] else [Looking])"
      by auto
    with hector_push_ok [OF wf(1), of ?job] wf(2) show ?thesis by auto
  qed
  show "flush_jobs (pt s') = flush_jobs (pt s) \<and> flushers s' = flushers s"
    if "\<not> (should_flush (pt s) now \<and> hector_size (waste (pt s)) \<noteq> 0)"
    using assms(1) that by (auto simp: potty_flush_def split: if_splits)
qed

lemma take_facts:
  assumes "potty_step (Flusher_take i opened) s = Inr (Some s')" and "potty_inv s"
  shows "psewer (pt s') = psewer (pt s)" "i < length (flushers s)" "flushers s ! i = Looking"
    and "hector_size (flush_jobs (pt s)) = 0 \<Longrightarrow>
      flush_jobs (pt s') = flush_jobs (pt s) \<and> flushers s' = take i (flushers s) @ drop (Suc i) (flushers s)"
    and "hector_size (flush_jobs (pt s)) \<noteq> 0 \<Longrightarrow>
      length (elems (flush_jobs (pt s))) = Suc (length (elems (flush_jobs (pt s')))) \<and>
      (\<exists>j. flushers s' = (flushers s)[i := Flushing j 0])"
proof -
  from assms(1) show i: "i < length (flushers s)" "flushers s ! i = Looking" by (auto split: if_splits)
  have wf: "hector_wf (flush_jobs (pt s))" using assms(2) by (simp add: potty_inv_def)
  from assms(1) i obtain p job where d: "drain_take (pt s) = Inr (p, job)"
    and s': "case job of
        None \<Rightarrow> s' = s\<lparr>pt := p, flushers := take i (flushers s) @ drop (Suc i) (flushers s)\<rparr>
      | Some j \<Rightarrow> s' = s\<lparr>pt := p, flushers := (flushers s)[i := Flushing j 0]\<rparr>"
    by (cases "drain_take (pt s)") (auto split: option.splits if_splits)
  show "psewer (pt s') = psewer (pt s)" using take_keeps_sewer [OF d] s' by (cases job) auto
  show "flush_jobs (pt s') = flush_jobs (pt s) \<and> flushers s' = take i (flushers s) @ drop (Suc i) (flushers s)"
    if "hector_size (flush_jobs (pt s)) = 0"
    using d s' that by (auto simp: drain_take_def)
  show "length (elems (flush_jobs (pt s))) = Suc (length (elems (flush_jobs (pt s')))) \<and>
      (\<exists>j. flushers s' = (flushers s)[i := Flushing j 0])"
    if jobs: "hector_size (flush_jobs (pt s)) \<noteq> 0"
  proof -
    obtain j where j: "job = Some j"
      using d jobs by (auto simp: drain_take_def rbind_eq_Inr_iff split: option.splits if_splits)
    from drain_take_front [OF wf d [unfolded j]] s' show ?thesis by (auto simp: j)
  qed
qed

lemma write_facts:
  assumes "potty_step (Flusher_write i) s = Inr (Some s')"
  shows "pt s' = pt s" "i < length (flushers s)" "flushers s ! i \<noteq> Looking" "flushers s' = (flushers s)[i := flushers s' ! i]"
  using assms by (auto simp: rbind_eq_Inr_iff split: if_splits flusher.splits option.splits)

definition base_ok :: "actors \<Rightarrow> bool" where
  "base_ok s \<longleftrightarrow> channels_ok s \<and> potty_inv (psys s)"

lemma base_wf: "base_ok s \<Longrightarrow> ring_wf (tsewer s) \<and> ring_wf (psewer (pt (psys s)))"
  by (simp add: base_ok_def channels_ok_def potty_inv_def)

section \<open>What else every reachable state has\<close>

text \<open>
  The size of the table is an \<^verbatim>\<open>int\<close> above 0, and stays below \<open>2 ^ 30\<close> when the allocator refuses such tables. This is
  kept by every turn, whatever the clock reads and however the probe chains look.
\<close>

definition sized :: "(nat \<Rightarrow> bool) \<Rightarrow> bool \<Rightarrow> store \<Rightarrow> bool" where
  "sized cal low m \<longleftrightarrow> 0 < table_size m \<and> table_size m \<le> INT_MAX \<and> (low \<longrightarrow> table_size m < 2 ^ 30 \<and> (\<forall>n. cal n \<longrightarrow> n < 2 ^ 30))"

lemma sized_put:
  assumes "sized cal low m"
  shows "case hashmap_put cal m k v of
      Inl e \<Rightarrow> e = SignedOverflow \<and> \<not> low
    | Inr (st, m') \<Rightarrow> sized cal low m'"
proof -
  have fu: "fuel_ok m 31" using assms by (simp add: sized_def put_fuel_enough)
  have small: "low \<Longrightarrow> stays_small (put_fuel cal 31 m k v)"
    using put_fuel_small [of cal m 31 k v] assms by (auto simp: sized_def)
  show ?thesis
  proof (cases "put_fuel cal 31 m k v")
    case (Inl e)
    with put_totalD [OF put_fuel_total fu] only_faultsD [OF put_fuel_faults Inl] small show ?thesis
      by (auto simp: hashmap_put_def)
  next
    case (Inr r)
    obtain st m' where r: "r = (st, m')" by (cases r)
    have "table_size m \<le> table_size m' \<and> table_size m' \<le> INT_MAX"
    proof -
      have "put_total (put_fuel cal 31 :: data_entry put_fn) 31" by (rule put_fuel_total)
      with fu Inr show ?thesis unfolding put_total_def r by blast
    qed
    with small assms Inr show ?thesis by (auto simp: hashmap_put_def sized_def r)
  qed
qed

lemma table_size_evict [simp]: "table_size (evict m k) = table_size m"
  by (simp add: evict_def hashmap_remove_def split: option.split)

lemma sized_apply:
  assumes "sized cal low m" and "persisted mu"
  shows "case septic_tank_apply_mutation cal m mu of
      Inl e \<Rightarrow> e = SignedOverflow \<and> \<not> low
    | Inr m' \<Rightarrow> sized cal low m'"
proof (cases mu)
  case (Set_mutation key v at)
  let ?e = "data_create_string_entry (if at = ST_MUTATION_NO_EXPIRY then None else Some at) v"
  from sized_put [OF assms(1), of key ?e] show ?thesis
    by (cases "hashmap_put cal m key ?e") (auto simp: Set_mutation septic_tank_apply_set_def)
next
  case (Del_mutation key)
  with assms(1) show ?thesis
    using table_size_evict [of m key] by (simp add: septic_tank_apply_del_def evict_def sized_def)
next
  case (Expire_mutation key at)
  with assms(1) show ?thesis
    by (auto simp: septic_tank_apply_expire_def hashmap_update_def sized_def split: option.splits)
qed (use assms in \<open>simp add: persisted_def\<close>)

lemma resolve_keeps_size:
  assumes "septic_tank_resolve clk m op = Inr (m', r)"
  shows "table_size m' = table_size m" and "resolved_mutation r = Some mu \<Longrightarrow> persisted mu"
  using assms
  by (cases op;
      auto simp: septic_tank_get_def septic_tank_resolve_set_def septic_tank_resolve_del_def septic_tank_ttl_def
        septic_tank_exists_def septic_tank_resolve_expire_def septic_tank_resolve_incrby_def Let_def rbind_eq_Inr_iff
        persisted_def blank_result_def fail_with_def split: option.splits if_splits)+

lemma sized_digest:
  assumes "sized cal low (tank_data t)"
    and "septic_tank_digest cal clk t op True = Inr (t', reply, logged)"
  shows "sized cal low (tank_data t') \<and> reply \<noteq> None \<and> (\<forall>mu. logged = Some mu \<longrightarrow> persisted mu)"
proof -
  from assms(2) obtain m r m' where res: "septic_tank_resolve clk (tank_data t) op = Inr (m, r)"
    and app: "(case resolved_mutation r of Some mu \<Rightarrow> if success r then septic_tank_apply_mutation cal m mu else Inr m
      | None \<Rightarrow> Inr m) = Inr m'"
    and out: "t' = t\<lparr>tank_data := m'\<rparr>" "reply = Some r" "logged = (if aof_enabled t \<and> success r then resolved_mutation r else None)"
    by (auto simp: septic_tank_digest_def rbind_eq_Inr_iff Let_def)
  note r = resolve_keeps_size [OF res]
  have m: "sized cal low m" using assms(1) r(1) by (simp add: sized_def)
  have "sized cal low m'"
  proof (cases "resolved_mutation r")
    case (Some mu)
    with sized_apply [OF m r(2) [OF Some]] app m show ?thesis
      by (cases "success r"; cases "septic_tank_apply_mutation cal m mu") auto
  qed (use app m in simp)
  with out r(2) show ?thesis by auto
qed

lemma digest_sized_faults:
  assumes "sized cal low (tank_data t)" and "clock_ok (clk 0)" and "clock_ok (clk 1)"
    and "septic_tank_digest cal clk t op True = Inl e"
  shows "e = SignedOverflow \<and> \<not> low"
proof -
  obtain m r where res: "septic_tank_resolve clk (tank_data t) op = Inr (m, r)"
    using resolve_returns [OF assms(2,3)] by blast
  note r = resolve_keeps_size [OF res]
  have m: "sized cal low m" using assms(1) r(1) by (simp add: sized_def)
  from assms(4) res obtain mu where "resolved_mutation r = Some mu" "septic_tank_apply_mutation cal m mu = Inl e"
    by (auto simp: septic_tank_digest_def rbind_eq_Inl_iff Let_def split: option.splits if_splits)
  with sized_apply [OF m r(2)] show ?thesis by fastforce
qed

definition to_log :: "actors \<Rightarrow> mutation list" where
  "to_log s = fed (psys s) @ unlogged (turn s)"

lemma step_log:
  assumes "actors_step cal a s = Inr (Some s')" and "\<And>clk. a \<noteq> Tank_turn clk"
  shows "tank s' = tank s \<and> to_log s' = to_log s"
proof (cases a)
  case (Client_send i op)
  with assms(1) show ?thesis by (auto simp: client_send_def rbind_eq_Inr_iff to_log_def split: if_splits)
next
  case (Client_receive i)
  with assms(1) show ?thesis by (auto simp: client_receive_def rbind_eq_Inr_iff to_log_def split: option.splits)
next
  case Tank_answer
  with assms(1) show ?thesis
    by (auto simp: tank_answer_def rbind_eq_Inr_iff to_log_def split: tank_thread.splits option.splits)
next
  case Tank_feed
  with assms(1) obtain mu ps where "turn s = Feeding mu" "potty_step (Feed mu) (psys s) = Inr (Some ps)"
    "s' = s\<lparr>psys := ps, turn := Receiving\<rparr>"
    by (auto simp: tank_feed_def rbind_eq_Inr_iff split: tank_thread.splits)
  then show ?thesis by (auto simp: rbind_eq_Inr_iff to_log_def)
next
  case (Potty_action b)
  with assms(1) have "potty_moves b s = Inr (Some s')" by simp
  then obtain ps where "potty_step b (psys s) = Inr (Some ps)" "s' = s\<lparr>psys := ps\<rparr>" "\<forall>mu. b \<noteq> Feed mu"
    by (cases b) (auto simp: potty_moves_def rbind_eq_Inr_iff simp del: potty_step.simps)
  with other_steps_feed_nothing show ?thesis by (simp add: to_log_def)
qed (use assms(2) in simp)

lemma reachable_sized:
  assumes "actors_reachable cal t0 tc pc start space s" and "sized cal low (tank_data t0)"
  shows "sized cal low (tank_data (tank s)) \<and> list_all persisted (to_log s)"
  using assms(1)
proof (induction rule: actors_reachable.induct)
  case start
  with assms(2) show ?case by (simp add: actors_init_def to_log_def potty_init_def)
next
  case (move s a s')
  show ?case
  proof (cases "\<exists>clk. a = Tank_turn clk")
    case True
    then obtain clk where "tank_turn cal clk s = Inr (Some s')" using move(2) by auto
    then obtain i op q t r logged where "turn s = Receiving"
      and dig: "septic_tank_digest cal clk (tank s) op True = Inr (t, Some r, logged)"
      and s': "s' = s\<lparr>tsewer := q, tank := t, turn := Answering i r logged, served := served s @ [(i, op, clk)]\<rparr>"
      by (auto simp: tank_turn_def rbind_eq_Inr_iff split: option.splits if_splits)
    with sized_digest [OF _ dig] move(3) show ?thesis by (cases logged) (auto simp: to_log_def)
  next
    case False
    with step_log [OF move(2)] move(3) show ?thesis by auto
  qed
qed

section \<open>How far a client is from its response\<close>

definition feed_distance :: "system \<Rightarrow> nat" where
  \<comment> \<open>a full log channel waits for the collecting thread to get to its receive\<close>
  "feed_distance p =
     (if \<not> ringbuf_is_full (psewer (pt p)) then 1 else case pump p of Consuming \<Rightarrow> 2 | Checking \<Rightarrow> 3)"

definition turn_distance :: "actors \<Rightarrow> nat" where
  \<comment> \<open>what is left of the turn of the store actor\<close>
  "turn_distance s =
     (case turn s of
        Receiving \<Rightarrow> 0
      | Answering i r logged \<Rightarrow> (case logged of None \<Rightarrow> 1 | Some mu \<Rightarrow> 4)
      | Feeding mu \<Rightarrow> feed_distance (psys s))"

definition ahead :: "actors \<Rightarrow> nat \<Rightarrow> nat" where
  \<comment> \<open>the messages in front of the client's\<close>
  "ahead s i = length (takeWhile (\<lambda>x. fst x \<noteq> i) (ring_content (tsewer s)))"

definition distance :: "actors \<Rightarrow> nat \<Rightarrow> nat" where
  "distance s i =
     (if delivered s i \<noteq> [] then 1
      else if i \<in> fst ` set (answering (turn s)) then 2
      else turn_distance s + 5 * ahead s i + 3)"

lemma feed_distance_le: "1 \<le> feed_distance p \<and> feed_distance p \<le> 3"
  by (simp add: feed_distance_def split: pump_at.split)

lemma turn_distance_simps [simp]:
  "turn s = Receiving \<Longrightarrow> turn_distance s = 0"
  "turn s = Answering i r None \<Longrightarrow> turn_distance s = 1"
  "turn s = Answering i r (Some mu) \<Longrightarrow> turn_distance s = 4"
  "turn s = Feeding mu \<Longrightarrow> turn_distance s = feed_distance (psys s)"
  by (simp_all add: turn_distance_def)

text \<open>The threads of the persistence actor can only shorten the wait for room.\<close>

lemma potty_distance:
  assumes "potty_step a p = Inr (Some p')" and "\<forall>mu. a \<noteq> Feed mu" and "potty_inv p" and "0 < cap (psewer (pt p))"
  shows "feed_distance p' \<le> feed_distance p"
proof (cases "ringbuf_is_full (psewer (pt p))")
  case False
  have wf: "ring_wf (psewer (pt p))" using assms(3) by (simp add: potty_inv_def)
  have "\<not> ringbuf_is_full (psewer (pt p'))"
  proof (cases a)
    case (Pump_consume b)
    note f = consume_facts [OF assms(1) [unfolded Pump_consume] wf]
    have "cap (psewer (pt p')) = cap (psewer (pt p))" by (rule potty_step_cap [OF assms(1)])
    with f(3,4) False show ?thesis
      by (cases "ringbuf_is_empty (psewer (pt p))") (auto simp: ringbuf_is_full_def)
  next
    case (Pump_check n n')
    with check_facts(1) [OF assms(1) [unfolded Pump_check] assms(3)] False show ?thesis by simp
  next
    case (Flusher_take i b)
    with take_facts(1) [OF assms(1) [unfolded Flusher_take] assms(3)] False show ?thesis by simp
  next
    case (Flusher_write i)
    with write_facts(1) [OF assms(1) [unfolded Flusher_write]] False show ?thesis by simp
  qed (use assms(2) in simp)
  with False show ?thesis by (simp add: feed_distance_def)
next
  case True
  then have ne: "\<not> ringbuf_is_empty (psewer (pt p))"
    using assms(4) by (simp add: ringbuf_is_full_def ringbuf_is_empty_def)
  have wf: "ring_wf (psewer (pt p))" using assms(3) by (simp add: potty_inv_def)
  show ?thesis
  proof (cases a)
    case (Pump_consume b)
    note f = consume_facts [OF assms(1) [unfolded Pump_consume] wf]
    have "cap (psewer (pt p')) = cap (psewer (pt p))" by (rule potty_step_cap [OF assms(1)])
    with f(4) [OF ne] True ring.bounded [OF wf] have "\<not> ringbuf_is_full (psewer (pt p'))" by (simp add: ringbuf_is_full_def)
    then show ?thesis using feed_distance_le [of p] by (simp add: feed_distance_def)
  next
    case (Pump_check n n')
    with check_facts(1) [OF assms(1) [unfolded Pump_check] assms(3)] assms(1) have
      "psewer (pt p') = psewer (pt p)" "pump p' = Consuming"
      by (auto simp: rbind_eq_Inr_iff split: if_splits)
    then show ?thesis by (simp add: feed_distance_def split: pump_at.split)
  next
    case (Flusher_take i b)
    with take_facts(1) [OF assms(1) [unfolded Flusher_take] assms(3)] assms(1) have
      "psewer (pt p') = psewer (pt p)" "pump p' = pump p"
      by (auto simp: rbind_eq_Inr_iff split: if_splits option.splits)
    then show ?thesis by (simp add: feed_distance_def)
  next
    case (Flusher_write i)
    with write_facts(1) [OF assms(1) [unfolded Flusher_write]] assms(1) have "pt p' = pt p" "pump p' = pump p"
      by (auto simp: rbind_eq_Inr_iff split: if_splits option.splits flusher.splits)
    then show ?thesis by (simp add: feed_distance_def)
  qed (use assms(2) in simp)
qed


section \<open>No action leads away\<close>

lemma waits:
  assumes "channels_ok s" and "responses s i \<noteq> None" and "delivered s i = []" and "i \<notin> fst ` set (answering (turn s))"
  shows "i \<in> fst ` set (ring_content (tsewer s))"
proof -
  obtain q where "responses s i = Some q" using assms(2) by blast
  with assms(1,3) have "i \<in> set (waiting s)" by (auto simp: channels_ok_def delivered_def)
  with assms(4) show ?thesis by (simp add: waiting_def)
qed

lemma turn_distance_cong: "turn s' = turn s \<Longrightarrow> psys s' = psys s \<Longrightarrow> turn_distance s' = turn_distance s"
  by (simp add: turn_distance_def split: tank_thread.split option.split)

lemma turn_distance_after:
  assumes "turn s = Answering i r logged" and "tank_answer s = Inr (Some s')"
  shows "turn_distance s' < turn_distance s"
proof -
  from assms have "turn s' = (case logged of None \<Rightarrow> Receiving | Some mu \<Rightarrow> Feeding mu)"
    by (auto simp: tank_answer_def rbind_eq_Inr_iff split: option.splits)
  then show ?thesis
    using assms(1) feed_distance_le [of "psys s'"] by (cases logged) auto
qed

lemma send_distance:
  assumes ch: "channels_ok s" and st: "client_send j op s = Inr (Some s')" and r: "responses s i \<noteq> None"
  shows "distance s' i = distance s i"
proof -
  note f = send_facts [OF st conjunct1 [OF ch [unfolded channels_ok_def]]]
  have j: "j \<noteq> i" using f(4) r by auto
  have d: "delivered s' i = delivered s i"
    using st j by (auto simp: client_send_def delivered_def rbind_eq_Inr_iff split: if_splits)
  have "ahead s' i = ahead s i" if "delivered s i = []" "i \<notin> fst ` set (answering (turn s))"
  proof -
    from waits [OF ch r that] obtain x where "x \<in> set (ring_content (tsewer s))" "\<not> fst x \<noteq> i" by auto
    then show ?thesis by (simp add: ahead_def f(1) takeWhile_append1)
  qed
  moreover have "turn_distance s' = turn_distance s" by (rule turn_distance_cong [OF f(3,2)])
  ultimately show ?thesis using d by (simp add: distance_def f(3))
qed

lemma receive_distance:
  assumes "client_receive j s = Inr (Some s')" and "j \<noteq> i"
  shows "distance s' i = distance s i \<and> responses s' i = responses s i"
proof -
  from assms(1) obtain q r where s': "s' = s\<lparr>responses := (responses s)(j := None), received := received s @ [(j, r)]\<rparr>"
    by (auto simp: client_receive_def rbind_eq_Inr_iff split: option.splits)
  have "turn_distance s' = turn_distance s" by (rule turn_distance_cong) (simp_all add: s')
  with assms(2) show ?thesis by (simp add: distance_def ahead_def delivered_def s')
qed

lemma tank_turn_distance:
  assumes ch: "channels_ok s" and st: "tank_turn cal clk s = Inr (Some s')" and r: "responses s i \<noteq> None"
    and "delivered s i = []"
  shows "distance s' i < distance s i \<and> responses s' i = responses s i \<and> received s' = received s"
proof -
  note f = tank_turn_facts [OF st conjunct1 [OF ch [unfolded channels_ok_def]]]
  from f(1) obtain j op res logged where c: "ring_content (tsewer s) = (j, op) # ring_content (tsewer s')"
    and t: "turn s' = Answering j res logged" by blast
  have d: "delivered s' i = []" using assms(4) f(4) by (simp add: delivered_def)
  have "turn_distance s' \<le> 4" using t by (cases logged) simp_all
  moreover have "received s' = received s"
    using st by (auto simp: tank_turn_def rbind_eq_Inr_iff split: if_splits option.splits)
  ultimately show ?thesis
    using d assms(4) by (auto simp: distance_def ahead_def t c f(2,4))
qed

lemma tank_answer_distance:
  assumes ch: "channels_ok s" and st: "tank_answer s = Inr (Some s')" and "delivered s i = []"
  shows "distance s' i < distance s i \<and> (responses s' i = None \<longleftrightarrow> responses s i = None) \<and> received s' = received s"
proof -
  from st obtain j res logged where t: "turn s = Answering j res logged"
    by (auto simp: tank_answer_def split: tank_thread.splits)
  obtain q q' where q: "responses s j = Some q" "sewer_send q res = Inr (Some q')" "ring_content q' = [res]"
    using answer_enabled [OF ch t] by blast
  have s': "s' = s\<lparr>responses := (responses s)(j := Some q'),
      turn := (case logged of None \<Rightarrow> Receiving | Some mu \<Rightarrow> Feeding mu)\<rparr>"
    using st q(1,2) by (simp add: tank_answer_def t)
  have d: "delivered s' i = (if j = i then [res] else [])" and a: "ahead s' i = ahead s i" and "answering (turn s') = []"
    using q(3) assms(3) by (auto simp: s' delivered_def ahead_def split: option.split)
  with turn_distance_after [OF t st] show ?thesis
    using q(1) assms(3) by (auto simp: distance_def t) (auto simp: s')
qed

lemma tank_feed_distance:
  assumes "tank_feed s = Inr (Some s')" and "delivered s i = []"
  shows "distance s' i < distance s i \<and> responses s' i = responses s i \<and> received s' = received s"
proof -
  from assms(1) obtain mu ps where "turn s = Feeding mu" "s' = s\<lparr>psys := ps, turn := Receiving\<rparr>"
    by (auto simp: tank_feed_def rbind_eq_Inr_iff split: tank_thread.splits)
  with assms(2) feed_distance_le [of "psys s"] show ?thesis
    by (simp add: distance_def delivered_def ahead_def)
qed

lemma potty_moves_distance:
  assumes "potty_moves a s = Inr (Some s')" and "potty_inv (psys s)" and "0 < cap (psewer (pt (psys s)))"
  shows "distance s' i \<le> distance s i \<and> responses s' i = responses s i \<and> received s' = received s"
proof -
  from assms(1) obtain ps where p: "potty_step a (psys s) = Inr (Some ps)" and s': "s' = s\<lparr>psys := ps\<rparr>" and a: "\<forall>mu. a \<noteq> Feed mu"
    by (cases a) (auto simp: potty_moves_def rbind_eq_Inr_iff simp del: potty_step.simps)
  from potty_distance [OF p a assms(2,3)] show ?thesis
    by (auto simp: s' distance_def delivered_def ahead_def turn_distance_def split: tank_thread.split option.split)
qed

lemma step_distance:
  assumes "channels_ok s" and "potty_inv (psys s)" and "0 < cap (psewer (pt (psys s)))" and "responses s i \<noteq> None"
    and "actors_step cal a s = Inr (Some s')"
  shows "responses s' i = None \<or> distance s' i \<le> distance s i"
proof (cases a)
  case (Client_send j op)
  with assms(5) send_distance [OF assms(1) _ assms(4)] show ?thesis by auto
next
  case (Client_receive j)
  with assms(5) receive_distance [of j s s' i] receive_facts(5) [of j s s' i] show ?thesis by (cases "j = i") auto
next
  case (Potty_action b)
  with assms(5) potty_moves_distance [OF _ assms(2,3), of b s' i] show ?thesis by auto
next
  case (Tank_turn clk)
  then have st: "tank_turn cal clk s = Inr (Some s')" using assms(5) by simp
  show ?thesis
  proof (cases "delivered s i = []")
    case True
    with tank_turn_distance [OF assms(1) st assms(4)] show ?thesis by simp
  next
    case False
    with tank_turn_facts(4) [OF st] assms(1) show ?thesis by (simp add: distance_def delivered_def channels_ok_def)
  qed
next
  case Tank_answer
  then have st: "tank_answer s = Inr (Some s')" using assms(5) by simp
  show ?thesis
  proof (cases "delivered s i = []")
    case True
    with tank_answer_distance [OF assms(1) st, of i] assms(4) show ?thesis by simp
  next
    case False
    have "delivered s' i \<noteq> []"
    proof -
      from st obtain j res logged where t: "turn s = Answering j res logged"
        by (auto simp: tank_answer_def split: tank_thread.splits)
      from answer_enabled [OF assms(1) t] False st show ?thesis
        by (cases "j = i") (auto simp: tank_answer_def t delivered_def)
    qed
    with False show ?thesis by (simp add: distance_def)
  qed
next
  case Tank_feed
  then have st: "tank_feed s = Inr (Some s')" using assms(5) by simp
  show ?thesis
  proof (cases "delivered s i = []")
    case True
    with tank_feed_distance [OF st, of i] show ?thesis by simp
  next
    case False
    with tank_feed_facts(3) [OF st] assms(2) show ?thesis by (simp add: distance_def delivered_def potty_inv_def)
  qed
qed


section \<open>The next step of a waiting client\<close>

fun serves :: "nat \<Rightarrow> clock \<Rightarrow> nat \<Rightarrow> actor_action \<Rightarrow> bool" where
  \<comment> \<open>the steps of the store actor with that clock, of the collecting thread at that time, and the receive of the client\<close>
  "serves i clk now (Client_receive j) \<longleftrightarrow> j = i"
| "serves i clk now (Tank_turn clk') \<longleftrightarrow> clk' = clk"
| "serves i clk now Tank_answer \<longleftrightarrow> True"
| "serves i clk now Tank_feed \<longleftrightarrow> True"
| "serves i clk now (Potty_action (Pump_consume timed_out)) \<longleftrightarrow> \<not> timed_out"
| "serves i clk now (Potty_action (Pump_check t t')) \<longleftrightarrow> t = now \<and> t' = now"
| "serves i clk now _ \<longleftrightarrow> False"

definition brings_closer :: "bool \<Rightarrow> actors \<Rightarrow> nat \<Rightarrow> actors option res \<Rightarrow> bool" where
  \<comment> \<open>the response is received, or the client is closer to it; or the size of the table has overflowed\<close>
  "brings_closer low s i r \<longleftrightarrow>
     (case r of
        Inl e \<Rightarrow> e = SignedOverflow \<and> \<not> low
      | Inr None \<Rightarrow> False
      | Inr (Some s') \<Rightarrow>
          if responses s' i = None then \<exists>result. received s' = received s @ [(i, result)]
          else distance s' i < distance s i \<and> received s' = received s)"

lemma brings_closer_Some [simp]:
  "brings_closer low s i (Inr (Some s')) \<longleftrightarrow>
     (if responses s' i = None then \<exists>result. received s' = received s @ [(i, result)]
      else distance s' i < distance s i \<and> received s' = received s)"
  by (simp add: brings_closer_def)

lemma collect_closer:
  assumes inv: "potty_inv p" and "0 < cap (psewer (pt p))" and full: "ringbuf_is_full (psewer (pt p))"
    and "list_all persisted (fed p)"
  shows "\<exists>a p'. (a = Pump_consume False \<or> a = Pump_check now now) \<and> potty_step a p = Inr (Some p') \<and>
    feed_distance p' < feed_distance p"
proof (cases "pump p")
  case Consuming
  have wf: "ring_wf (psewer (pt p))" "hector_wf (waste (pt p))" "0 < capacity (waste (pt p))"
    using inv by (simp_all add: potty_inv_def)
  have ne: "0 < rlen (psewer (pt p))" using full assms(2) by (simp add: ringbuf_is_full_def)
  then obtain mu rest where c: "ring_content (psewer (pt p)) = mu # rest"
    using length_ring_content [of "psewer (pt p)"] by (cases "ring_content (psewer (pt p))") auto
  from sw.receive_some [OF wf(1) c] obtain q where q: "sewer_consume (psewer (pt p)) = Inr (Some (mu, q))"
    "ring_content q = rest" by blast
  from inv obtain out where "out @ in_flight p = fed p" by (auto simp: potty_inv_def)
  then have "mu \<in> set (fed p)" by (metis Un_iff c in_flight_def list.set_intros(1) set_append)
  with assms(4) have "persisted mu" by (simp add: list_all_iff)
  then have clone: "septic_tank_mutation_clone mu = Inr mu" by (cases mu) (auto simp: persisted_def)
  obtain w where "hector_push (waste (pt p)) mu = Inr w" using hector_push_ok [OF wf(2,3)] by blast
  with q clone Consuming obtain p' where p': "potty_step (Pump_consume False) p = Inr (Some p')"
    by (auto simp: pump_consume_def timed_consume_eq potty_poop_def Let_def)
  have "cap (psewer (pt p')) = cap (psewer (pt p))" by (rule potty_step_cap [OF p'])
  with consume_facts(4) [OF p' wf(1)] ne ring.bounded [OF wf(1)] have "\<not> ringbuf_is_full (psewer (pt p'))"
    by (simp add: ringbuf_is_full_def ringbuf_is_empty_def)
  then have "feed_distance p' < feed_distance p" using full by (simp add: feed_distance_def Consuming)
  with p' show ?thesis by blast
next
  case Checking
  have "\<exists>p'. potty_step (Pump_check now now) p = Inr (Some p')"
  proof (cases "should_flush (pt p) now \<and> hector_size (waste (pt p)) \<noteq> 0")
    case True
    have "hector_wf (flush_jobs (pt p))" "0 < capacity (flush_jobs (pt p))" using inv by (simp_all add: potty_inv_def)
    from hector_push_ok [OF this, of "\<lparr>jwaste = waste (pt p), jts = now\<rparr>"] True Checking show ?thesis
      by (auto simp: potty_flush_def)
  qed (use Checking in \<open>auto simp: potty_flush_def\<close>)
  then obtain p' where p': "potty_step (Pump_check now now) p = Inr (Some p')" by blast
  have "psewer (pt p') = psewer (pt p)" by (rule check_facts(1) [OF p' inv])
  moreover have "pump p' = Consuming" using p' Checking by (auto simp: rbind_eq_Inr_iff split: if_splits)
  ultimately have "feed_distance p' < feed_distance p" using full by (simp add: feed_distance_def Checking)
  with p' show ?thesis by blast
qed

lemma next_step:
  assumes ch: "channels_ok s" and inv: "potty_inv (psys s)" and cap: "0 < cap (psewer (pt (psys s)))"
    and wait: "responses s i \<noteq> None" and size: "sized cal low (tank_data (tank s))" and log: "list_all persisted (to_log s)"
    and clk: "clock_ok (clk 0)" "clock_ok (clk 1)"
  shows "\<exists>a. serves i clk now a \<and> brings_closer low s i (actors_step cal a s)"
proof -
  obtain q where q: "responses s i = Some q" using wait by blast
  show ?thesis
  proof (cases "delivered s i")
    case (Cons r rs)
    then have c: "ring_content q = r # rs" by (simp add: delivered_def q)
    have "ring_wf q" using ch q by (auto simp: channels_ok_def)
    then obtain q' where "sewer_consume q = Inr (Some (r, q'))" using sw.receive_some [OF _ c] by blast
    then have "brings_closer low s i (actors_step cal (Client_receive i) s)" by (simp add: client_receive_def q)
    then show ?thesis by (intro exI [of _ "Client_receive i"]) simp
  next
    case Nil
    show ?thesis
    proof (cases "turn s")
      case (Answering j r logged)
      from answer_enabled [OF ch Answering] obtain s' where st: "tank_answer s = Inr (Some s')"
        by (auto simp: tank_answer_def Answering)
      from tank_answer_distance [OF ch st Nil] wait have "brings_closer low s i (actors_step cal Tank_answer s)"
        by (simp add: st)
      then show ?thesis by (intro exI [of _ Tank_answer]) simp
    next
      case (Feeding mu)
      have mu: "persisted mu" "list_all persisted (fed (psys s))" using log by (simp_all add: to_log_def Feeding)
      show ?thesis
      proof (cases "ringbuf_is_full (psewer (pt (psys s)))")
        case True
        from collect_closer [OF inv cap True mu(2)] obtain a p' where
          a: "a = Pump_consume False \<or> a = Pump_check now now" "potty_step a (psys s) = Inr (Some p')"
            "feed_distance p' < feed_distance (psys s)" by blast
        then have "potty_moves a s = Inr (Some (s\<lparr>psys := p'\<rparr>))"
          by (auto simp: potty_moves_def simp del: potty_step.simps)
        moreover have "distance (s\<lparr>psys := p'\<rparr>) i < distance s i"
          using a(3) Nil Feeding by (simp add: distance_def delivered_def ahead_def)
        ultimately have "brings_closer low s i (actors_step cal (Potty_action a) s)" using wait by simp
        with a(1) show ?thesis by (intro exI [of _ "Potty_action a"]) auto
      next
        case False
        have wf: "ring_wf (psewer (pt (psys s)))" using inv by (simp add: potty_inv_def)
        have "septic_tank_mutation_clone mu = Inr mu" using mu(1) by (cases mu) (auto simp: persisted_def)
        moreover obtain q' where "sewer_send (psewer (pt (psys s))) mu = Inr (Some q')"
          using sw.send_room [OF wf False] by blast
        ultimately obtain s' where st: "tank_feed s = Inr (Some s')"
          by (auto simp: tank_feed_def potty_feed_def Feeding)
        from tank_feed_distance [OF st Nil] wait have "brings_closer low s i (actors_step cal Tank_feed s)"
          by (simp add: st)
        then show ?thesis by (intro exI [of _ Tank_feed]) simp
      qed
    next
      case Receiving
      from waits [OF ch wait Nil] obtain m ms where m: "ring_content (tsewer s) = m # ms"
        by (cases "ring_content (tsewer s)") (auto simp: Receiving)
      obtain j op where jop: "m = (j, op)" by (cases m)
      have "ring_wf (tsewer s)" using ch by (simp add: channels_ok_def)
      then obtain q' where q': "sewer_consume (tsewer s) = Inr (Some ((j, op), q'))"
        using sw.receive_some [OF _ m] jop by blast
      have "brings_closer low s i (tank_turn cal clk s)"
      proof (cases "septic_tank_digest cal clk (tank s) op True")
        case (Inl e)
        with digest_sized_faults [OF size clk Inl] show ?thesis
          by (simp add: tank_turn_def Receiving q' brings_closer_def)
      next
        case (Inr x)
        obtain t reply logged where x: "x = (t, reply, logged)" by (cases x)
        from sized_digest [OF size Inr [unfolded x]] obtain r where "reply = Some r" by blast
        with Inr x obtain s' where st: "tank_turn cal clk s = Inr (Some s')"
          by (simp add: tank_turn_def Receiving q')
        from tank_turn_distance [OF ch st wait Nil] wait show ?thesis by (simp add: st)
      qed
      then show ?thesis by (intro exI [of _ "Tank_turn clk"]) simp
    qed
  qed
qed


section \<open>Runs\<close>

fun actors_run :: "(nat \<Rightarrow> bool) \<Rightarrow> actor_action list \<Rightarrow> actors \<Rightarrow> actors option res" where
  "actors_run cal [] s = Inr (Some s)"
| "actors_run cal (a # as) s =
     rbind (actors_step cal a s) (\<lambda>r. case r of None \<Rightarrow> Inr None | Some s \<Rightarrow> actors_run cal as s)"

definition answered :: "bool \<Rightarrow> actors \<Rightarrow> nat \<Rightarrow> actors option res \<Rightarrow> bool" where
  \<comment> \<open>the run ends with the response received, or the size of the table has overflowed\<close>
  "answered low s i r \<longleftrightarrow>
     (case r of
        Inl e \<Rightarrow> e = SignedOverflow \<and> \<not> low
      | Inr None \<Rightarrow> False
      | Inr (Some s') \<Rightarrow> responses s' i = None \<and> (\<exists>result. received s' = received s @ [(i, result)]))"

lemma answered_later: "received s' = received s \<Longrightarrow> answered low s' i r \<Longrightarrow> answered low s i r"
  by (auto simp: answered_def split: sum.splits option.splits)

lemma reachable_next:
  assumes "actors_reachable cal t0 tc pc start space s" and "0 < pc" and "responses s i \<noteq> None"
    and "sized cal low (tank_data t0)" and "clock_ok (clk 0)" and "clock_ok (clk 1)"
  shows "\<exists>a. serves i clk now a \<and> brings_closer low s i (actors_step cal a s)"
    and "actors_step cal b s = Inr (Some s') \<Longrightarrow> responses s' i = None \<or> distance s' i \<le> distance s i"
proof -
  have ch: "channels_ok s" and r: "reachable pc start space (psys s)" using actors_inv [OF assms(1)] by auto
  have inv: "potty_inv (psys s)" "0 < cap (psewer (pt (psys s)))"
    using reachable_inv [OF r] reachable_cap [OF r] assms(2) by simp_all
  show "\<exists>a. serves i clk now a \<and> brings_closer low s i (actors_step cal a s)"
    using next_step [of s i cal low clk now] ch inv assms(3,5,6) reachable_sized [OF assms(1,4)] by blast
  show "responses s' i = None \<or> distance s' i \<le> distance s i" if "actors_step cal b s = Inr (Some s')"
    by (rule step_distance [OF ch inv assms(3) that])
qed

lemma run_to_answer:
  assumes "0 < pc" and "sized cal low (tank_data t0)" and "clock_ok (clk 0)" and "clock_ok (clk 1)"
  shows "actors_reachable cal t0 tc pc start space s \<Longrightarrow> responses s i \<noteq> None \<Longrightarrow>
    \<exists>as. list_all (serves i clk now) as \<and> length as \<le> distance s i \<and> answered low s i (actors_run cal as s)"
proof (induction "distance s i" arbitrary: s rule: less_induct)
  case less
  from reachable_next(1) [OF less(2) assms(1) less(3) assms(2-4)] obtain a where
    a: "serves i clk now a" "brings_closer low s i (actors_step cal a s)" by blast
  have pos: "1 \<le> distance s i" by (simp add: distance_def)
  show ?case
  proof (cases "\<exists>s'. actors_step cal a s = Inr (Some s') \<and> responses s' i \<noteq> None")
    case False
    have "answered low s i (actors_run cal [a] s)"
      using a(2) False by (auto simp: brings_closer_def answered_def simp del: actors_step.simps split: sum.splits option.splits)
    with a(1) pos show ?thesis by (intro exI [of _ "[a]"]) simp
  next
    case True
    then obtain s' where s': "actors_step cal a s = Inr (Some s')" "responses s' i \<noteq> None" by blast
    with a(2) have closer: "distance s' i < distance s i" "received s' = received s" by auto
    from less(1) [OF closer(1) actors_reachable.move [OF less(2) s'(1)] s'(2)] obtain as where
      "list_all (serves i clk now) as" "length as \<le> distance s' i" "answered low s' i (actors_run cal as s')" by blast
    moreover have "answered low s i (actors_run cal as s')" by (rule answered_later [OF closer(2)]) fact
    ultimately show ?thesis
      using a(1) s'(1) closer(1) by (intro exI [of _ "a # as"]) (simp del: actors_step.simps)
  qed
qed

section \<open>Properties\<close>

text \<open>
  C7: every client is answered. From every reachable state in which client \<open>i\<close> waits there is a run of at most
  \<open>distance s i\<close> steps, all taken by the store actor, the collecting thread or the client itself, at whose end the client has
  received one response; and no step of any thread makes the distance larger, so that the others cannot keep the client
  waiting. Conditions: the log channel has room for a message, the table of the initial tank has a positive
  \<^verbatim>\<open>int\<close> size, and the readings of the clock are documented ones. The one other end is the overflow of the table size, which
  needs a table of \<open>2 ^ 30\<close> slots, at the start or from the allocator. (A fault of another thread that comes first ends the process
  for everyone, as in \<open>overrun_run\<close>.)
\<close>

theorem client_is_answered:
  assumes "actors_reachable cal t0 tc pc start space s" and "0 < pc" and "responses s i \<noteq> None"
    and "0 < table_size (tank_data t0)" and "table_size (tank_data t0) \<le> INT_MAX"
    and "clock_ok (clk 0)" and "clock_ok (clk 1)"
  shows "(\<exists>as. list_all (serves i clk now) as \<and> length as \<le> distance s i \<and>
      (case actors_run cal as s of
         Inl e \<Rightarrow> e = SignedOverflow \<and> \<not> (table_size (tank_data t0) < 2 ^ 30 \<and> (\<forall>n. cal n \<longrightarrow> n < 2 ^ 30))
       | Inr None \<Rightarrow> False
       | Inr (Some s') \<Rightarrow> responses s' i = None \<and> (\<exists>result. received s' = received s @ [(i, result)]))) \<and>
    (\<forall>a s'. actors_step cal a s = Inr (Some s') \<longrightarrow> responses s' i = None \<or> distance s' i \<le> distance s i)"
proof -
  let ?low = "table_size (tank_data t0) < 2 ^ 30 \<and> (\<forall>n. cal n \<longrightarrow> n < 2 ^ 30)"
  have sized: "sized cal ?low (tank_data t0)" using assms(4,5) by (simp add: sized_def)
  from run_to_answer [OF assms(2) sized assms(6,7,1,3)] reachable_next(2) [OF assms(1-3) sized assms(6,7)]
  show ?thesis unfolding answered_def by blast
qed

theorem client_is_answered_witness:
  "\<exists>s as s' result. actors_reachable (\<lambda>n. n < 2 ^ 30) septic_tank_create 5 5 0 1000 s \<and> responses s 3 \<noteq> None \<and>
     received s = [] \<and> list_all (serves 3 (at_second 6) 2000) as \<and> length as \<le> 2 \<and>
     actors_run (\<lambda>n. n < 2 ^ 30) as s = Inr (Some s') \<and> responses s' 3 = None \<and> received s' = [(3, result)]"
proof -
  let ?cal = "\<lambda>n :: nat. n < 2 ^ 30"
  obtain s where r: "actors_reachable ?cal septic_tank_create 5 5 0 1000 s" and t: "turn s = Answering 3 get_answer None"
    and s: "received s = []" "responses s 3 \<noteq> None" "delivered s 3 = []"
    using get_run by blast
  have t0: "table_size (tank_data septic_tank_create) = 256"
    by (simp add: septic_tank_create_def hashmap_new_def)
  have "distance s 3 = 2" by (simp add: distance_def s t)
  moreover have "clock_ok (at_second 6 0)" "clock_ok (at_second 6 1)" by (simp_all add: clock_ok_def)
  ultimately obtain as where as: "list_all (serves 3 (at_second 6) 2000) as" "length as \<le> 2"
    and run: "case actors_run ?cal as s of
        Inl e \<Rightarrow> e = SignedOverflow \<and>
          \<not> (table_size (tank_data septic_tank_create) < 2 ^ 30 \<and> (\<forall>n. ?cal n \<longrightarrow> n < 2 ^ 30))
      | Inr None \<Rightarrow> False
      | Inr (Some s') \<Rightarrow> responses s' 3 = None \<and> (\<exists>result. received s' = received s @ [(3, result)])"
    using client_is_answered [OF r _ s(2), of "at_second 6" 2000] by (auto simp: t0)
  from run obtain s' result where "actors_run ?cal as s = Inr (Some s')" "responses s' 3 = None" "received s' = [(3, result)]"
    by (auto simp: t0 s(1) split: sum.splits option.splits)
  with r s(1,2) as show ?thesis by blast
qed

end
