(* ===== verification/Resources.thy ===== *)
theory Resources
  imports Memory Arena Hector Sewer
begin

text \<open>
  The objects of the program that are created and destroyed as a whole, with the blocks they consist of: the pages of an
  arena (\<^verbatim>\<open>arena.c\<close>), growable arrays outside arenas and files in memory (\<^verbatim>\<open>aids.c\<close>), ring buffers (\<^verbatim>\<open>ring.c\<close>)
  and channels (\<^verbatim>\<open>sewer.c\<close>).
  Each is shown to satisfy the contract \<open>resource\<close>: destroying it releases exactly its blocks, and an arena
  whatever was allocated from it. An arena is its chain of pages; by its type it has at least one.
\<close>

section \<open>Arenas\<close>

datatype owned_arena =
    Last page nat nat
  | Chained page nat nat owned_arena

fun chain :: "owned_arena \<Rightarrow> arena" where
  "chain (Last p d s) = [p]"
| "chain (Chained p d s a) = p # chain a"

fun arena_blocks :: "owned_arena \<Rightarrow> nat list" where
  \<comment> \<open>the data and the struct of each page\<close>
  "arena_blocks (Last p d s) = [d, s]"
| "arena_blocks (Chained p d s a) = d # s # arena_blocks a"

definition owned_page_create :: "nat \<Rightarrow> heap \<Rightarrow> nat \<times> nat \<times> heap" where
  "owned_page_create n h = (let (d, h) = malloc h; (s, h) = malloc h in (d, s, h))"

definition owned_arena_create :: "heap \<Rightarrow> owned_arena \<times> heap" where
  "owned_arena_create h = (let (d, s, h) = owned_page_create ARENA_PAGE_SIZE h in (Last (page_create ARENA_PAGE_SIZE) d s, h))"

fun owned_alloc_from :: "nat \<Rightarrow> owned_arena \<Rightarrow> nat \<Rightarrow> heap \<Rightarrow> (block \<times> nat \<times> owned_arena \<times> heap) res" where
  \<comment> \<open>\<open>arena_alloc\<close>, with the memory block in which the new block lies; the struct of each page on the way is read\<close>
  "owned_alloc_from i (Last p d s) n h =
     (if s \<notin> live h then Inl UseAfterFree
      else if size_sub (psize p) (current p) \<ge> n
      then Inr (\<lparr>bpage = i, boff = current p, blen = n\<rparr>, d, Last (p\<lparr>current := current p + n\<rparr>) d s, h)
      else (let new_arena_size = (if n > ARENA_PAGE_SIZE then n else ARENA_PAGE_SIZE);
                (d', s', h) = owned_page_create new_arena_size h;
                new_arena = (page_create new_arena_size)\<lparr>psize := n, current := n\<rparr>
            in Inr (\<lparr>bpage = Suc i, boff = 0, blen = n\<rparr>, d', Chained p d s (Last new_arena d' s'), h)))"
| "owned_alloc_from i (Chained p d s a) n h =
     (if s \<notin> live h then Inl UseAfterFree
      else if size_sub (psize p) (current p) \<ge> n
      then Inr (\<lparr>bpage = i, boff = current p, blen = n\<rparr>, d, Chained (p\<lparr>current := current p + n\<rparr>) d s a, h)
      else rbind (owned_alloc_from (Suc i) a n h) (\<lambda>(b, m, a, h). Inr (b, m, Chained p d s a, h)))"

fun owned_allocs :: "owned_arena \<Rightarrow> nat list \<Rightarrow> heap \<Rightarrow> (nat list \<times> owned_arena \<times> heap) res" where
  \<comment> \<open>a sequence of requests, with the memory blocks of the answers\<close>
  "owned_allocs a [] h = Inr ([], a, h)"
| "owned_allocs a (n # ns) h =
     rbind (owned_alloc_from 0 a n h) (\<lambda>(b, m, a, h).
     rbind (owned_allocs a ns h) (\<lambda>(ms, a, h). Inr (m # ms, a, h)))"

fun arena_destroy :: "owned_arena \<Rightarrow> heap \<Rightarrow> heap res" where
  "arena_destroy (Last p d s) h = rbind (release d h) (release s)"
| "arena_destroy (Chained p d s a) h = rbind (release d h) (\<lambda>h. rbind (release s h) (arena_destroy a))"

fun owned_reset :: "owned_arena \<Rightarrow> owned_arena" where
  "owned_reset (Last p d s) = Last (p\<lparr>current := 0\<rparr>) d s"
| "owned_reset (Chained p d s a) = Chained (p\<lparr>current := 0\<rparr>) d s (owned_reset a)"

lemma owned_reset_ok [simp]: "arena_blocks (owned_reset a) = arena_blocks a" "chain (owned_reset a) = arena_reset (chain a)"
  by (induction a) simp_all

lemma page_create_holds:
  assumes "holds h bs" and "owned_page_create n h = (d, s, h')"
  shows "holds h' (d # s # bs)"
proof -
  obtain h1 where "malloc h = (d, h1)" "malloc h1 = (s, h')"
    using assms(2) by (auto simp: owned_page_create_def split: prod.splits)
  from malloc_holds [OF malloc_holds [OF assms(1) this(1)] this(2)] show ?thesis
    by (rule holds_mset) simp
qed

text \<open>The pages behave as in \<open>Arena\<close>, and new blocks belong to the arena.\<close>

lemma owned_alloc_from_ok:
  "holds h (arena_blocks a @ bs) \<Longrightarrow>
     \<exists>b m a' h'. owned_alloc_from i a n h = Inr (b, m, a', h') \<and> arena_alloc_from i (chain a) n = Inr (b, chain a') \<and>
       holds h' (arena_blocks a' @ bs) \<and> m \<in> set (arena_blocks a') \<and> set (arena_blocks a) \<subseteq> set (arena_blocks a')"
proof (induction a arbitrary: i h bs)
  case (Last p d s)
  then have live: "s \<in> live h" by (simp add: holds_live)
  let ?k = "if n > ARENA_PAGE_SIZE then n else ARENA_PAGE_SIZE"
  obtain d' s' h' where new: "owned_page_create ?k h = (d', s', h')" using prod_cases3 by blast
  from page_create_holds [OF Last new] have "holds h' (d # s # d' # s' # bs)"
    by (rule holds_mset) simp
  with Last live show ?case using new by (simp add: Let_def)
next
  case (Chained p d s a)
  then have live: "s \<in> live h" and "holds h (arena_blocks a @ (d # s # bs))"
    by (auto simp: holds_live elim: holds_mset)
  from Chained.IH [OF this(2), of "Suc i"] obtain b m a' h' where
    a': "owned_alloc_from (Suc i) a n h = Inr (b, m, a', h')" "arena_alloc_from (Suc i) (chain a) n = Inr (b, chain a')"
      "holds h' (arena_blocks a' @ (d # s # bs))" "m \<in> set (arena_blocks a')" "set (arena_blocks a) \<subseteq> set (arena_blocks a')"
    by blast
  have "chain a \<noteq> []" by (cases a) simp_all
  moreover have "holds h' (d # s # arena_blocks a' @ bs)" using a'(3) by (rule holds_mset) simp
  ultimately show ?case using Chained.prems live a' by auto
qed

lemma owned_allocs_ok:
  "holds h (arena_blocks a @ bs) \<Longrightarrow>
     \<exists>ms a' h'. owned_allocs a ns h = Inr (ms, a', h') \<and> holds h' (arena_blocks a' @ bs) \<and>
       set ms \<subseteq> set (arena_blocks a') \<and> set (arena_blocks a) \<subseteq> set (arena_blocks a')"
proof (induction ns arbitrary: a h)
  case (Cons n ns)
  from owned_alloc_from_ok [OF Cons.prems, of 0 n] obtain b m a1 h1 where
    1: "owned_alloc_from 0 a n h = Inr (b, m, a1, h1)" "holds h1 (arena_blocks a1 @ bs)" "m \<in> set (arena_blocks a1)"
      "set (arena_blocks a) \<subseteq> set (arena_blocks a1)" by blast
  from Cons.IH [OF 1(2)] obtain ms a2 h2 where
    "owned_allocs a1 ns h1 = Inr (ms, a2, h2)" "holds h2 (arena_blocks a2 @ bs)"
      "set ms \<subseteq> set (arena_blocks a2)" "set (arena_blocks a1) \<subseteq> set (arena_blocks a2)" by blast
  with 1 show ?case by auto
qed simp

lemma arena_destroy_holds: "holds h (arena_blocks a @ bs) \<Longrightarrow> \<exists>h'. arena_destroy a h = Inr h' \<and> holds h' bs"
proof (induction a arbitrary: h)
  case (Last p d s)
  from release_holds [of h d "s # bs"] Last release_holds [of _ s bs] show ?case by fastforce
next
  case (Chained p d s a)
  from release_holds [of h d "s # arena_blocks a @ bs"] Chained.prems obtain h1 where
    "release d h = Inr h1" "holds h1 (s # arena_blocks a @ bs)" by auto
  with release_holds [of h1 s "arena_blocks a @ bs"] Chained.IH show ?case by fastforce
qed

lemma arena_destroy_frees:
  "arena_destroy a h = Inr h' \<Longrightarrow> set (arena_blocks a) \<subseteq> live h \<and> live h' = live h - set (arena_blocks a)"
proof (induction a arbitrary: h)
  case (Chained p d s a)
  then obtain h1 h2 where "release d h = Inr h1" "release s h1 = Inr h2" "arena_destroy a h2 = Inr h'"
    by (auto simp: rbind_eq_Inr_iff)
  with Chained.IH [of h2] show ?case by (auto dest!: release_needs)
qed (auto simp: rbind_eq_Inr_iff dest!: release_needs)

interpretation arenas: resource owned_arena_create arena_destroy arena_blocks
proof (unfold_locales, goal_cases)
  case (1 h bs r h')
  then show ?case by (auto simp: owned_arena_create_def split: prod.splits dest: page_create_holds)
next
  case (2 h r bs)
  then show ?case by (rule arena_destroy_holds)
next
  case (3 r h h')
  then show ?case by (rule arena_destroy_frees)
next
  case (4 r)
  then show ?case by (cases r) simp_all
qed

text \<open>A reset gives the memory out again: the next request that fits the first page gets its beginning.\<close>

lemma reset_reuses:
  assumes "n \<le> psize p"
  shows "\<exists>a. arena_alloc (arena_reset (p # ps)) n = Inr (\<lparr>bpage = 0, boff = 0, blen = n\<rparr>, a)"
  using assms by (simp add: arena_alloc_def)

section \<open>Growable arrays\<close>

record 'a owned_hector =
  array :: "'a hector"
  hstruct :: nat
  hmem :: nat

definition owned_hector_create :: "nat \<Rightarrow> heap \<Rightarrow> 'a owned_hector \<times> heap" where
  \<comment> \<open>\<^verbatim>\<open>hector_create\<close> without an arena\<close>
  "owned_hector_create n h =
     (let (s, h) = malloc h; (m, h) = malloc h in (\<lparr>array = hector_create False n, hstruct = s, hmem = m\<rparr>, h))"

definition owned_hector_resize :: "'a owned_hector \<Rightarrow> nat \<Rightarrow> heap \<Rightarrow> ('a owned_hector \<times> heap) res" where
  \<comment> \<open>\<^verbatim>\<open>realloc\<close> may move the elements: a new block for the old one\<close>
  "owned_hector_resize o_hec n h =
     (if hstruct o_hec \<notin> live h then Inl UseAfterFree
      else rbind (hector_resize (array o_hec) n) (\<lambda>arr.
        if in_arena arr then Inr (o_hec\<lparr>array := arr\<rparr>, h)
        else rbind (release (hmem o_hec) h) (\<lambda>h.
          let (m, h) = malloc h in Inr (o_hec\<lparr>array := arr, hmem := m\<rparr>, h))))"

definition hector_destroy :: "'a owned_hector \<Rightarrow> heap \<Rightarrow> heap res" where
  "hector_destroy o_hec h =
     (if hstruct o_hec \<notin> live h then Inl UseAfterFree
      else if in_arena (array o_hec) then Inr h
      else rbind (release (hmem o_hec) h) (release (hstruct o_hec)))"

definition hector_blocks :: "'a owned_hector \<Rightarrow> nat list" where
  "hector_blocks o_hec = [hmem o_hec, hstruct o_hec]"

lemma hector_destroy_holds:
  assumes "holds h (hector_blocks o_hec @ bs)" and "\<not> in_arena (array o_hec)"
  shows "\<exists>h'. hector_destroy o_hec h = Inr h' \<and> holds h' bs"
proof -
  have "hstruct o_hec \<in> live h" using assms(1) by (simp add: hector_blocks_def holds_live)
  with assms release_holds [of h "hmem o_hec" "hstruct o_hec # bs"] release_holds [of _ "hstruct o_hec" bs]
  show ?thesis by (fastforce simp: hector_destroy_def hector_blocks_def)
qed

lemma hector_resize_holds:
  assumes "holds h (hector_blocks o_hec @ bs)" and "\<not> in_arena (array o_hec)"
    and "hector_resize (array o_hec) n = Inr arr"
  shows "\<exists>o_hec' h'. owned_hector_resize o_hec n h = Inr (o_hec', h') \<and> array o_hec' = arr \<and>
    \<not> in_arena (array o_hec') \<and> holds h' (hector_blocks o_hec' @ bs)"
proof -
  have live: "hstruct o_hec \<in> live h" using assms(1) by (simp add: hector_blocks_def holds_live)
  have arr: "\<not> in_arena arr" using assms(2,3) by (auto simp: hector_resize_def)
  obtain h1 where 1: "release (hmem o_hec) h = Inr h1" "holds h1 (hstruct o_hec # bs)"
    using release_holds [of h "hmem o_hec" "hstruct o_hec # bs"] assms(1) by (auto simp: hector_blocks_def)
  obtain m h2 where 2: "malloc h1 = (m, h2)" by fastforce
  from malloc_holds [OF 1(2) 2] live arr 1(1) 2 assms(3) show ?thesis
    by (simp add: owned_hector_resize_def hector_blocks_def)
qed

section \<open>Channels\<close>

text \<open>The struct of a channel and the ring buffer it points to; the contents of the ring are in \<open>Sewer\<close>.\<close>

record owned_sewer =
  sstruct :: nat
  sring :: nat

definition owned_ring_create :: "heap \<Rightarrow> nat \<times> heap" where
  "owned_ring_create h = malloc h"

definition ringbuf_destroy :: "nat \<Rightarrow> heap \<Rightarrow> heap res" where
  "ringbuf_destroy buf h = release buf h"

definition owned_sewer_create :: "heap \<Rightarrow> owned_sewer \<times> heap" where
  "owned_sewer_create h =
     (let (s, h) = malloc h; (r, h) = owned_ring_create h in (\<lparr>sstruct = s, sring = r\<rparr>, h))"

definition sewer_access :: "owned_sewer \<Rightarrow> heap \<Rightarrow> unit res" where
  \<comment> \<open>what \<^verbatim>\<open>sewer_send\<close> and \<^verbatim>\<open>sewer_consume\<close> read: the struct and its ring\<close>
  "sewer_access q h = (if sstruct q \<in> live h \<and> sring q \<in> live h then Inr () else Inl UseAfterFree)"

definition sewer_destroy :: "owned_sewer \<Rightarrow> heap \<Rightarrow> heap res" where
  "sewer_destroy q h =
     (if sstruct q \<notin> live h then Inl UseAfterFree
      else rbind (ringbuf_destroy (sring q) h) (release (sstruct q)))"

definition sewer_blocks :: "owned_sewer \<Rightarrow> nat list" where
  "sewer_blocks q = [sring q, sstruct q]"

interpretation sewers: resource owned_sewer_create sewer_destroy sewer_blocks
proof (unfold_locales, goal_cases)
  case (1 h bs r h')
  then obtain h1 where "malloc h = (sstruct r, h1)" "malloc h1 = (sring r, h')"
    by (auto simp: owned_sewer_create_def owned_ring_create_def split: prod.splits)
  from malloc_holds [OF malloc_holds [OF 1(1) this(1)] this(2)] show ?case by (simp add: sewer_blocks_def)
next
  case (2 h r bs)
  then have "sstruct r \<in> live h" by (simp add: sewer_blocks_def holds_live)
  with 2 release_holds [of h "sring r" "sstruct r # bs"] release_holds [of _ "sstruct r" bs] show ?case
    by (fastforce simp: sewer_destroy_def ringbuf_destroy_def sewer_blocks_def)
next
  case (3 r h h')
  then show ?case
    by (auto simp: sewer_destroy_def ringbuf_destroy_def sewer_blocks_def rbind_eq_Inr_iff split: if_splits dest!: release_needs)
qed (simp add: sewer_blocks_def)

lemma sewer_access_ok: "holds h bs \<Longrightarrow> set (sewer_blocks q) \<subseteq> set bs \<Longrightarrow> sewer_access q h = Inr ()"
  by (simp add: sewer_access_def sewer_blocks_def holds_live)

section \<open>Copies of strings, and files in memory\<close>

text \<open>
  The copy helpers of \<^verbatim>\<open>aids.c\<close>, over the bytes that can be read from their argument on, and the loader of a whole file with the
  memory it takes. The file is \<open>None\<close> when it cannot be opened; whether \<^verbatim>\<open>malloc\<close> succeeds is an argument, because the
  loader does not end on its failure.
\<close>

definition clone_string :: "owned_arena \<Rightarrow> nat \<Rightarrow> char list \<Rightarrow> heap \<Rightarrow> (char list \<times> owned_arena \<times> heap) res" where
  "clone_string a n str h =
     rbind (owned_alloc_from 0 a (Suc n) h) (\<lambda>(_, _, a, h).
       if n \<le> length str then Inr (take n str @ [NUL], a, h) else Inl OutOfBounds)"

definition clone_cstr :: "owned_arena option \<Rightarrow> char list \<Rightarrow> heap \<Rightarrow> (char list \<times> owned_arena option \<times> heap) res" where
  "clone_cstr arena str h =
     (let n = length (takeWhile (\<lambda>c. c \<noteq> NUL) str)
      in if n = length str then Inl OutOfBounds
         else case arena of
           Some a \<Rightarrow> rbind (owned_alloc_from 0 a (Suc n) h) (\<lambda>(_, _, a, h). Inr (take (Suc n) str, Some a, h))
         | None \<Rightarrow> let (_, h) = malloc h in Inr (take (Suc n) str, None, h))"

record kyle =
  kdata :: "(nat \<times> char list) option"
  klength :: nat

definition kyle_from_file :: "char list option \<Rightarrow> bool \<Rightarrow> heap \<Rightarrow> (kyle \<times> heap) res" where
  "kyle_from_file file allocated h =
     (case file of
        None \<Rightarrow> Inl Panic
      | Some bs \<Rightarrow>
          if allocated then (let (b, h) = malloc h in Inr (\<lparr>kdata = Some (b, bs), klength = length bs\<rparr>, h))
          else Inr (\<lparr>kdata = None, klength = length bs\<rparr>, h))"

definition kyle_destroy :: "kyle \<Rightarrow> heap \<Rightarrow> heap res" where
  \<comment> \<open>\<^verbatim>\<open>free(NULL)\<close> does nothing\<close>
  "kyle_destroy k h = (case kdata k of None \<Rightarrow> Inr h | Some (b, bs) \<Rightarrow> release b h)"

lemma cstr_length: "NUL \<notin> set s \<Longrightarrow> length (takeWhile (\<lambda>c. c \<noteq> NUL) (s @ NUL # rest)) = length s"
  by (induction s) auto

text \<open>A string without terminator inside is copied exactly by both helpers, and copying the copy gives it again.\<close>

lemma clones_agree:
  assumes "holds h (arena_blocks a @ bs)" and "NUL \<notin> set s"
  shows "\<exists>a' h'. clone_string a (length s) (s @ rest) h = Inr (s @ [NUL], a', h') \<and>
    clone_cstr (Some a) (s @ NUL # rest') h = Inr (s @ [NUL], Some a', h') \<and> holds h' (arena_blocks a' @ bs)"
  using owned_alloc_from_ok [OF assms(1), of 0 "Suc (length s)"] cstr_length [OF assms(2), of rest']
  by (auto simp: clone_string_def clone_cstr_def Suc_diff_le)

lemma kyle_loads:
  assumes "holds h bs" and "kyle_from_file (Some file) allocated h = Inr (k, h')"
  shows "klength k = length file \<and> (allocated \<longrightarrow> map_option snd (kdata k) = Some file) \<and>
    (\<exists>h''. kyle_destroy k h' = Inr h'' \<and> holds h'' bs)"
proof (cases allocated)
  case True
  obtain b h1 where b: "malloc h = (b, h1)" by fastforce
  from release_holds [OF malloc_holds [OF assms(1) b]] show ?thesis
    using assms(2) b True by (auto simp: kyle_from_file_def kyle_destroy_def)
next
  case False
  with assms show ?thesis by (auto simp: kyle_from_file_def kyle_destroy_def)
qed

end
