(* ===== verification/Message_Memory.thy ===== *)
theory Message_Memory
  imports Restart Liveness Resources "HOL-Library.AList"
begin

text \<open>
  The memory of the messages. The system of \<open>Actors\<close> is run together with every arena and channel that its threads
  create, hand over through the channels and destroy: the arenas of the messages to the store actor and to the
  persistence actor, the response channels, the arenas of the connections, the arenas in which mutations are
  collected and flushed, and what the main thread creates before it accepts clients and never destroys. Each action of a thread is extended by its allocations (the sizes requested are arguments),
  by the reads through pointers, and by what it destroys. The steps of the store actor after the send of its response, which
  \<open>Actors\<close> takes as one, are split, because the client may run between them. The blocks are those of arenas and channels: the
  structs of the two actors, the queue of flush jobs and the block with the socket of a connection are not among them, nor are
  the keys and entries of the store (\<open>Tank_Memory\<close>).
\<close>

section \<open>State\<close>

text \<open>A message to the store actor: its arena, and the response channel it points to.\<close>

record post =
  post_arena :: owned_arena
  post_reply :: owned_sewer

text \<open>
  What the main thread creates before the first client and nothing destroys: its own arena with the options, the arena and the
  two channels of the server, and the arena of the trainer, if there was a log to replay.
\<close>

record kept =
  main_arena :: owned_arena
  server_arena :: owned_arena
  tank_channel :: owned_sewer
  log_channel :: owned_sewer
  trainer_arena :: "owned_arena option"

text \<open>
  \<open>posted\<close> and \<open>posted_log\<close> are the pointers in the two channels, in the order of their contents; \<open>handled\<close> is
  the message of the turn of the store actor. \<open>result_at\<close> are the blocks of the result that the actor will still read,
  \<open>response_at\<close> the block of the response message whose flag \<^verbatim>\<open>is_consumed\<close> it has still to set. \<open>asker\<close> is the
  client of the turn, and \<open>gone\<close> tells whether its connection ended during the turn.
\<close>

record traffic =
  threads :: actors
  memory :: heap
  kept_objects :: kept
  posted :: "post list"
  handled :: "post option"
  result_at :: "nat list"
  response_at :: "nat option"
  asker :: nat
  gone :: bool
  conn_arenas :: "(nat \<times> owned_arena) list"
  reply_sewers :: "(nat \<times> owned_sewer) list"
  posted_log :: "owned_arena list"
  fill_arena :: owned_arena
  job_arenas :: "owned_arena list"
  flush_arenas :: "owned_arena option list"

definition lookup :: "(nat \<times> 'r) list \<Rightarrow> nat \<Rightarrow> 'r option" where
  "lookup al i = map_of al i"

definition arena_access :: "owned_arena \<Rightarrow> heap \<Rightarrow> unit res" where
  \<comment> \<open>the contents of an arena are read\<close>
  "arena_access a h = (if set (arena_blocks a) \<subseteq> live h then Inr () else Inl UseAfterFree)"

definition blocks_access :: "nat list \<Rightarrow> heap \<Rightarrow> unit res" where
  "blocks_access bs h = (if set bs \<subseteq> live h then Inr () else Inl UseAfterFree)"

definition with_step ::
  "(nat \<Rightarrow> bool) \<Rightarrow> actor_action \<Rightarrow> traffic \<Rightarrow> (actors \<Rightarrow> traffic option res) \<Rightarrow> traffic option res" where
  \<comment> \<open>the step of \<open>Actors\<close>, and if it is taken the rest of the action\<close>
  "with_step cal act t k =
     rbind (actors_step cal act (threads t)) (\<lambda>r. case r of None \<Rightarrow> Inr None | Some s \<Rightarrow> k s)"

fun trainer_reads :: "owned_arena \<Rightarrow> nat list list \<Rightarrow> heap \<Rightarrow> (owned_arena \<times> heap) res" where
  \<comment> \<open>the loop of \<^verbatim>\<open>potty_trainer_train\<close>: what is allocated for each record, and a reset before the next one\<close>
  "trainer_reads a [] h = Inr (a, h)"
| "trainer_reads a (sizes # records) h =
     rbind (owned_allocs a sizes h) (\<lambda>(_, a, h).
       if records = [] then Inr (a, h) else trainer_reads (owned_reset a) records h)"

definition server_objects ::
  "nat list \<Rightarrow> heap \<Rightarrow> (owned_arena \<times> owned_arena \<times> owned_sewer \<times> owned_sewer \<times> heap) res" where
  \<comment> \<open>the start of \<^verbatim>\<open>main\<close>: its arena, \<^verbatim>\<open>create_server_instance\<close>, and the options in the arena of \<^verbatim>\<open>main\<close>\<close>
  "server_objects cli_sizes h =
     (let (main, h) = owned_arena_create h; (arena, h) = owned_arena_create h;
          (tank_q, h) = owned_sewer_create h; (log_q, h) = owned_sewer_create h in
      rbind (owned_allocs main cli_sizes h) (\<lambda>(_, main, h). Inr (main, arena, tank_q, log_q, h)))"

definition train_objects :: "nat list list option \<Rightarrow> heap \<Rightarrow> (owned_arena option \<times> heap) res" where
  \<comment> \<open>\<^verbatim>\<open>potty_trainer_train\<close> makes an arena if there is a log, and returns without destroying it\<close>
  "train_objects log h =
     (case log of
        None \<Rightarrow> Inr (None, h)
      | Some records \<Rightarrow>
          let (a, h) = owned_arena_create h in rbind (trainer_reads a records h) (\<lambda>(a, h). Inr (Some a, h)))"

definition traffic_init ::
  "septic_tank \<Rightarrow> nat \<Rightarrow> nat \<Rightarrow> nat \<Rightarrow> nat \<Rightarrow> nat list \<Rightarrow> nat list \<Rightarrow> nat list list option \<Rightarrow> traffic res" where
  \<comment> \<open>\<^verbatim>\<open>main\<close> up to its loop; \<^verbatim>\<open>potty_create\<close> makes the first arena and allocates the array for the mutations in it\<close>
  "traffic_init t0 tc pc start space cli_sizes sizes log =
     rbind (server_objects cli_sizes heap_empty) (\<lambda>(main, arena, tank_q, log_q, h).
      let (a, h) = owned_arena_create h in
      rbind (owned_allocs a sizes h) (\<lambda>(_, a, h).
      rbind (train_objects log h) (\<lambda>(trainer, h).
        Inr \<lparr>threads = actors_init t0 tc pc start space, memory = h,
             kept_objects = \<lparr>main_arena = main, server_arena = arena, tank_channel = tank_q, log_channel = log_q,
               trainer_arena = trainer\<rparr>,
             posted = [], handled = None, result_at = [],
             response_at = None, asker = 0, gone = False, conn_arenas = [], reply_sewers = [], posted_log = [],
             fill_arena = a, job_arenas = [], flush_arenas = []\<rparr>)))"

section \<open>Connections and clients\<close>

definition conn_open :: "nat \<Rightarrow> traffic \<Rightarrow> traffic option res" where
  \<comment> \<open>the thread of a connection creates its arena\<close>
  "conn_open i t =
     (if lookup (conn_arenas t) i \<noteq> None then Inr None
      else let (a, h) = owned_arena_create (memory t)
           in Inr (Some (t\<lparr>conn_arenas := (i, a) # conn_arenas t, memory := h\<rparr>)))"

definition conn_work :: "nat \<Rightarrow> nat list \<Rightarrow> traffic \<Rightarrow> traffic option res" where
  \<comment> \<open>parsing, arguments and replies: the connection allocates from its own arena\<close>
  "conn_work i sizes t =
     (case lookup (conn_arenas t) i of
        None \<Rightarrow> Inr None
      | Some a \<Rightarrow>
          if responses (threads t) i \<noteq> None then Inr None
          else rbind (owned_allocs a sizes (memory t)) (\<lambda>(_, a, h).
            Inr (Some (t\<lparr>conn_arenas := AList.update i a (conn_arenas t), memory := h\<rparr>))))"

definition conn_reset :: "nat \<Rightarrow> traffic \<Rightarrow> traffic option res" where
  \<comment> \<open>\<^verbatim>\<open>arena_reset\<close> after a reply: the arena keeps its blocks\<close>
  "conn_reset i t =
     (case lookup (conn_arenas t) i of
        None \<Rightarrow> Inr None
      | Some a \<Rightarrow>
          if responses (threads t) i \<noteq> None then Inr None
          else rbind (arena_access a (memory t)) (\<lambda>_.
            Inr (Some (t\<lparr>conn_arenas := AList.update i (owned_reset a) (conn_arenas t)\<rparr>))))"

definition conn_close :: "nat \<Rightarrow> traffic \<Rightarrow> traffic option res" where
  \<comment> \<open>the end of \<^verbatim>\<open>handle_client_socket\<close>; a connection that waits for a response is not there\<close>
  "conn_close i t =
     (case lookup (conn_arenas t) i of
        None \<Rightarrow> Inr None
      | Some a \<Rightarrow>
          if responses (threads t) i \<noteq> None then Inr None
          else rbind (arena_destroy a (memory t)) (\<lambda>h.
            Inr (Some (t\<lparr>conn_arenas := AList.delete i (conn_arenas t),
              gone := (gone t \<or> handled t \<noteq> None \<and> asker t = i), memory := h\<rparr>))))"

definition feed_send :: "(nat \<Rightarrow> bool) \<Rightarrow> nat \<Rightarrow> operation \<Rightarrow> nat list \<Rightarrow> traffic \<Rightarrow> traffic option res" where
  \<comment> \<open>the first half of \<^verbatim>\<open>septic_tank_feed\<close>\<close>
  "feed_send cal i op sizes t =
     (if lookup (conn_arenas t) i = None then Inr None
      else with_step cal (Client_send i op) t (\<lambda>s.
        let (a, h) = owned_arena_create (memory t) in
        rbind (owned_allocs a sizes h) (\<lambda>(_, a, h).
        let (q, h) = owned_sewer_create h in
        Inr (Some (t\<lparr>threads := s, posted := posted t @ [\<lparr>post_arena = a, post_reply = q\<rparr>],
          reply_sewers := (i, q) # reply_sewers t, memory := h\<rparr>)))))"

definition feed_receive :: "(nat \<Rightarrow> bool) \<Rightarrow> nat \<Rightarrow> traffic \<Rightarrow> traffic option res" where
  \<comment> \<open>the second half: receive and destroy the response channel\<close>
  "feed_receive cal i t =
     with_step cal (Client_receive i) t (\<lambda>s.
       case lookup (reply_sewers t) i of
         None \<Rightarrow> Inl NullDeref
       | Some q \<Rightarrow>
           rbind (sewer_access q (memory t)) (\<lambda>_.
           rbind (sewer_destroy q (memory t)) (\<lambda>h.
             Inr (Some (t\<lparr>threads := s, reply_sewers := AList.delete i (reply_sewers t), memory := h\<rparr>)))))"

section \<open>The store actor\<close>

definition turn_start :: "(nat \<Rightarrow> bool) \<Rightarrow> clock \<Rightarrow> nat list \<Rightarrow> traffic \<Rightarrow> traffic option res" where
  \<comment> \<open>receive a message and digest it up to the response; the result is allocated in the arena of the connection\<close>
  "turn_start cal clk sizes t =
     (if handled t \<noteq> None then Inr None
      else with_step cal (Tank_turn clk) t (\<lambda>s.
        case posted t of
          [] \<Rightarrow> Inl NullDeref
        | m # ms \<Rightarrow>
            rbind (arena_access (post_arena m) (memory t)) (\<lambda>_.
            case turn s of
              Answering i r logged \<Rightarrow>
                (case lookup (conn_arenas t) i of
                   None \<Rightarrow> Inl UseAfterFree
                 | Some a \<Rightarrow> rbind (owned_allocs a sizes (memory t)) (\<lambda>(bs, a, h).
                     Inr (Some (t\<lparr>threads := s, posted := ms, handled := Some m, asker := i, gone := False,
                       result_at := (if aof_enabled (tank s) \<and> success r then bs else []),
                       conn_arenas := AList.update i a (conn_arenas t), memory := h\<rparr>))))
            | _ \<Rightarrow> Inr None)))"

definition turn_answer :: "(nat \<Rightarrow> bool) \<Rightarrow> nat \<Rightarrow> traffic \<Rightarrow> traffic option res" where
  \<comment> \<open>allocate the response message, read the pointer to the response channel, send\<close>
  "turn_answer cal n t =
     with_step cal Tank_answer t (\<lambda>s.
       case handled t of
         None \<Rightarrow> Inl NullDeref
       | Some m \<Rightarrow>
           rbind (arena_access (post_arena m) (memory t)) (\<lambda>_.
           case lookup (conn_arenas t) (asker t) of
             None \<Rightarrow> Inl UseAfterFree
           | Some a \<Rightarrow>
               rbind (owned_alloc_from 0 a n (memory t)) (\<lambda>(_, b, a, h).
               rbind (sewer_access (post_reply m) h) (\<lambda>_.
                 Inr (Some (t\<lparr>threads := s, response_at := Some b,
                   conn_arenas := AList.update (asker t) a (conn_arenas t), memory := h\<rparr>))))))"

definition turn_mark :: "traffic \<Rightarrow> traffic option res" where
  \<comment> \<open>\<^verbatim>\<open>response_message->is_consumed = true\<close>\<close>
  "turn_mark t =
     (case response_at t of
        None \<Rightarrow> Inr None
      | Some b \<Rightarrow> rbind (blocks_access [b] (memory t)) (\<lambda>_. Inr (Some (t\<lparr>response_at := None\<rparr>))))"

definition turn_done :: "actors \<Rightarrow> post \<Rightarrow> heap \<Rightarrow> owned_arena list \<Rightarrow> traffic \<Rightarrow> traffic option res" where
  \<comment> \<open>\<^verbatim>\<open>sewer_message_destroy(message, false)\<close>: the response channel belongs to the client\<close>
  "turn_done s m h logs t =
     rbind (arena_destroy (post_arena m) h) (\<lambda>h.
       Inr (Some (t\<lparr>threads := s, handled := None, result_at := [], posted_log := posted_log t @ logs, memory := h\<rparr>)))"

definition turn_end :: "(nat \<Rightarrow> bool) \<Rightarrow> nat list \<Rightarrow> traffic \<Rightarrow> traffic option res" where
  \<comment> \<open>read the resolved mutation, hand a copy in an arena of its own to the log, destroy the message\<close>
  "turn_end cal sizes t =
     (case handled t of
        None \<Rightarrow> Inr None
      | Some m \<Rightarrow>
          if response_at t \<noteq> None then Inr None
          else (case turn (threads t) of
             Answering i r logged \<Rightarrow> Inr None
           | Receiving \<Rightarrow>
               rbind (blocks_access (result_at t) (memory t)) (\<lambda>_.
                 turn_done (threads t) m (memory t) [] t)
           | Feeding mu \<Rightarrow>
               rbind (blocks_access (result_at t) (memory t)) (\<lambda>_.
               with_step cal Tank_feed t (\<lambda>s.
                 let (a, h) = owned_arena_create (memory t) in
                 rbind (owned_allocs a sizes h) (\<lambda>(_, a, h). turn_done s m h [a] t)))))"

section \<open>The persistence actor\<close>

definition collect :: "(nat \<Rightarrow> bool) \<Rightarrow> bool \<Rightarrow> nat list \<Rightarrow> traffic \<Rightarrow> traffic option res" where
  \<comment> \<open>receive a message, copy its mutation into the filling arena, destroy the message\<close>
  "collect cal timed_out sizes t =
     with_step cal (Potty_action (Pump_consume timed_out)) t (\<lambda>s.
       if ringbuf_is_empty (psewer (potty_of (threads t))) then Inr (Some (t\<lparr>threads := s\<rparr>))
       else case posted_log t of
         [] \<Rightarrow> Inl NullDeref
       | a # as \<Rightarrow>
           rbind (arena_access a (memory t)) (\<lambda>_.
           rbind (owned_allocs (fill_arena t) sizes (memory t)) (\<lambda>(_, fill, h).
           rbind (arena_destroy a h) (\<lambda>h.
             Inr (Some (t\<lparr>threads := s, posted_log := as, fill_arena := fill, memory := h\<rparr>))))))"

definition check_flush :: "(nat \<Rightarrow> bool) \<Rightarrow> nat \<Rightarrow> nat \<Rightarrow> nat list \<Rightarrow> nat list \<Rightarrow> traffic \<Rightarrow> traffic option res" where
  \<comment> \<open>\<^verbatim>\<open>potty_flush\<close>: the job is allocated in the filling arena, which it takes with it\<close>
  "check_flush cal now now' job_sizes sizes t =
     with_step cal (Potty_action (Pump_check now now')) t (\<lambda>s.
       let p = potty_of (threads t) in
       if should_flush p now \<and> hector_size (waste p) \<noteq> 0 then
         rbind (owned_allocs (fill_arena t) job_sizes (memory t)) (\<lambda>(_, job, h).
         let (a, h) = owned_arena_create h in
         rbind (owned_allocs a sizes h) (\<lambda>(_, a, h).
           Inr (Some (t\<lparr>threads := s, fill_arena := a, job_arenas := job_arenas t @ [job],
             flush_arenas := flush_arenas t @ (if flusher_running p then [] else [None]), memory := h\<rparr>))))
       else Inr (Some (t\<lparr>threads := s\<rparr>)))"

definition take_job :: "(nat \<Rightarrow> bool) \<Rightarrow> nat \<Rightarrow> bool \<Rightarrow> traffic \<Rightarrow> traffic option res" where
  "take_job cal i opened t =
     with_step cal (Potty_action (Flusher_take i opened)) t (\<lambda>s.
       if hector_size (flush_jobs (potty_of (threads t))) = 0
       then Inr (Some (t\<lparr>threads := s, flush_arenas := take i (flush_arenas t) @ drop (Suc i) (flush_arenas t)\<rparr>))
       else case job_arenas t of
         [] \<Rightarrow> Inl NullDeref
       | a # as \<Rightarrow> Inr (Some (t\<lparr>threads := s, job_arenas := as, flush_arenas := (flush_arenas t)[i := Some a]\<rparr>)))"

definition write_job :: "(nat \<Rightarrow> bool) \<Rightarrow> nat \<Rightarrow> traffic \<Rightarrow> traffic option res" where
  \<comment> \<open>an iteration of the loop of \<^verbatim>\<open>perform_flush\<close>, or after the last one the destruction of the job's arena\<close>
  "write_job cal i t =
     with_step cal (Potty_action (Flusher_write i)) t (\<lambda>s.
       case flush_arenas t ! i of
         None \<Rightarrow> Inl NullDeref
       | Some a \<Rightarrow>
           rbind (arena_access a (memory t)) (\<lambda>_.
           if flushers (psys s) ! i = Looking
           then rbind (arena_destroy a (memory t)) (\<lambda>h.
             Inr (Some (t\<lparr>threads := s, flush_arenas := (flush_arenas t)[i := None], memory := h\<rparr>)))
           else Inr (Some (t\<lparr>threads := s\<rparr>))))"

section \<open>Runs\<close>

datatype traffic_action =
    Conn_open nat
  | Conn_work nat "nat list"
  | Conn_reset nat
  | Conn_close nat
  | Feed_send nat operation "nat list"
  | Feed_receive nat
  | Turn_start clock "nat list"
  | Turn_answer nat
  | Turn_mark
  | Turn_end "nat list"
  | Pump_collect bool "nat list"
  | Check_flush nat nat "nat list" "nat list"
  | Take_job nat bool
  | Write_job nat

fun traffic_step :: "(nat \<Rightarrow> bool) \<Rightarrow> traffic_action \<Rightarrow> traffic \<Rightarrow> traffic option res" where
  "traffic_step cal (Conn_open i) t = conn_open i t"
| "traffic_step cal (Conn_work i sizes) t = conn_work i sizes t"
| "traffic_step cal (Conn_reset i) t = conn_reset i t"
| "traffic_step cal (Conn_close i) t = conn_close i t"
| "traffic_step cal (Feed_send i op sizes) t = feed_send cal i op sizes t"
| "traffic_step cal (Feed_receive i) t = feed_receive cal i t"
| "traffic_step cal (Turn_start clk sizes) t = turn_start cal clk sizes t"
| "traffic_step cal (Turn_answer n) t = turn_answer cal n t"
| "traffic_step cal Turn_mark t = turn_mark t"
| "traffic_step cal (Turn_end sizes) t = turn_end cal sizes t"
| "traffic_step cal (Pump_collect timed_out sizes) t = collect cal timed_out sizes t"
| "traffic_step cal (Check_flush now now' job_sizes sizes) t = check_flush cal now now' job_sizes sizes t"
| "traffic_step cal (Take_job i opened) t = take_job cal i opened t"
| "traffic_step cal (Write_job i) t = write_job cal i t"

inductive traffic_reachable :: "(nat \<Rightarrow> bool) \<Rightarrow> septic_tank \<Rightarrow> nat \<Rightarrow> nat \<Rightarrow> nat \<Rightarrow> nat \<Rightarrow> traffic \<Rightarrow> bool"
  for cal t0 tc pc start space where
  fresh: "traffic_init t0 tc pc start space cli_sizes sizes log = Inr t \<Longrightarrow> traffic_reachable cal t0 tc pc start space t"
| step: "traffic_reachable cal t0 tc pc start space t \<Longrightarrow> traffic_step cal act t = Inr (Some t') \<Longrightarrow>
    traffic_reachable cal t0 tc pc start space t'"

section \<open>Invariant\<close>

definition entry_blocks :: "('r \<Rightarrow> nat list) \<Rightarrow> (nat \<times> 'r) list \<Rightarrow> nat list" where
  "entry_blocks f al = concat (map (f \<circ> snd) al)"

definition option_blocks :: "owned_arena option \<Rightarrow> nat list" where
  "option_blocks x = (case x of None \<Rightarrow> [] | Some a \<Rightarrow> arena_blocks a)"

definition kept_blocks :: "kept \<Rightarrow> nat list" where
  "kept_blocks k =
     arena_blocks (main_arena k) @ arena_blocks (server_arena k) @ sewer_blocks (tank_channel k) @
     sewer_blocks (log_channel k) @ option_blocks (trainer_arena k)"

definition all_blocks :: "traffic \<Rightarrow> nat list" where
  \<comment> \<open>every block has exactly one owner\<close>
  "all_blocks t =
     concat (map (arena_blocks \<circ> post_arena) (posted t)) @ option_blocks (map_option post_arena (handled t)) @
     entry_blocks arena_blocks (conn_arenas t) @ entry_blocks sewer_blocks (reply_sewers t) @
     concat (map arena_blocks (posted_log t)) @ arena_blocks (fill_arena t) @
     concat (map arena_blocks (job_arenas t)) @ concat (map option_blocks (flush_arenas t)) @
     kept_blocks (kept_objects t)"

definition pointers_ok :: "traffic \<Rightarrow> bool" where
  \<comment> \<open>the pointers go with the contents of the channels, and each waiting client has its channel and its arena\<close>
  "pointers_ok t \<longleftrightarrow>
     distinct (map fst (conn_arenas t)) \<and> distinct (map fst (reply_sewers t)) \<and>
     (\<forall>i. responses (threads t) i = None \<longleftrightarrow> lookup (reply_sewers t) i = None) \<and>
     (\<forall>i. lookup (conn_arenas t) i = None \<longrightarrow> lookup (reply_sewers t) i = None) \<and>
     list_all2 (\<lambda>x m. lookup (reply_sewers t) (fst x) = Some (post_reply m)) (ring_content (tsewer (threads t))) (posted t) \<and>
     length (posted_log t) = length (ring_content (psewer (potty_of (threads t)))) \<and>
     length (job_arenas t) = length (elems (flush_jobs (potty_of (threads t)))) \<and>
     list_all2 (\<lambda>f x. x = None \<longleftrightarrow> f = Looking) (flushers (psys (threads t))) (flush_arenas t)"

definition turn_ok :: "traffic \<Rightarrow> bool" where
  "turn_ok t \<longleftrightarrow>
     (handled t = None \<longrightarrow> turn (threads t) = Receiving \<and> result_at t = [] \<and> response_at t = None) \<and>
     (\<forall>i r logged. turn (threads t) = Answering i r logged \<longrightarrow> asker t = i \<and> \<not> gone t \<and> response_at t = None \<and>
        (\<exists>m. handled t = Some m \<and> lookup (reply_sewers t) i = Some (post_reply m))) \<and>
     (handled t \<noteq> None \<and> \<not> gone t \<longrightarrow> (\<exists>a. lookup (conn_arenas t) (asker t) = Some a \<and>
        set (result_at t) \<union> set_option (response_at t) \<subseteq> set (arena_blocks a)))"

definition traffic_inv :: "traffic \<Rightarrow> bool" where
  "traffic_inv t \<longleftrightarrow> holds (memory t) (all_blocks t) \<and> pointers_ok t \<and> turn_ok t"

lemma lookup_simps [simp]:
  "lookup [] j = None" "lookup ((i, a) # al) j = (if j = i then Some a else lookup al j)"
  "lookup (AList.update i a al) j = (if j = i then Some a else lookup al j)"
  "lookup (AList.delete i al) j = (if j = i then None else lookup al j)"
  by (simp_all add: lookup_def update_conv' delete_conv')

lemma lookup_keys: "lookup al i = None \<longleftrightarrow> i \<notin> fst ` set al"
  by (simp add: lookup_def map_of_eq_None_iff)

lemma entry_update:
  "lookup al i = Some a \<Longrightarrow> mset (entry_blocks f (AList.update i b al)) + mset (f a) = mset (entry_blocks f al) + mset (f b)"
  by (induction al) (auto simp: entry_blocks_def split: if_splits)

lemma entry_delete:
  "distinct (map fst al) \<Longrightarrow> lookup al i = Some a \<Longrightarrow> mset (entry_blocks f al) = mset (f a) + mset (entry_blocks f (AList.delete i al))"
  by (induction al) (auto simp: entry_blocks_def split: if_splits)

lemma entry_Cons [simp]: "entry_blocks f ((i, a) # al) = f a @ entry_blocks f al"
  by (simp add: entry_blocks_def)

section \<open>Each action keeps the invariant\<close>

definition moves_with :: "actors option res \<Rightarrow> traffic option res \<Rightarrow> bool" where
  \<comment> \<open>the memory adds no fault to a step of \<open>Actors\<close>\<close>
  "moves_with b r \<longleftrightarrow>
     (case b of
        Inl e \<Rightarrow> r = Inl e
      | Inr None \<Rightarrow> r = Inr None
      | Inr (Some s) \<Rightarrow> \<exists>t'. r = Inr (Some t') \<and> threads t' = s \<and> traffic_inv t')"

lemma with_step_moves:
  assumes "\<And>s. actors_step cal act (threads t) = Inr (Some s) \<Longrightarrow> \<exists>t'. k s = Inr (Some t') \<and> threads t' = s \<and> traffic_inv t'"
  shows "moves_with (actors_step cal act (threads t)) (with_step cal act t k)"
  using assms by (auto simp: moves_with_def with_step_def split: sum.split option.split)

lemma distinct_present: "lookup al i \<noteq> None \<Longrightarrow> map fst (AList.update i b al) = map fst al"
  by (simp add: lookup_keys update_keys)

lemma conn_blocks:
  assumes "distinct (map fst (conn_arenas t))" and "lookup (conn_arenas t) i = Some a"
  shows "mset (all_blocks t) =
      mset (arena_blocks a) + mset (all_blocks (t\<lparr>conn_arenas := AList.delete i (conn_arenas t)\<rparr>))"
    and "mset (all_blocks (t\<lparr>conn_arenas := AList.update i b (conn_arenas t)\<rparr>)) =
      mset (arena_blocks b) + mset (all_blocks (t\<lparr>conn_arenas := AList.delete i (conn_arenas t)\<rparr>))"
proof -
  have "distinct (map fst (AList.update i b (conn_arenas t)))" "lookup (AList.update i b (conn_arenas t)) i = Some b"
    using assms by (simp_all add: distinct_present)
  from entry_delete [OF this, of arena_blocks] entry_delete [OF assms, of arena_blocks]
  show "mset (all_blocks t) =
      mset (arena_blocks a) + mset (all_blocks (t\<lparr>conn_arenas := AList.delete i (conn_arenas t)\<rparr>))"
    "mset (all_blocks (t\<lparr>conn_arenas := AList.update i b (conn_arenas t)\<rparr>)) =
      mset (arena_blocks b) + mset (all_blocks (t\<lparr>conn_arenas := AList.delete i (conn_arenas t)\<rparr>))"
    by (simp_all add: all_blocks_def AList.delete_update_same)
qed

lemma conn_alloc:
  assumes "traffic_inv t" and "lookup (conn_arenas t) i = Some a"
  shows "\<exists>bs b h. owned_allocs a sizes (memory t) = Inr (bs, b, h) \<and>
    holds h (all_blocks (t\<lparr>conn_arenas := AList.update i b (conn_arenas t)\<rparr>)) \<and>
    set bs \<subseteq> set (arena_blocks b) \<and> set (arena_blocks a) \<subseteq> set (arena_blocks b)"
proof -
  have d: "distinct (map fst (conn_arenas t))" using assms(1) by (simp add: traffic_inv_def pointers_ok_def)
  note blocks = conn_blocks [OF d assms(2)]
  have "holds (memory t) (arena_blocks a @ all_blocks (t\<lparr>conn_arenas := AList.delete i (conn_arenas t)\<rparr>))"
    using assms(1) blocks(1) by (auto simp: traffic_inv_def intro: holds_mset)
  from owned_allocs_ok [OF this, of sizes] obtain bs b h where
    "owned_allocs a sizes (memory t) = Inr (bs, b, h)"
    "holds h (arena_blocks b @ all_blocks (t\<lparr>conn_arenas := AList.delete i (conn_arenas t)\<rparr>))"
    "set bs \<subseteq> set (arena_blocks b)" "set (arena_blocks a) \<subseteq> set (arena_blocks b)" by blast
  moreover from this(2) have "holds h (all_blocks (t\<lparr>conn_arenas := AList.update i b (conn_arenas t)\<rparr>))"
    by (rule holds_mset) (simp add: blocks(2))
  ultimately show ?thesis by blast
qed

lemma pointers_update:
  "pointers_ok t \<Longrightarrow> lookup (conn_arenas t) i \<noteq> None \<Longrightarrow> pointers_ok (t\<lparr>conn_arenas := AList.update i b (conn_arenas t)\<rparr>)"
  unfolding pointers_ok_def by (simp add: distinct_present)

lemma turn_update:
  assumes "turn_ok t" and "lookup (conn_arenas t) i = Some a" and "set (arena_blocks a) \<subseteq> set (arena_blocks b)"
  shows "turn_ok (t\<lparr>conn_arenas := AList.update i b (conn_arenas t)\<rparr>)"
proof (cases "asker t = i")
  case True
  with assms show ?thesis by (auto simp: turn_ok_def)
next
  case False
  with assms show ?thesis by (simp add: turn_ok_def)
qed

lemma traffic_inv_memory: "holds h (all_blocks t) \<Longrightarrow> pointers_ok t \<Longrightarrow> turn_ok t \<Longrightarrow> traffic_inv (t\<lparr>memory := h\<rparr>)"
  by (simp add: traffic_inv_def all_blocks_def pointers_ok_def turn_ok_def)

definition allowed :: "(actors \<Rightarrow> bool) \<Rightarrow> traffic option res \<Rightarrow> bool" where
  \<comment> \<open>no fault, the invariant is kept, and the threads are left in a state with \<open>P\<close>\<close>
  "allowed P r \<longleftrightarrow> (\<exists>x. r = Inr x \<and> (\<forall>t'. x = Some t' \<longrightarrow> traffic_inv t' \<and> P (threads t')))"

lemma allowed_simps [simp]:
  "allowed P (Inr None)" "allowed P (Inr (Some t)) \<longleftrightarrow> traffic_inv t \<and> P (threads t)" "\<not> allowed P (Inl e)"
  by (simp_all add: allowed_def)

lemma conn_work_ok:
  assumes "traffic_inv t"
  shows "allowed (\<lambda>s. s = threads t) (conn_work i sizes t)"
proof (cases "lookup (conn_arenas t) i")
  case (Some a)
  from conn_alloc [OF assms this, of sizes] obtain bs b h where
    "owned_allocs a sizes (memory t) = Inr (bs, b, h)"
    "holds h (all_blocks (t\<lparr>conn_arenas := AList.update i b (conn_arenas t)\<rparr>))" "set (arena_blocks a) \<subseteq> set (arena_blocks b)"
    by blast
  with assms Some pointers_update [of t i b] turn_update [of t i a b]
    traffic_inv_memory [of h "t\<lparr>conn_arenas := AList.update i b (conn_arenas t)\<rparr>"] show ?thesis
    by (simp add: conn_work_def traffic_inv_def)
qed (simp add: conn_work_def)

lemma conn_open_ok:
  assumes inv: "traffic_inv t"
  shows "allowed (\<lambda>s. s = threads t) (conn_open i t)"
proof (cases "lookup (conn_arenas t) i")
  case None
  obtain a h where c: "owned_arena_create (memory t) = (a, h)" by fastforce
  let ?t = "t\<lparr>conn_arenas := (i, a) # conn_arenas t\<rparr>"
  from inv have "holds h (arena_blocks a @ all_blocks t)"
    by (intro arenas.create_holds [OF _ c]) (simp add: traffic_inv_def)
  then have "holds h (all_blocks ?t)" by (rule holds_mset) (simp add: all_blocks_def)
  moreover have "pointers_ok ?t" "turn_ok ?t"
    using inv None unfolding traffic_inv_def pointers_ok_def turn_ok_def
    by (simp_all add: lookup_keys [symmetric]) auto
  ultimately show ?thesis
    using None c traffic_inv_memory [of h ?t] by (simp add: conn_open_def)
qed (simp add: conn_open_def)

lemma conn_close_ok:
  assumes inv: "traffic_inv t"
  shows "allowed (\<lambda>s. s = threads t) (conn_close i t)"
proof (cases "lookup (conn_arenas t) i = None \<or> responses (threads t) i \<noteq> None")
  case False
  then obtain a where a: "lookup (conn_arenas t) i = Some a" and none: "responses (threads t) i = None" by auto
  let ?t = "t\<lparr>conn_arenas := AList.delete i (conn_arenas t), gone := (gone t \<or> handled t \<noteq> None \<and> asker t = i)\<rparr>"
  have d: "distinct (map fst (conn_arenas t))" using inv by (simp add: traffic_inv_def pointers_ok_def)
  from arenas.destroy_one [OF _ conn_blocks(1) [OF d a]] inv obtain h where
    h: "arena_destroy a (memory t) = Inr h" "holds h (all_blocks (t\<lparr>conn_arenas := AList.delete i (conn_arenas t)\<rparr>))"
    by (auto simp: traffic_inv_def)
  from h(2) have "holds h (all_blocks ?t)" by (simp add: all_blocks_def)
  moreover have idle: "lookup (reply_sewers t) i = None" using inv none by (simp add: traffic_inv_def pointers_ok_def)
  then have "pointers_ok ?t"
    using inv unfolding traffic_inv_def pointers_ok_def by (auto simp: distinct_delete)
  moreover have "turn_ok ?t"
  proof (cases "asker t = i")
    case True
    have "turn (threads t) \<noteq> Answering j r logged" for j r logged
    proof
      assume "turn (threads t) = Answering j r logged"
      then have "lookup (reply_sewers t) (asker t) \<noteq> None" using inv unfolding traffic_inv_def turn_ok_def by blast
      with idle True show False by simp
    qed
    with inv True show ?thesis by (cases "handled t") (simp_all add: traffic_inv_def turn_ok_def)
  next
    case False
    with inv show ?thesis by (simp add: traffic_inv_def turn_ok_def)
  qed
  ultimately show ?thesis
    using a none h(1) traffic_inv_memory [of h ?t] by (simp add: conn_close_def)
qed (auto simp: conn_close_def split: option.split)

text \<open>A new arena with what is allocated in it at once.\<close>

lemma new_arena:
  assumes "holds h bs"
  shows "\<exists>a h1 ms b h2. owned_arena_create h = (a, h1) \<and> owned_allocs a sizes h1 = Inr (ms, b, h2) \<and>
    holds h2 (arena_blocks b @ bs)"
proof -
  obtain a h1 where a: "owned_arena_create h = (a, h1)" by fastforce
  from owned_allocs_ok [OF arenas.create_holds [OF assms a], of sizes] a show ?thesis by blast
qed

lemma feed_send_ok:
  assumes inv: "traffic_inv t" and ok: "base_ok (threads t)" and conn: "lookup (conn_arenas t) i \<noteq> None"
  shows "moves_with (actors_step cal (Client_send i op) (threads t)) (feed_send cal i op sizes t)"
  unfolding feed_send_def if_not_P [OF conn]
proof (rule with_step_moves, goal_cases)
  case (1 s)
  then have st: "client_send i op (threads t) = Inr (Some s)" by simp
  note f = send_facts [OF st conjunct1 [OF base_wf [OF ok]]]
  obtain a h1 ms b h2 where a: "owned_arena_create (memory t) = (a, h1)" "owned_allocs a sizes h1 = Inr (ms, b, h2)"
      "holds h2 (arena_blocks b @ all_blocks t)"
    using new_arena [of "memory t" "all_blocks t" sizes] inv by (auto simp: traffic_inv_def)
  obtain q h where q: "owned_sewer_create h2 = (q, h)" by fastforce
  let ?t = "t\<lparr>threads := s, posted := posted t @ [\<lparr>post_arena = b, post_reply = q\<rparr>], reply_sewers := (i, q) # reply_sewers t\<rparr>"
  have "holds h (all_blocks ?t)"
    using sewers.create_holds [OF a(3) q] by (rule holds_mset) (simp add: all_blocks_def)
  moreover have new: "lookup (reply_sewers t) i = None"
    using inv f(4) by (simp add: traffic_inv_def pointers_ok_def)
  have "pointers_ok ?t"
  proof -
    have fresh: "i \<notin> fst ` set (reply_sewers t)" using new by (simp add: lookup_keys)
    have "list_all2 (\<lambda>x m. lookup ((i, q) # reply_sewers t) (fst x) = Some (post_reply m))
        (ring_content (tsewer (threads t))) (posted t)"
      using inv new unfolding traffic_inv_def pointers_ok_def
      by (auto elim!: list_all2_mono)
    from list_all2_appendI [OF this, of "[(i, op)]" "[\<lparr>post_arena = b, post_reply = q\<rparr>]"]
    have "list_all2 (\<lambda>x m. lookup ((i, q) # reply_sewers t) (fst x) = Some (post_reply m))
        (ring_content (tsewer s)) (posted t @ [\<lparr>post_arena = b, post_reply = q\<rparr>])"
      by (simp add: f(1))
    moreover have "responses s j = None \<longleftrightarrow> j \<noteq> i \<and> responses (threads t) j = None" for j
      using f(5) [of j] by auto
    ultimately show ?thesis
      using inv conn fresh f(2) by (simp add: traffic_inv_def pointers_ok_def)
  qed
  moreover have "turn_ok ?t"
    using inv new unfolding traffic_inv_def turn_ok_def by (auto simp: f(3))
  ultimately show ?case
    using a q traffic_inv_memory [of h ?t] by auto
qed

lemma feed_receive_ok:
  assumes inv: "traffic_inv t" and ok: "base_ok (threads t)"
  shows "moves_with (actors_step cal (Client_receive i) (threads t)) (feed_receive cal i t)"
  unfolding feed_receive_def
proof (rule with_step_moves, goal_cases)
  case (1 s)
  then have st: "client_receive i (threads t) = Inr (Some s)" by simp
  note f = receive_facts [OF st]
  have "i \<notin> set (waiting (threads t))"
    using f(6) ok f(4) by (auto simp: base_ok_def channels_ok_def)
  then have idle: "(i, b) \<notin> set (ring_content (tsewer (threads t)))" "turn (threads t) \<noteq> Answering i r logged" for b r logged
    by (auto simp: waiting_def image_iff)
  obtain q where q: "lookup (reply_sewers t) i = Some q"
    using inv f(4) by (cases "lookup (reply_sewers t) i") (auto simp: traffic_inv_def pointers_ok_def)
  have d: "distinct (map fst (reply_sewers t))" using inv by (simp add: traffic_inv_def pointers_ok_def)
  let ?t = "t\<lparr>threads := s, reply_sewers := AList.delete i (reply_sewers t)\<rparr>"
  have m: "mset (all_blocks t) = mset (sewer_blocks q) + mset (all_blocks ?t)"
    using entry_delete [OF d q, of sewer_blocks] by (simp add: all_blocks_def)
  then have "set (sewer_blocks q) \<subseteq> set (all_blocks t)" by (metis set_mset_mset set_mset_union Un_upper1)
  with inv have access: "sewer_access q (memory t) = Inr ()" by (auto simp: traffic_inv_def intro: sewer_access_ok)
  from sewers.destroy_one [OF _ m] inv obtain h where h: "sewer_destroy q (memory t) = Inr h" "holds h (all_blocks ?t)"
    by (auto simp: traffic_inv_def)
  moreover have "pointers_ok ?t"
  proof -
    have "list_all2 (\<lambda>x m. lookup (AList.delete i (reply_sewers t)) (fst x) = Some (post_reply m))
        (ring_content (tsewer (threads t))) (posted t)"
      using inv idle(1) unfolding traffic_inv_def pointers_ok_def
      by (auto elim!: list.rel_mono_strong)
    moreover have "responses s j = None \<longleftrightarrow> j = i \<or> responses (threads t) j = None" for j
      using f(5) [of j] by auto
    ultimately show ?thesis
      using inv f(1,2) by (simp add: traffic_inv_def pointers_ok_def distinct_delete)
  qed
  moreover have "turn_ok ?t"
    using inv idle(2) unfolding traffic_inv_def turn_ok_def by (auto simp: f(3))
  ultimately show ?case
    using q access traffic_inv_memory [of h ?t] by auto
qed

lemma traffic_live: "traffic_inv t \<Longrightarrow> live (memory t) = set (all_blocks t)"
  by (auto simp: traffic_inv_def dest: holds_live)

lemma arena_access_ok: "traffic_inv t \<Longrightarrow> set (arena_blocks a) \<subseteq> set (all_blocks t) \<Longrightarrow> arena_access a (memory t) = Inr ()"
  by (simp add: arena_access_def traffic_live)

lemma entry_in: "lookup al i = Some a \<Longrightarrow> set (f a) \<subseteq> set (entry_blocks f al)"
  by (force simp: entry_blocks_def lookup_def dest: map_of_SomeD)

lemma conn_reset_ok:
  assumes inv: "traffic_inv t"
  shows "allowed (\<lambda>s. s = threads t) (conn_reset i t)"
proof (cases "lookup (conn_arenas t) i")
  case (Some a)
  let ?t = "t\<lparr>conn_arenas := AList.update i (owned_reset a) (conn_arenas t)\<rparr>"
  have "distinct (map fst (conn_arenas t))" using inv by (simp add: traffic_inv_def pointers_ok_def)
  from conn_blocks [OF this Some] have "mset (all_blocks ?t) = mset (all_blocks t)" by simp
  with inv have "holds (memory t) (all_blocks ?t)" by (auto simp: traffic_inv_def intro: holds_mset)
  with inv have "traffic_inv ?t"
    using pointers_update [of t i "owned_reset a"] turn_update [of t i a "owned_reset a"] Some by (simp add: traffic_inv_def)
  moreover have "arena_access a (memory t) = Inr ()"
    using entry_in [OF Some, of arena_blocks] by (intro arena_access_ok [OF inv]) (auto simp: all_blocks_def)
  ultimately show ?thesis using Some by (simp add: conn_reset_def)
qed (simp add: conn_reset_def)

text \<open>As long as its connection is there, what the store actor will still read or write is allocated.\<close>

lemma turn_blocks_live:
  assumes inv: "traffic_inv t" and "handled t \<noteq> None" and "\<not> gone t"
  shows "set (result_at t) \<union> set_option (response_at t) \<subseteq> live (memory t)"
proof -
  obtain a where "lookup (conn_arenas t) (asker t) = Some a"
    "set (result_at t) \<union> set_option (response_at t) \<subseteq> set (arena_blocks a)"
    using assms by (auto simp: traffic_inv_def turn_ok_def)
  with entry_in [of "conn_arenas t" "asker t" a arena_blocks] show ?thesis
    by (auto simp: traffic_live [OF inv] all_blocks_def)
qed

lemma turn_start_ok:
  assumes inv: "traffic_inv t" and ok: "base_ok (threads t)" and none: "handled t = None"
  shows "moves_with (actors_step cal (Tank_turn clk) (threads t)) (turn_start cal clk sizes t)"
  unfolding turn_start_def none simp_thms if_False
proof (rule with_step_moves, goal_cases)
  case (1 s)
  then have st: "tank_turn cal clk (threads t) = Inr (Some s)" by simp
  note f = tank_turn_facts [OF st conjunct1 [OF base_wf [OF ok]]]
  from f(1) obtain i op r logged where c: "ring_content (tsewer (threads t)) = (i, op) # ring_content (tsewer s)"
    and turn: "turn s = Answering i r logged" by blast
  from inv c obtain m ms where m: "posted t = m # ms" "lookup (reply_sewers t) i = Some (post_reply m)"
      "list_all2 (\<lambda>x m. lookup (reply_sewers t) (fst x) = Some (post_reply m)) (ring_content (tsewer s)) ms"
    by (auto simp: traffic_inv_def pointers_ok_def list_all2_Cons1)
  obtain a where a: "lookup (conn_arenas t) i = Some a"
    using inv m(2) by (cases "lookup (conn_arenas t) i") (auto simp: traffic_inv_def pointers_ok_def)
  from conn_alloc [OF inv a, of sizes] obtain bs b h where
    b: "owned_allocs a sizes (memory t) = Inr (bs, b, h)"
    "holds h (all_blocks (t\<lparr>conn_arenas := AList.update i b (conn_arenas t)\<rparr>))" "set bs \<subseteq> set (arena_blocks b)" by blast
  let ?t = "t\<lparr>threads := s, posted := ms, handled := Some m, asker := i, gone := False,
      result_at := (if aof_enabled (tank s) \<and> success r then bs else []),
      conn_arenas := AList.update i b (conn_arenas t)\<rparr>"
  have access: "arena_access (post_arena m) (memory t) = Inr ()"
    using m(1) by (intro arena_access_ok [OF inv]) (auto simp: all_blocks_def)
  have "holds h (all_blocks ?t)"
    using b(2) by (rule holds_mset) (simp add: all_blocks_def m(1) none option_blocks_def)
  moreover have "pointers_ok ?t"
    using inv a m(3) f(3,4) by (simp add: traffic_inv_def pointers_ok_def distinct_present)
  moreover have "turn_ok ?t"
    using inv none turn m(2) b(3) by (auto simp: traffic_inv_def turn_ok_def)
  ultimately show ?case
    using m(1) a b(1) access turn traffic_inv_memory [of h ?t] by auto
qed

lemma turn_answer_ok:
  assumes inv: "traffic_inv t"
  shows "moves_with (actors_step cal Tank_answer (threads t)) (turn_answer cal n t)"
  unfolding turn_answer_def
proof (rule with_step_moves, goal_cases)
  case (1 s)
  then have st: "tank_answer (threads t) = Inr (Some s)" by simp
  note f = tank_answer_facts [OF st]
  from f(1) obtain i r logged where turn: "turn (threads t) = Answering i r logged"
    and turn': "turn s \<noteq> Answering i' r' logged'" for i' r' logged' by blast
  then obtain m where m: "handled t = Some m" "lookup (reply_sewers t) i = Some (post_reply m)" "asker t = i"
      "\<not> gone t" using inv by (auto simp: traffic_inv_def turn_ok_def)
  then obtain a where a: "lookup (conn_arenas t) i = Some a" "set (result_at t) \<subseteq> set (arena_blocks a)"
    using inv by (auto simp: traffic_inv_def turn_ok_def)
  from conn_alloc [OF inv a(1), of "[n]"] obtain b c h x where
    b: "owned_alloc_from 0 a n (memory t) = Inr (x, b, c, h)"
      "holds h (all_blocks (t\<lparr>conn_arenas := AList.update i c (conn_arenas t)\<rparr>))"
      "b \<in> set (arena_blocks c)" "set (arena_blocks a) \<subseteq> set (arena_blocks c)"
    by (auto simp: rbind_eq_Inr_iff)
  let ?t = "t\<lparr>threads := s, response_at := Some b, conn_arenas := AList.update i c (conn_arenas t)\<rparr>"
  have access: "arena_access (post_arena m) (memory t) = Inr ()"
    using m(1) by (intro arena_access_ok [OF inv]) (auto simp: all_blocks_def option_blocks_def)
  have "set (sewer_blocks (post_reply m)) \<subseteq> set (entry_blocks sewer_blocks (reply_sewers t))"
    by (rule entry_in [OF m(2)])
  then have "sewer_access (post_reply m) h = Inr ()"
    by (intro sewer_access_ok [OF b(2)]) (auto simp: all_blocks_def)
  moreover have "holds h (all_blocks ?t)"
    using b(2) by (simp add: all_blocks_def)
  moreover have "pointers_ok ?t"
    using inv a(1) f(2,3) f(4) by (simp add: traffic_inv_def pointers_ok_def distinct_present)
  moreover have "turn_ok ?t"
    using m turn' a(2) b(3,4) by (auto simp: turn_ok_def)
  ultimately show ?case
    using m a(1) b(1) access traffic_inv_memory [of h ?t] by auto
qed

lemma turn_mark_ok: "traffic_inv t \<Longrightarrow> allowed (\<lambda>s. s = threads t) (turn_mark t) \<or> turn_mark t = Inl UseAfterFree \<and> gone t"
proof (cases "response_at t")
  case (Some b)
  assume inv: "traffic_inv t"
  then have handled: "handled t \<noteq> None" using Some by (auto simp: traffic_inv_def turn_ok_def)
  show ?thesis
  proof (cases "b \<in> live (memory t)")
    case True
    have "traffic_inv (t\<lparr>response_at := None\<rparr>)"
      using inv handled by (auto simp: traffic_inv_def all_blocks_def pointers_ok_def turn_ok_def)
    with True Some show ?thesis by (simp add: turn_mark_def blocks_access_def)
  next
    case False
    have "gone t" using turn_blocks_live [OF inv handled] False Some by auto
    with False Some show ?thesis by (simp add: turn_mark_def blocks_access_def)
  qed
qed (simp add: turn_mark_def)

lemma turn_done_ok:
  assumes "holds h (arena_blocks (post_arena m) @ all_blocks (t\<lparr>handled := None, posted_log := posted_log t @ logs\<rparr>))"
    and "pointers_ok (t\<lparr>threads := s, posted_log := posted_log t @ logs\<rparr>)"
    and "turn s = Receiving" and "response_at t = None"
  shows "\<exists>t'. turn_done s m h logs t = Inr (Some t') \<and> threads t' = s \<and> traffic_inv t'"
proof -
  let ?t = "t\<lparr>threads := s, handled := None, result_at := [], posted_log := posted_log t @ logs\<rparr>"
  from arenas.destroy_holds [OF assms(1)] obtain h' where h: "arena_destroy (post_arena m) h = Inr h'"
    "holds h' (all_blocks (t\<lparr>handled := None, posted_log := posted_log t @ logs\<rparr>))" by blast
  then have "holds h' (all_blocks ?t)" by (simp add: all_blocks_def)
  moreover have "pointers_ok ?t" using assms(2) by (simp add: pointers_ok_def)
  moreover have "turn_ok ?t" using assms(3,4) by (simp add: turn_ok_def)
  ultimately show ?thesis using h(1) traffic_inv_memory [of h' ?t] by (auto simp: turn_done_def)
qed

lemma handled_blocks:
  "handled t = Some m \<Longrightarrow> mset (all_blocks t) = mset (arena_blocks (post_arena m)) + mset (all_blocks (t\<lparr>handled := None\<rparr>))"
  by (simp add: all_blocks_def option_blocks_def)

lemma log_turn_ok:
  assumes inv: "traffic_inv t" and ok: "base_ok (threads t)" and m: "handled t = Some m" and none: "response_at t = None"
  shows "moves_with (actors_step cal Tank_feed (threads t)) (with_step cal Tank_feed t (\<lambda>s.
    let (a, h) = owned_arena_create (memory t) in rbind (owned_allocs a sizes h) (\<lambda>(_, a, h). turn_done s m h [a] t)))"
proof (rule with_step_moves, goal_cases)
  case (1 s)
  then have st: "tank_feed (threads t) = Inr (Some s)" by simp
  note f = tank_feed_facts [OF st conjunct2 [OF base_wf [OF ok]]]
  obtain a h1 ms b h2 where a: "owned_arena_create (memory t) = (a, h1)" "owned_allocs a sizes h1 = Inr (ms, b, h2)"
      "holds h2 (arena_blocks b @ all_blocks t)"
    using new_arena [of "memory t" "all_blocks t" sizes] inv by (auto simp: traffic_inv_def)
  have "holds h2 (arena_blocks (post_arena m) @ all_blocks (t\<lparr>handled := None, posted_log := posted_log t @ [b]\<rparr>))"
    using a(3) by (rule holds_mset) (simp add: all_blocks_def m option_blocks_def)
  moreover have "pointers_ok (t\<lparr>threads := s, posted_log := posted_log t @ [b]\<rparr>)"
    using inv f(2-6) by (simp add: traffic_inv_def pointers_ok_def)
  ultimately show ?case
    using a(1,2) turn_done_ok [OF _ _ f(1) none] by simp
qed

lemma turn_end_ok:
  assumes inv: "traffic_inv t" and ok: "base_ok (threads t)"
  shows "allowed (\<lambda>s. s = threads t \<or> actors_step cal Tank_feed (threads t) = Inr (Some s)) (turn_end cal sizes t) \<or> turn_end cal sizes t = Inl UseAfterFree \<and> gone t \<or>
    (\<exists>e. turn_end cal sizes t = Inl e \<and> actors_step cal Tank_feed (threads t) = Inl e)"
proof (cases "handled t")
  case (Some m)
  show ?thesis
  proof (cases "response_at t = None \<and> set (result_at t) \<subseteq> live (memory t)")
    case True
    then have access: "blocks_access (result_at t) (memory t) = Inr ()" by (simp add: blocks_access_def)
    show ?thesis
    proof (cases "turn (threads t)")
      case Receiving
      have "holds (memory t) (arena_blocks (post_arena m) @ all_blocks (t\<lparr>handled := None, posted_log := posted_log t @ []\<rparr>))"
        using inv handled_blocks [OF Some] by (auto simp: traffic_inv_def intro: holds_mset)
      with turn_done_ok [of "memory t" m t "[]" "threads t"] inv Receiving True Some access show ?thesis
        by (auto simp: turn_end_def traffic_inv_def)
    next
      case (Feeding mu)
      with log_turn_ok [OF inv ok Some, of cal sizes] True Some access show ?thesis
        by (auto simp: turn_end_def moves_with_def simp del: actors_step.simps split: sum.splits option.splits)
    qed (use Some True in \<open>simp add: turn_end_def\<close>)
  next
    case False
    with turn_blocks_live [OF inv] Some show ?thesis
      by (auto simp: turn_end_def blocks_access_def split: tank_thread.splits)
  qed
qed (simp add: turn_end_def)

lemma collect_ok:
  assumes inv: "traffic_inv t" and ok: "base_ok (threads t)"
  shows "moves_with (actors_step cal (Potty_action (Pump_consume b)) (threads t)) (collect cal b sizes t)"
  unfolding collect_def
proof (rule with_step_moves, goal_cases)
  case (1 s)
  then have "potty_moves (Pump_consume b) (threads t) = Inr (Some s)" by simp
  note m = potty_moves_facts [OF this]
  note f = consume_facts [OF m(1) conjunct2 [OF base_wf [OF ok]]]
  show ?case
  proof (cases "ringbuf_is_empty (psewer (potty_of (threads t)))")
    case True
    have "traffic_inv (t\<lparr>threads := s\<rparr>)"
      using inv m(2-4) f(1,2) f(3) [OF True] by (simp add: traffic_inv_def all_blocks_def pointers_ok_def turn_ok_def)
    with True show ?thesis by auto
  next
    case False
    note len = f(4) [OF False]
    then obtain a as where a: "posted_log t = a # as" "length as = length (ring_content (psewer (potty_of s)))"
      using inv by (cases "posted_log t") (auto simp: traffic_inv_def pointers_ok_def)
    let ?rest = "all_blocks (t\<lparr>posted_log := as\<rparr>)"
    have "holds (memory t) (arena_blocks (fill_arena t) @ arena_blocks a @
        concat (map (arena_blocks \<circ> post_arena) (posted t)) @ option_blocks (map_option post_arena (handled t)) @
        entry_blocks arena_blocks (conn_arenas t) @ entry_blocks sewer_blocks (reply_sewers t) @
        concat (map arena_blocks as) @ concat (map arena_blocks (job_arenas t)) @ concat (map option_blocks (flush_arenas t)) @
        kept_blocks (kept_objects t))"
      (is "holds _ (_ @ _ @ ?others)")
      using inv by (auto simp: traffic_inv_def all_blocks_def a(1) intro: holds_mset)
    from owned_allocs_ok [OF this, of sizes] obtain ms fill h where
      fill: "owned_allocs (fill_arena t) sizes (memory t) = Inr (ms, fill, h)"
        "holds h (arena_blocks fill @ arena_blocks a @ ?others)" by blast
    from arenas.destroy_one [OF fill(2), of a "arena_blocks fill @ ?others"] obtain h' where
      h': "arena_destroy a h = Inr h'" "holds h' (arena_blocks fill @ ?others)" by auto
    let ?t = "t\<lparr>threads := s, posted_log := as, fill_arena := fill\<rparr>"
    have "holds h' (all_blocks ?t)" using h'(2) by (rule holds_mset) (simp add: all_blocks_def)
    moreover have "pointers_ok ?t" using inv m(2,4) f(1,2) a(2) by (simp add: traffic_inv_def pointers_ok_def)
    moreover have "turn_ok ?t" using inv m(3) by (simp add: traffic_inv_def turn_ok_def)
    moreover have "arena_access a (memory t) = Inr ()"
      using a(1) by (intro arena_access_ok [OF inv]) (auto simp: all_blocks_def)
    ultimately show ?thesis
      using False a(1) fill(1) h'(1) traffic_inv_memory [of h' ?t] by auto
  qed
qed

lemma check_flush_ok:
  assumes inv: "traffic_inv t" and ok: "base_ok (threads t)"
  shows "moves_with (actors_step cal (Potty_action (Pump_check now now')) (threads t)) (check_flush cal now now' job_sizes sizes t)"
  unfolding check_flush_def Let_def
proof (rule with_step_moves, goal_cases)
  case (1 s)
  then have "potty_moves (Pump_check now now') (threads t) = Inr (Some s)" by simp
  note m = potty_moves_facts [OF this]
  have "potty_inv (psys (threads t))" using ok by (simp add: base_ok_def)
  note f = check_facts [OF m(1) this]
  let ?flush = "should_flush (potty_of (threads t)) now \<and> hector_size (waste (potty_of (threads t))) \<noteq> 0"
  show ?case
  proof (cases ?flush)
    case False
    have "traffic_inv (t\<lparr>threads := s\<rparr>)"
      using inv m(2-4) f(1) f(3) [OF False] by (simp add: traffic_inv_def all_blocks_def pointers_ok_def turn_ok_def)
    with False show ?thesis by auto
  next
    case True
    have "holds (memory t) (arena_blocks (fill_arena t) @
        concat (map (arena_blocks \<circ> post_arena) (posted t)) @ option_blocks (map_option post_arena (handled t)) @
        entry_blocks arena_blocks (conn_arenas t) @ entry_blocks sewer_blocks (reply_sewers t) @
        concat (map arena_blocks (posted_log t)) @ concat (map arena_blocks (job_arenas t)) @ concat (map option_blocks (flush_arenas t)) @
        kept_blocks (kept_objects t))"
      (is "holds _ (_ @ ?others)")
      using inv by (auto simp: traffic_inv_def all_blocks_def intro: holds_mset)
    from owned_allocs_ok [OF this, of job_sizes] obtain ms job h where
      job: "owned_allocs (fill_arena t) job_sizes (memory t) = Inr (ms, job, h)" "holds h (arena_blocks job @ ?others)" by blast
    from new_arena [OF this(2), of sizes] obtain a h1 ms' b h2 where
      b: "owned_arena_create h = (a, h1)" "owned_allocs a sizes h1 = Inr (ms', b, h2)"
        "holds h2 (arena_blocks b @ arena_blocks job @ ?others)" by blast
    let ?t = "t\<lparr>threads := s, fill_arena := b, job_arenas := job_arenas t @ [job],
        flush_arenas := flush_arenas t @ (if flusher_running (potty_of (threads t)) then [] else [None])\<rparr>"
    have "holds h2 (all_blocks ?t)" using b(3) by (rule holds_mset) (simp add: all_blocks_def option_blocks_def)
    moreover have "pointers_ok ?t"
      using inv m(2,4) f(1) f(2) [OF True] by (auto simp: traffic_inv_def pointers_ok_def intro!: list_all2_appendI)
    moreover have "turn_ok ?t" using inv m(3) by (simp add: traffic_inv_def turn_ok_def)
    ultimately show ?thesis
      using True job(1) b(1,2) traffic_inv_memory [of h2 ?t] by auto
  qed
qed

lemma take_job_ok:
  assumes inv: "traffic_inv t" and ok: "base_ok (threads t)"
  shows "moves_with (actors_step cal (Potty_action (Flusher_take i opened)) (threads t)) (take_job cal i opened t)"
  unfolding take_job_def
proof (rule with_step_moves, goal_cases)
  case (1 s)
  then have "potty_moves (Flusher_take i opened) (threads t) = Inr (Some s)" by simp
  note m = potty_moves_facts [OF this]
  have "potty_inv (psys (threads t))" using ok by (simp add: base_ok_def)
  note f = take_facts [OF m(1) this]
  have l2: "list_all2 (\<lambda>f x. x = None \<longleftrightarrow> f = Looking) (flushers (psys (threads t))) (flush_arenas t)"
    using inv by (simp add: traffic_inv_def pointers_ok_def)
  with f(2,3) have i: "i < length (flush_arenas t)" "flush_arenas t ! i = None"
    by (auto simp: list_all2_conv_all_nth)
  note upd = concat_update [OF i(1), of option_blocks]
  show ?case
  proof (cases "hector_size (flush_jobs (potty_of (threads t))) = 0")
    case True
    let ?fl = "take i (flush_arenas t) @ drop (Suc i) (flush_arenas t)" and ?t = "t\<lparr>threads := s,
        flush_arenas := take i (flush_arenas t) @ drop (Suc i) (flush_arenas t)\<rparr>"
    have "concat (map option_blocks ?fl) = concat (map option_blocks (flush_arenas t))"
      by (subst (3) id_take_nth_drop [OF i(1)]) (simp add: i(2) option_blocks_def)
    then have "all_blocks ?t = all_blocks t" by (simp add: all_blocks_def)
    moreover have "pointers_ok ?t"
      using inv m(2,4) f(1) f(4) [OF True] list_all2_appendI [OF list_all2_takeI [OF l2, of i] list_all2_dropI [OF l2, of "Suc i"]]
      by (simp add: traffic_inv_def pointers_ok_def)
    ultimately have "traffic_inv ?t" using inv m(3) by (simp add: traffic_inv_def turn_ok_def)
    with True show ?thesis by auto
  next
    case False
    from f(5) [OF False] obtain j where j: "flushers (psys s) = (flushers (psys (threads t)))[i := Flushing j 0]"
      and len: "length (elems (flush_jobs (potty_of (threads t)))) = Suc (length (elems (flush_jobs (potty_of s))))"
      by blast
    then obtain a as where a: "job_arenas t = a # as" "length as = length (elems (flush_jobs (potty_of s)))"
      using inv by (cases "job_arenas t") (auto simp: traffic_inv_def pointers_ok_def)
    let ?t = "t\<lparr>threads := s, job_arenas := as, flush_arenas := (flush_arenas t)[i := Some a]\<rparr>"
    have "mset (all_blocks ?t) = mset (all_blocks t)"
      using upd [of "Some a"] by (simp add: all_blocks_def a(1) i(2) option_blocks_def)
    then have "holds (memory t) (all_blocks ?t)" using inv by (auto simp: traffic_inv_def intro: holds_mset)
    moreover have "pointers_ok ?t"
      using inv m(2,4) f(1) a(2) j list_all2_update_cong [OF l2, of "Some a" "Flushing j 0" i]
      by (simp add: traffic_inv_def pointers_ok_def)
    ultimately have "traffic_inv ?t" using inv m(3) by (simp add: traffic_inv_def turn_ok_def all_blocks_def)
    with False a(1) show ?thesis by auto
  qed
qed

lemma write_job_ok:
  assumes inv: "traffic_inv t"
  shows "moves_with (actors_step cal (Potty_action (Flusher_write i)) (threads t)) (write_job cal i t)"
  unfolding write_job_def
proof (rule with_step_moves, goal_cases)
  case (1 s)
  then have "potty_moves (Flusher_write i) (threads t) = Inr (Some s)" by simp
  note m = potty_moves_facts [OF this]
  note f = write_facts [OF m(1)]
  have l2: "list_all2 (\<lambda>f x. x = None \<longleftrightarrow> f = Looking) (flushers (psys (threads t))) (flush_arenas t)"
    using inv by (simp add: traffic_inv_def pointers_ok_def)
  with f(2,3) obtain a where i: "i < length (flush_arenas t)" "flush_arenas t ! i = Some a"
    by (cases "flush_arenas t ! i") (auto simp: list_all2_conv_all_nth)
  have "set (arena_blocks a) \<subseteq> set (concat (map option_blocks (flush_arenas t)))"
    using nth_mem [OF i(1)] i(2) by (force simp: option_blocks_def)
  then have access: "arena_access a (memory t) = Inr ()"
    by (intro arena_access_ok [OF inv]) (auto simp: all_blocks_def)
  show ?case
  proof (cases "flushers (psys s) ! i = Looking")
    case True
    let ?t = "t\<lparr>threads := s, flush_arenas := (flush_arenas t)[i := None]\<rparr>"
    have "mset (all_blocks t) = mset (arena_blocks a) + mset (all_blocks ?t)"
      using concat_update [OF i(1), of option_blocks None] by (simp add: all_blocks_def i(2) option_blocks_def ac_simps)
    from arenas.destroy_one [OF _ this] inv obtain h where
      h: "arena_destroy a (memory t) = Inr h" "holds h (all_blocks ?t)" by (auto simp: traffic_inv_def)
    moreover have "pointers_ok ?t"
      using inv m(2,4) f(1,4) True list_all2_update_cong [OF l2, of None Looking i]
      by (simp add: traffic_inv_def pointers_ok_def)
    moreover have "turn_ok ?t" using inv m(3) by (simp add: traffic_inv_def turn_ok_def)
    ultimately show ?thesis
      using True i(2) access traffic_inv_memory [of h ?t] by auto
  next
    case False
    have "list_all2 (\<lambda>f x. x = None \<longleftrightarrow> f = Looking) (flushers (psys s)) (flush_arenas t)"
      using list_all2_update_cong [OF l2, of "Some a" "flushers (psys s) ! i" i] False f(4) i(2)
      by (simp add: list_update_id [of "flush_arenas t" i, unfolded i(2)])
    then have "traffic_inv (t\<lparr>threads := s\<rparr>)"
      using inv m(2-4) f(1) by (simp add: traffic_inv_def all_blocks_def pointers_ok_def turn_ok_def)
    with False i(2) access show ?thesis by auto
  qed
qed

section \<open>Every reachable state\<close>

lemma moves_withD:
  "moves_with b r \<Longrightarrow> r = Inl e \<Longrightarrow> b = Inl e"
  "moves_with b r \<Longrightarrow> r = Inr (Some t') \<Longrightarrow> b = Inr (Some (threads t')) \<and> traffic_inv t'"
  by (auto simp: moves_with_def split: sum.splits option.splits)

fun base_action :: "traffic_action \<Rightarrow> actor_action option" where
  "base_action (Feed_send i op sizes) = Some (Client_send i op)"
| "base_action (Feed_receive i) = Some (Client_receive i)"
| "base_action (Turn_start clk sizes) = Some (Tank_turn clk)"
| "base_action (Turn_answer n) = Some Tank_answer"
| "base_action (Turn_end sizes) = Some Tank_feed"
| "base_action (Pump_collect timed_out sizes) = Some (Potty_action (Pump_consume timed_out))"
| "base_action (Check_flush now now' job_sizes sizes) = Some (Potty_action (Pump_check now now'))"
| "base_action (Take_job i opened) = Some (Potty_action (Flusher_take i opened))"
| "base_action (Write_job i) = Some (Potty_action (Flusher_write i))"
| "base_action _ = None"

lemma step_moves:
  assumes "traffic_inv t" and "base_ok (threads t)" and "base_action act = Some b" and "\<And>sizes. act \<noteq> Turn_end sizes"
  shows "traffic_step cal act t = Inr None \<or> moves_with (actors_step cal b (threads t)) (traffic_step cal act t)"
proof (cases act)
  case (Feed_send i op sizes)
  then show ?thesis
    using assms feed_send_ok [OF assms(1,2), of i cal op sizes]
    by (cases "lookup (conn_arenas t) i") (auto simp: feed_send_def simp del: actors_step.simps)
next
  case (Turn_start clk sizes)
  then show ?thesis
    using assms turn_start_ok [OF assms(1,2), of cal clk sizes]
    by (cases "handled t") (auto simp: turn_start_def simp del: actors_step.simps)
qed (use assms feed_receive_ok [OF assms(1,2)] turn_answer_ok [OF assms(1)] collect_ok [OF assms(1,2)]
    check_flush_ok [OF assms(1,2)] take_job_ok [OF assms(1,2)] write_job_ok [OF assms(1)] in
    \<open>auto simp del: actors_step.simps\<close>)

lemma still_moves:
  assumes "traffic_inv t" and "base_action act = None"
  shows "allowed (\<lambda>s. s = threads t) (traffic_step cal act t) \<or>
    traffic_step cal act t = Inl UseAfterFree \<and> gone t \<and> act = Turn_mark"
  using assms(2) conn_open_ok [OF assms(1)] conn_work_ok [OF assms(1)] conn_reset_ok [OF assms(1)]
    conn_close_ok [OF assms(1)] turn_mark_ok [OF assms(1)]
  by (cases act) simp_all

lemma step_cases:
  assumes "traffic_inv t" and "base_ok (threads t)"
  shows "allowed (\<lambda>s. s = threads t \<or> (\<exists>b. actors_step cal b (threads t) = Inr (Some s))) (traffic_step cal act t) \<or>
    (\<exists>b e. traffic_step cal act t = Inl e \<and> actors_step cal b (threads t) = Inl e) \<or>
    traffic_step cal act t = Inl UseAfterFree \<and> gone t \<and> (act = Turn_mark \<or> (\<exists>sizes. act = Turn_end sizes))"
proof (cases "base_action act")
  case None
  from still_moves [OF assms(1) None, of cal] show ?thesis unfolding allowed_def by metis
next
  case (Some b)
  show ?thesis
  proof (cases "\<exists>sizes. act = Turn_end sizes")
    case True
    then obtain sizes where act: "act = Turn_end sizes" by blast
    from turn_end_ok [OF assms, of cal sizes] show ?thesis
      unfolding act traffic_step.simps allowed_def by blast
  next
    case False
    with step_moves [OF assms Some, of cal] consider "traffic_step cal act t = Inr None"
      | "moves_with (actors_step cal b (threads t)) (traffic_step cal act t)" by blast
    then show ?thesis
    proof cases
      case 2
      show ?thesis
      proof (cases "traffic_step cal act t")
        case (Inl e)
        with moves_withD(1) [OF 2] show ?thesis by blast
      next
        case (Inr x)
        with moves_withD(2) [OF 2] show ?thesis unfolding allowed_def by blast
      qed
    qed simp
  qed
qed

lemma traffic_keeps:
  assumes "traffic_inv t" and "base_ok (threads t)" and "traffic_step cal act t = Inr (Some t')"
  shows "traffic_inv t' \<and> (threads t' = threads t \<or> (\<exists>b. actors_step cal b (threads t) = Inr (Some (threads t'))))"
  using step_cases [OF assms(1,2), of cal act] unfolding assms(3) by simp

lemma trainer_reads_ok:
  "holds h (arena_blocks a @ bs) \<Longrightarrow>
     \<exists>a' h'. trainer_reads a records h = Inr (a', h') \<and> holds h' (arena_blocks a' @ bs)"
proof (induction records arbitrary: a h)
  case (Cons sizes records)
  from owned_allocs_ok [OF Cons.prems, of sizes] obtain ms a1 h1 where
    1: "owned_allocs a sizes h = Inr (ms, a1, h1)" "holds h1 (arena_blocks a1 @ bs)" by blast
  from 1(2) have "holds h1 (arena_blocks (owned_reset a1) @ bs)" by simp
  from Cons.IH [OF this] 1 show ?case by auto
qed simp

lemma train_objects_ok:
  assumes "holds h bs"
  shows "\<exists>x h'. train_objects log h = Inr (x, h') \<and> holds h' (option_blocks x @ bs)"
proof (cases log)
  case (Some records)
  obtain a h1 where a: "owned_arena_create h = (a, h1)" by fastforce
  from trainer_reads_ok [OF arenas.create_holds [OF assms a], of records] a Some show ?thesis
    by (auto simp: train_objects_def option_blocks_def)
qed (simp add: train_objects_def option_blocks_def assms)

lemma server_objects_ok:
  "\<exists>main arena tank_q log_q h. server_objects cli_sizes heap_empty = Inr (main, arena, tank_q, log_q, h) \<and>
     holds h (arena_blocks main @ arena_blocks arena @ sewer_blocks tank_q @ sewer_blocks log_q)"
proof -
  obtain main h1 where 1: "owned_arena_create heap_empty = (main, h1)" by fastforce
  obtain arena h2 where 2: "owned_arena_create h1 = (arena, h2)" by fastforce
  obtain tank_q h3 where 3: "owned_sewer_create h2 = (tank_q, h3)" by fastforce
  obtain log_q h4 where 4: "owned_sewer_create h3 = (log_q, h4)" by fastforce
  note arenas.create_holds [OF arenas.create_holds [OF holds_empty 1] 2]
  from sewers.create_holds [OF sewers.create_holds [OF this 3] 4]
  have "holds h4 (arena_blocks main @ arena_blocks arena @ sewer_blocks tank_q @ sewer_blocks log_q)"
    by (rule holds_mset) simp
  from owned_allocs_ok [OF this, of cli_sizes] 1 2 3 4 show ?thesis by (auto simp: server_objects_def)
qed

lemma traffic_init_ok:
  assumes "traffic_init t0 tc pc start space cli_sizes sizes log = Inr t"
  shows "traffic_inv t \<and> threads t = actors_init t0 tc pc start space"
proof -
  obtain main arena tank_q log_q h where s: "server_objects cli_sizes heap_empty = Inr (main, arena, tank_q, log_q, h)"
      "holds h (arena_blocks main @ arena_blocks arena @ sewer_blocks tank_q @ sewer_blocks log_q)"
    using server_objects_ok by blast
  from new_arena [OF s(2), of sizes] obtain a h1 ms b h2 where
    a: "owned_arena_create h = (a, h1)" "owned_allocs a sizes h1 = Inr (ms, b, h2)"
      "holds h2 (arena_blocks b @ arena_blocks main @ arena_blocks arena @ sewer_blocks tank_q @ sewer_blocks log_q)" by blast
  from train_objects_ok [OF a(3), of log] obtain x h3 where x: "train_objects log h2 = Inr (x, h3)"
      "holds h3 (option_blocks x @ arena_blocks b @ arena_blocks main @ arena_blocks arena @ sewer_blocks tank_q @ sewer_blocks log_q)"
    by blast
  then have "holds h3 (arena_blocks b @ arena_blocks main @ arena_blocks arena @ sewer_blocks tank_q @ sewer_blocks log_q @
      option_blocks x)"
    by (auto intro: holds_mset)
  with s(1) a(1,2) x(1) assms show ?thesis
    by (auto simp: traffic_init_def traffic_inv_def all_blocks_def kept_blocks_def pointers_ok_def turn_ok_def
        option_blocks_def [of None] entry_blocks_def actors_init_def potty_init_def potty_create_def sewer_create_def
        ringbuf_create_def ring_content_def)
qed

text \<open>No action touches what is kept.\<close>

definition keeps_objects :: "traffic \<Rightarrow> traffic option res \<Rightarrow> bool" where
  "keeps_objects t r \<longleftrightarrow> (\<forall>t'. r = Inr (Some t') \<longrightarrow> kept_objects t' = kept_objects t)"

lemma keeps_objects_simps [simp]:
  "keeps_objects t (Inl e)" "keeps_objects t (Inr None)"
  "keeps_objects t (Inr (Some t')) \<longleftrightarrow> kept_objects t' = kept_objects t"
  by (simp_all add: keeps_objects_def)

lemma keeps_objects_bind: "(\<And>x. keeps_objects t (f x)) \<Longrightarrow> keeps_objects t (rbind r f)"
  by (cases r) simp_all

lemma keeps_objects_step: "(\<And>s. keeps_objects t (k s)) \<Longrightarrow> keeps_objects t (with_step cal act t k)"
  by (auto simp: with_step_def intro!: keeps_objects_bind split: option.split)

lemma traffic_kept: "keeps_objects t (traffic_step cal act t)"
  by (cases act)
    (auto simp: conn_open_def conn_work_def conn_reset_def conn_close_def feed_send_def feed_receive_def turn_start_def
      turn_answer_def turn_mark_def turn_end_def turn_done_def collect_def check_flush_def take_job_def write_job_def
      Let_def split_beta intro!: keeps_objects_bind keeps_objects_step
      split: option.split list.split tank_thread.split)

lemma traffic_reachable_kept:
  "traffic_reachable cal t0 tc pc start space t \<Longrightarrow>
     \<exists>cli_sizes sizes log t1. traffic_init t0 tc pc start space cli_sizes sizes log = Inr t1 \<and> kept_objects t = kept_objects t1"
  proof (induction rule: traffic_reachable.induct)
  case (step t act t')
  with traffic_kept [of t cal act] show ?case by (simp add: keeps_objects_def)
qed blast

lemma traffic_reachable_ok:
  "traffic_reachable cal t0 tc pc start space t \<Longrightarrow>
     traffic_inv t \<and> actors_reachable cal t0 tc pc start space (threads t) \<and> base_ok (threads t)"
proof (induction rule: traffic_reachable.induct)
  case (fresh cli_sizes sizes log t)
  then have "traffic_inv t" "actors_reachable cal t0 tc pc start space (threads t)"
    using traffic_init_ok [OF fresh] by (auto intro: actors_reachable.start)
  with actors_inv [of cal t0 tc pc start space "threads t"] show ?case
    by (auto simp: base_ok_def intro: reachable_inv)
next
  case (step t act t')
  with traffic_keeps [of t cal act t'] have "traffic_inv t'" "actors_reachable cal t0 tc pc start space (threads t')"
    by (auto intro: actors_reachable.move)
  with actors_inv [of cal t0 tc pc start space "threads t'"] show ?case
    by (auto simp: base_ok_def intro: reachable_inv)
qed

section \<open>Runs on concrete inputs\<close>

fun traffic_run :: "(nat \<Rightarrow> bool) \<Rightarrow> traffic_action list \<Rightarrow> traffic \<Rightarrow> traffic option res" where
  "traffic_run cal [] t = Inr (Some t)"
| "traffic_run cal (act # acts) t =
     rbind (traffic_step cal act t) (\<lambda>r. case r of None \<Rightarrow> Inr None | Some t \<Rightarrow> traffic_run cal acts t)"

lemma traffic_run_reachable:
  "traffic_reachable cal t0 tc pc start space t \<Longrightarrow> traffic_run cal acts t = Inr (Some t') \<Longrightarrow>
     traffic_reachable cal t0 tc pc start space t'"
proof (induction acts arbitrary: t)
  case (Cons act acts)
  then show ?case by (auto simp: rbind_eq_Inr_iff split: option.splits intro: traffic_reachable.step)
qed simp

lemmas traffic_eval = conn_open_def conn_work_def conn_reset_def conn_close_def feed_send_def feed_receive_def turn_start_def turn_answer_def
  turn_mark_def turn_done_def turn_end_def collect_def with_step_def lookup_def arena_access_def blocks_access_def
  owned_arena_create_def owned_page_create_def owned_sewer_create_def owned_ring_create_def sewer_access_def
  sewer_destroy_def ringbuf_destroy_def malloc_def release_def page_create_def size_sub_def heap_empty_def

text \<open>A \<^verbatim>\<open>SET\<close> whose client has its response before the store actor goes on.\<close>

abbreviation set_actions :: "traffic_action list" where
  "set_actions \<equiv> [Conn_open 3, Feed_send 3 (plain_set ''c'' ''v'') [], Turn_start (at_second 5) [48], Turn_answer 16, Turn_mark,
     Feed_receive 3]"

lemma set_traffic:
  "\<exists>t p' p''. traffic_reachable (\<lambda>_. True) septic_tank_create 5 5 0 1000 t \<and>
     turn (threads t) = Feeding (Set_mutation ''c'' ''v'' (- 1)) \<and> responses (threads t) 3 = None \<and>
     psys (threads t) = potty_init 5 0 1000 \<and> ring_content (tsewer (threads t)) = [] \<and>
     fill_arena t = Last (page_create ARENA_PAGE_SIZE) 8 9 \<and> conn_arenas t = [(3, Last p' 10 11)] \<and>
     handled t = Some \<lparr>post_arena = Last p'' 12 13, post_reply = \<lparr>sstruct = 14, sring = 15\<rparr>\<rparr> \<and>
     posted_log t = [] \<and> result_at t = [10] \<and> response_at t = None \<and> asker t = 3 \<and>
     memory t = \<lparr>live = {0, 1, 2, 3, 4, 5, 6, 7, 8, 9, 10, 11, 12, 13}, next_block = 16\<rparr>"
proof -
  obtain s1 s2 s3 s4 r where s: "actors_step (\<lambda>_. True) (Client_send 3 (plain_set ''c'' ''v'')) (actors_init septic_tank_create 5 5 0 1000) = Inr (Some s1)"
      "actors_step (\<lambda>_. True) (Tank_turn (at_second 5)) s1 = Inr (Some s2)" "actors_step (\<lambda>_. True) Tank_answer s2 = Inr (Some s3)"
      "actors_step (\<lambda>_. True) (Client_receive 3) s3 = Inr (Some s4)"
      "turn s2 = Answering 3 r (Some (Set_mutation ''c'' ''v'' (- 1)))" "success r" "aof_enabled (tank s2)"
      "turn s4 = Feeding (Set_mutation ''c'' ''v'' (- 1))" "responses s4 3 = None" "waiting s3 = []" "psys s3 = potty_init 5 0 1000"
    using set_steps by metis
  have "client_receive 3 s3 = Inr (Some s4)" using s(4) by simp
  note f = receive_facts [OF this]
  have c: "ring_content (tsewer s4) = []" using f(1) s(10) by (simp add: waiting_def)
  have none: "responses (actors_init septic_tank_create 5 5 0 1000) 3 = None" by (simp add: actors_init_def)
  obtain t where t: "traffic_init septic_tank_create 5 5 0 1000 [] [] None = Inr t"
      "threads t = actors_init septic_tank_create 5 5 0 1000" "conn_arenas t = []" "handled t = None" "reply_sewers t = []"
      "posted t = []" "posted_log t = []" "memory t = \<lparr>live = {0, 1, 2, 3, 4, 5, 6, 7, 8, 9}, next_block = 10\<rparr>" "fill_arena t = Last (page_create ARENA_PAGE_SIZE) 8 9"
    by (auto simp: traffic_init_def server_objects_def train_objects_def traffic_eval) (simp add: eval_nat_numeral insert_commute)
  have "\<exists>t' p' p''. traffic_run (\<lambda>_. True) set_actions t = Inr (Some t') \<and> threads t' = s4 \<and>
     fill_arena t' = Last (page_create ARENA_PAGE_SIZE) 8 9 \<and> conn_arenas t' = [(3, Last p' 10 11)] \<and>
     handled t' = Some \<lparr>post_arena = Last p'' 12 13, post_reply = \<lparr>sstruct = 14, sring = 15\<rparr>\<rparr> \<and>
     posted_log t' = [] \<and> result_at t' = [10] \<and> response_at t' = None \<and> asker t' = 3 \<and>
     memory t' = \<lparr>live = {0, 1, 2, 3, 4, 5, 6, 7, 8, 9, 10, 11, 12, 13}, next_block = 16\<rparr>"
    by (auto simp add: traffic_eval t(2-9) s(1-7) none insert_commute simp del: actors_step.simps)
  then show ?thesis
    using traffic_run_reachable [OF traffic_reachable.fresh [OF t(1)]] s(8,9,11) f(2) c by metis
qed

section \<open>Properties\<close>

definition quiet :: "traffic \<Rightarrow> bool" where
  "quiet t \<longleftrightarrow>
     conn_arenas t = [] \<and> handled t = None \<and> ringbuf_is_empty (tsewer (threads t)) \<and>
     ringbuf_is_empty (psewer (potty_of (threads t))) \<and> hector_size (flush_jobs (potty_of (threads t))) = 0 \<and>
     list_all (\<lambda>f. f = Looking) (flushers (psys (threads t)))"

text \<open>
  C9: in every interleaving of the connections, the store actor, the persistence actor and its flushers, every allocated
  block belongs to exactly one arena or channel that is still in use, and no action reads or releases memory that was
  released. The one exception is the store actor, after it has sent a response, when the connection of that client has
  ended meanwhile: it then reads the result, or writes the flag of the response, in the arena that went with the
  connection. Every other fault is one of the threads without their memory.
\<close>

theorem message_memory_safe:
  assumes "traffic_reachable cal t0 tc pc start space t"
  shows "distinct (all_blocks t) \<and> live (memory t) = set (all_blocks t) \<and>
    (case traffic_step cal act t of
       Inr _ \<Rightarrow> True
     | Inl e \<Rightarrow> (\<exists>b. actors_step cal b (threads t) = Inl e) \<or>
         e = UseAfterFree \<and> gone t \<and> (act = Turn_mark \<or> (\<exists>sizes. act = Turn_end sizes)))"
proof -
  from traffic_reachable_ok [OF assms] have inv: "traffic_inv t" and ok: "base_ok (threads t)" by auto
  have "case traffic_step cal act t of
       Inr _ \<Rightarrow> True
     | Inl e \<Rightarrow> (\<exists>b. actors_step cal b (threads t) = Inl e) \<or>
         e = UseAfterFree \<and> gone t \<and> (act = Turn_mark \<or> (\<exists>sizes. act = Turn_end sizes))"
    using step_cases [OF inv ok, of cal act] by (cases "traffic_step cal act t") auto
  with inv show ?thesis by (simp add: traffic_inv_def holds_def owns_def)
qed

theorem message_memory_safe_witness:
  "\<exists>t. live (memory t) = set (all_blocks t) \<and> conn_arenas t \<noteq> [] \<and> handled t \<noteq> None \<and> reply_sewers t = []"
proof -
  obtain t where t: "traffic_reachable (\<lambda>_. True) septic_tank_create 5 5 0 1000 t" "responses (threads t) 3 = None"
      "conn_arenas t \<noteq> []" "handled t \<noteq> None" "asker t = 3" "\<exists>a. conn_arenas t = [(3, a)]"
    using set_traffic by fastforce
  have "pointers_ok t" using traffic_reachable_ok [OF t(1)] by (simp add: traffic_inv_def)
  then have "lookup (reply_sewers t) i = None" for i
    using t(2,6) unfolding pointers_ok_def by (cases "i = 3") auto
  then have "reply_sewers t = []" by (cases "reply_sewers t") (auto simp: lookup_keys)
  with message_memory_safe [OF t(1), of "Turn_end []"] t(3,4) show ?thesis by blast
qed

text \<open>
  C10: serving leaks no arena and no channel. When no connection is open, the store actor handles no message, the channels and
  the queue of jobs are empty and no flusher has a job, every arena and channel that was created since the first client has been
  released, however many requests were served in whatever order. What remains allocated is the arena for the next mutations and
  what the main thread made before it accepted clients, which the code never destroys: its own arena, the arena and the
  two channels of the server, and the trainer's arena when there was a log; these are the blocks they were at the start.
\<close>

theorem message_memory_released:
  assumes "traffic_reachable cal t0 tc pc start space t" and "quiet t"
  shows "live (memory t) = set (arena_blocks (fill_arena t)) \<union> set (kept_blocks (kept_objects t)) \<and>
    (\<exists>cli_sizes sizes log t1. traffic_init t0 tc pc start space cli_sizes sizes log = Inr t1 \<and>
      kept_objects t = kept_objects t1)"
proof -
  from traffic_reachable_ok [OF assms(1)] have inv: "traffic_inv t" and ok: "base_ok (threads t)" by auto
  have "lookup (reply_sewers t) i = None" for i
    using inv assms(2) by (auto simp: traffic_inv_def pointers_ok_def quiet_def)
  then have "reply_sewers t = []" by (cases "reply_sewers t") (auto simp: lookup_keys)
  moreover have "ring_content (tsewer (threads t)) = []" "ring_content (psewer (potty_of (threads t))) = []"
    using assms(2) by (simp_all add: quiet_def ringbuf_is_empty_def ring_content_def)
  moreover have "elems (flush_jobs (potty_of (threads t))) = []"
    using assms(2) by (simp add: quiet_def hector_size_def elems_def)
  moreover have "\<forall>x \<in> set (flush_arenas t). x = None"
    using inv assms(2) by (auto simp: traffic_inv_def pointers_ok_def quiet_def list_all2_conv_all_nth list_all_length in_set_conv_nth)
  ultimately show ?thesis
    using inv assms(2) traffic_live [OF inv] traffic_reachable_kept [OF assms(1)]
    by (auto simp: traffic_inv_def pointers_ok_def quiet_def all_blocks_def option_blocks_def entry_blocks_def split: option.splits)
qed

theorem message_memory_released_witness:
  "\<exists>t :: traffic. fed (psys (threads t)) = [Set_mutation ''c'' ''v'' (- 1)] \<and> 
     live (memory t) = set (arena_blocks (fill_arena t)) \<union> set (kept_blocks (kept_objects t))"
proof -
  obtain t p' p'' where t: "traffic_reachable (\<lambda>_. True) septic_tank_create 5 5 0 1000 t"
      "turn (threads t) = Feeding (Set_mutation ''c'' ''v'' (- 1))" "responses (threads t) 3 = None"
      "psys (threads t) = potty_init 5 0 1000" "ring_content (tsewer (threads t)) = []"
      "fill_arena t = Last (page_create ARENA_PAGE_SIZE) 8 9" "conn_arenas t = [(3, Last p' 10 11)]" "posted_log t = []"
      "handled t = Some \<lparr>post_arena = Last p'' 12 13, post_reply = \<lparr>sstruct = 14, sring = 15\<rparr>\<rparr>"
      "result_at t = [10]" "response_at t = None" "memory t = \<lparr>live = {0, 1, 2, 3, 4, 5, 6, 7, 8, 9, 10, 11, 12, 13}, next_block = 16\<rparr>"
    using set_traffic by metis
  have "ring_wf (tsewer (threads t))" using base_wf traffic_reachable_ok [OF t(1)] by blast
  then have "rlen (tsewer (threads t)) = 0" using length_ring_content [of "tsewer (threads t)"] t(5) by simp
  then obtain t' where "traffic_run (\<lambda>_. True) [Turn_end [], Conn_reset 3, Conn_close 3, Pump_collect False [16]] t = Inr (Some t')" "quiet t'"
      "fed (psys (threads t')) = [Set_mutation ''c'' ''v'' (- 1)]"
    by (auto simp: traffic_eval Let_def tank_feed_def potty_moves_def potty_eval quiet_def t(2-4,6-12))
  with message_memory_released [OF traffic_run_reachable [OF t(1)], OF this(1,2)] show ?thesis by blast
qed

text \<open>
  C24: the response is sent before its memory is no longer needed. After a \<^verbatim>\<open>SET\<close> whose client closes its connection as
  soon as it has the answer, the store actor reads the mutation that it hands to the log from released memory.
\<close>

theorem result_use_after_free:
  "\<exists>t mu. traffic_reachable (\<lambda>_. True) septic_tank_create 5 5 0 1000 t \<and> turn (threads t) = Feeding mu \<and>
     traffic_step (\<lambda>_. True) (Turn_end []) t = Inl UseAfterFree"
proof -
  obtain t p' p'' where t: "traffic_reachable (\<lambda>_. True) septic_tank_create 5 5 0 1000 t"
      "turn (threads t) = Feeding (Set_mutation ''c'' ''v'' (- 1))" "responses (threads t) 3 = None"
      "conn_arenas t = [(3, Last p' 10 11)]" "result_at t = [10]" "response_at t = None"
      "handled t = Some \<lparr>post_arena = Last p'' 12 13, post_reply = \<lparr>sstruct = 14, sring = 15\<rparr>\<rparr>"
      "memory t = \<lparr>live = {0, 1, 2, 3, 4, 5, 6, 7, 8, 9, 10, 11, 12, 13}, next_block = 16\<rparr>"
    using set_traffic by blast
  have "\<exists>t'. traffic_step (\<lambda>_. True) (Conn_close 3) t = Inr (Some t') \<and>
      turn (threads t') = Feeding (Set_mutation ''c'' ''v'' (- 1)) \<and>
      traffic_step (\<lambda>_. True) (Turn_end []) t' = Inl UseAfterFree"
    by (simp add: traffic_eval t(2-8))
  with traffic_reachable.step [OF t(1)] show ?thesis by blast
qed

end
