(* ===== verification/Arena_Race.thy ===== *)
theory Arena_Race
  imports Restart
begin

text \<open>
  Who may touch the arena of a connection. The store actor allocates its result, and the mutation the result
  refers to, in the arena of the connection that asked, sends the response, and only
  then reads the mutation to hand it to the log (\<^verbatim>\<open>septic_tank_digest\<close>). The connection resets that arena as soon
  as it has answered its client (\<^verbatim>\<open>handle_client_socket\<close>). The system of \<open>Actors\<close> is extended by the number of times each
  connection has reset its arena: memory obtained before a reset may be given out again after it.
\<close>

section \<open>Arenas\<close>

text \<open>\<open>made\<close> is the count of the client's arena when the result of the current turn was allocated, \<open>owner\<close> the client.\<close>

record arenas =
  sys :: actors
  resets :: "nat \<Rightarrow> nat"
  owner :: nat
  made :: nat

datatype arena_action = System actor_action | Reset nat

definition arenas_init :: "septic_tank \<Rightarrow> nat \<Rightarrow> nat \<Rightarrow> nat \<Rightarrow> nat \<Rightarrow> arenas" where
  "arenas_init t0 tc pc start space = \<lparr>sys = actors_init t0 tc pc start space, resets = (\<lambda>_. 0), owner = 0, made = 0\<rparr>"

definition result_made :: "actors \<Rightarrow> arenas \<Rightarrow> arenas" where
  \<comment> \<open>a turn that has just resolved its operation has allocated the result\<close>
  "result_made s' a =
     (case turn s' of
        Answering i r logged \<Rightarrow> if turn (sys a) = Receiving then a\<lparr>owner := i, made := resets a i\<rparr> else a
      | _ \<Rightarrow> a)"

fun arena_step :: "(nat \<Rightarrow> bool) \<Rightarrow> arena_action \<Rightarrow> arenas \<Rightarrow> arenas option res" where
  "arena_step cal (System act) a =
     rbind (actors_step cal act (sys a)) (\<lambda>r. Inr (map_option (\<lambda>s'. (result_made s' a)\<lparr>sys := s'\<rparr>) r))"
| "arena_step cal (Reset i) a =
     (if responses (sys a) i \<noteq> None then Inr None
      else Inr (Some (a\<lparr>resets := (resets a)(i := Suc (resets a i))\<rparr>)))"

inductive arenas_reachable :: "(nat \<Rightarrow> bool) \<Rightarrow> septic_tank \<Rightarrow> nat \<Rightarrow> nat \<Rightarrow> nat \<Rightarrow> nat \<Rightarrow> arenas \<Rightarrow> bool"
  for cal t0 tc pc start space where
  fresh: "arenas_reachable cal t0 tc pc start space (arenas_init t0 tc pc start space)"
| step: "arenas_reachable cal t0 tc pc start space a \<Longrightarrow> arena_step cal act a = Inr (Some a') \<Longrightarrow>
    arenas_reachable cal t0 tc pc start space a'"

definition result_intact :: "arenas \<Rightarrow> bool" where
  \<comment> \<open>the result of the turn still lies in memory that was not given back\<close>
  "result_intact a \<longleftrightarrow> resets a (owner a) = made a"

section \<open>Lemmas\<close>

lemma result_made_simps [simp]: "resets (result_made s' a) = resets a" "sys (result_made s' a) = sys a"
  by (simp_all add: result_made_def split: tank_thread.split)

lemma sys_reachable: "arenas_reachable cal t0 tc pc start space a \<Longrightarrow> actors_reachable cal t0 tc pc start space (sys a)"
proof (induction rule: arenas_reachable.induct)
  case fresh
  then show ?case by (simp add: arenas_init_def actors_reachable.start)
next
  case (step a act a')
  then show ?case
    by (cases act) (auto simp: rbind_eq_Inr_iff split: if_splits intro: move)
qed

text \<open>What one action does to the turn: only \<open>Tank_turn\<close> starts one, for the client it records as served.\<close>

lemma turn_step:
  assumes "actors_step cal act s = Inr (Some s')"
  shows "turn s' = Receiving \<or>
    turn s = Receiving \<and> (\<exists>i r logged op clk. turn s' = Answering i r logged \<and> served s' = served s @ [(i, op, clk)]) \<or>
    turn s \<noteq> Receiving \<and> served s' = served s \<and>
      (turn s' = turn s \<or> (\<exists>i r mu. turn s = Answering i r (Some mu) \<and> turn s' = Feeding mu))"
  using assms
  by (cases act; cases "turn s")
    (auto simp: client_send_def client_receive_def tank_turn_def tank_answer_def tank_feed_def potty_moves_def
      rbind_eq_Inr_iff split: option.splits if_splits prod.splits action.splits)

definition owner_ok :: "arenas \<Rightarrow> bool" where
  "owner_ok a \<longleftrightarrow> (turn (sys a) \<noteq> Receiving \<longrightarrow> owner a = fst (last (served (sys a)))) \<and>
     (\<forall>i r logged. turn (sys a) = Answering i r logged \<longrightarrow> owner a = i \<and> resets a i = made a)"

lemma owner_system:
  assumes "owner_ok a" and "actors_step cal act (sys a) = Inr (Some s')"
  shows "owner_ok ((result_made s' a)\<lparr>sys := s'\<rparr>)"
  using turn_step [OF assms(2)] assms(1)
  by (cases "turn (sys a)") (auto simp: owner_ok_def result_made_def)

lemma owner_inv: "arenas_reachable cal t0 tc pc start space a \<Longrightarrow> owner_ok a"
proof (induction rule: arenas_reachable.induct)
  case fresh
  then show ?case by (simp add: owner_ok_def arenas_init_def actors_init_def)
next
  case (step a act a')
  show ?case
  proof (cases act)
    case (System x)
    with step.hyps(2) step.IH show ?thesis by (auto simp: rbind_eq_Inr_iff intro: owner_system)
  next
    case (Reset i)
    have "channels_ok (sys a)" using actors_inv [OF sys_reachable [OF step.hyps(1)]] by blast
    with Reset step.hyps(2) step.IH show ?thesis
      by (auto simp: owner_ok_def channels_ok_def waiting_def split: if_splits)
  qed
qed

lemma run_without_resets:
  "actors_reachable cal t0 tc pc start space s \<Longrightarrow>
     \<exists>a. arenas_reachable cal t0 tc pc start space a \<and> sys a = s \<and> resets a = (\<lambda>_. 0) \<and> made a = 0"
proof (induction rule: actors_reachable.induct)
  case start
  show ?case by (rule exI [of _ "arenas_init t0 tc pc start space"]) (simp add: fresh, simp add: arenas_init_def)
next
  case (move s act s')
  then obtain a where a: "arenas_reachable cal t0 tc pc start space a" "sys a = s" "resets a = (\<lambda>_. 0)" "made a = 0"
    by blast
  let ?a = "(result_made s' a)\<lparr>sys := s'\<rparr>"
  have "arena_step cal (System act) a = Inr (Some ?a)" using move.hyps(2) a(2) by simp
  from step [OF a(1) this] a(3,4) show ?case
    by (intro exI [of _ ?a]) (simp add: result_made_def split: tank_thread.split)
qed

text \<open>Before the response is sent the arena of the result cannot have been reset.\<close>

lemma result_intact_until_sent:
  assumes "arenas_reachable cal t0 tc pc start space a" and "turn (sys a) = Answering i r logged"
  shows "owner a = i \<and> result_intact a"
  using owner_inv [OF assms(1)] assms(2) by (fastforce simp: owner_ok_def result_intact_def)

section \<open>Properties\<close>

text \<open>
  The mutation of a turn may be read from memory that was given back. There is a run in which a
  connection receives its response and resets its arena while the store actor has still to read, through the
  result in that arena, the mutation that it hands to the log. (While the response is not sent this cannot happen:
  \<open>result_intact_until_sent\<close>.)
\<close>

theorem result_arena_race:
  "\<exists>a mu. arenas_reachable (\<lambda>_. True) septic_tank_create 5 5 0 1000 a \<and> turn (sys a) = Feeding mu \<and> \<not> result_intact a"
proof -
  let ?mu = "Set_mutation ''c'' ''v'' (- 1)"
  obtain s1 s2 s3 s4 where s: "actors_step (\<lambda>_. True) (Client_send 3 (plain_set ''c'' ''v'')) (actors_init septic_tank_create 5 5 0 1000) = Inr (Some s1)"
      "actors_step (\<lambda>_. True) (Tank_turn (at_second 5)) s1 = Inr (Some s2)" "actors_step (\<lambda>_. True) Tank_answer s2 = Inr (Some s3)"
      "actors_step (\<lambda>_. True) (Client_receive 3) s3 = Inr (Some s4)" "turn s4 = Feeding ?mu"
      "served s3 = [(3, plain_set ''c'' ''v'', at_second 5)]" "responses s4 3 = None"
    using set_steps by metis
  have served: "served s4 = served s3"
    using s(4) by (auto simp: client_receive_def rbind_eq_Inr_iff split: option.splits)
  from actors_reachable.move [OF actors_reachable.move [OF actors_reachable.move [OF actors_reachable.move
    [OF actors_reachable.start s(1)] s(2)] s(3)] s(4)]
  obtain a where a: "arenas_reachable (\<lambda>_. True) septic_tank_create 5 5 0 1000 a" "sys a = s4" "resets a = (\<lambda>_. 0)" "made a = 0"
    using run_without_resets by blast
  let ?a = "a\<lparr>resets := (resets a)(3 := Suc (resets a 3))\<rparr>"
  have "arena_step (\<lambda>_. True) (Reset 3) a = Inr (Some ?a)" using a(2) s(7) by simp
  from step [OF a(1) this] have r: "arenas_reachable (\<lambda>_. True) septic_tank_create 5 5 0 1000 ?a" .
  have "owner a = 3" using owner_inv [OF a(1)] a(2) s(5,6) served by (simp add: owner_ok_def)
  then have "\<not> result_intact ?a" using a(3,4) by (simp add: result_intact_def)
  with r s(5) a(2) show ?thesis by (intro exI [of _ ?a] exI [of _ ?mu]) simp
qed

end
