(* ===== verification/Debug_Print.thy ===== *)
theory Debug_Print
  imports Resp Potty_Codec
begin

text \<open>
  The debug printers: of RESP values (\<^verbatim>\<open>resp/debug.c\<close>), whose calls in \<^verbatim>\<open>server.c\<close> are commented out, and of mutations
  (\<^verbatim>\<open>septic_tank_debug_mutation\<close>), which prints in builds with \<^verbatim>\<open>DEBUG\<close> only. A printer returns
  what it writes, without the prefix that \<^verbatim>\<open>DEBUG_PRINTF\<close> puts in front. Whether \<^verbatim>\<open>char\<close> is signed is up to the compiler and is
  an argument: a byte is converted to \<^verbatim>\<open>int\<close> before \<^verbatim>\<open>%X\<close> reads it as an \<^verbatim>\<open>unsigned int\<close>.
\<close>

section \<open>Formats\<close>

abbreviation NL :: char where
  "NL \<equiv> CHR 0x0A"

definition hex_digit :: "nat \<Rightarrow> char" where
  "hex_digit n = (if n < 10 then char_of (48 + n) else char_of (55 + n))"

fun show_hex :: "nat \<Rightarrow> char list" where
  "show_hex n = (if n < 16 then [hex_digit n] else show_hex (n div 16) @ [hex_digit (n mod 16)])"

declare show_hex.simps [simp del]

definition byte_as_unsigned :: "bool \<Rightarrow> char \<Rightarrow> nat" where
  "byte_as_unsigned char_signed c =
     (let n = of_char c in if char_signed \<and> n \<ge> 128 then 4294967296 + n - 256 else n)"

definition print_indented :: "nat \<Rightarrow> char list \<Rightarrow> char list" where
  "print_indented level text = concat (replicate level ''  '') @ text"

section \<open>Values\<close>

definition print_simple_string :: "nat \<Rightarrow> char list \<Rightarrow> char list" where
  "print_simple_string level s =
     print_indented level (''RESPBulkString {'' @ [NL]) @
     print_indented (level + 1) (c_string s @ [NL]) @
     print_indented level (''}'' @ [NL])"

fun print_bytes :: "bool \<Rightarrow> nat \<Rightarrow> char list \<Rightarrow> char list" where
  "print_bytes char_signed i [] = []"
| "print_bytes char_signed i (c # cs) =
     (if i = 0 then [] else '', '') @ ''0x'' @ show_hex (byte_as_unsigned char_signed c) @ print_bytes char_signed (Suc i) cs"

definition print_bulk_string :: "bool \<Rightarrow> nat \<Rightarrow> char list \<Rightarrow> char list" where
  "print_bulk_string char_signed level data =
     print_indented level (''RESPBulkString {'' @ [NL]) @
     print_indented (level + 1) ''data = ['' @ print_bytes char_signed 0 data @ '']'' @ [NL] @
     print_indented level (''}'' @ [NL])"

definition print_null :: "nat \<Rightarrow> char list" where
  "print_null level = print_indented level (''RESPNull {}'' @ [NL])"

definition print_integer :: "nat \<Rightarrow> int64 \<Rightarrow> char list" where
  \<comment> \<open>no line break after the value\<close>
  "print_integer level v =
     print_indented level (''RESPInteger {'' @ [NL]) @
     print_indented (level + 1) (''value = '' @ show_int (sint v)) @
     print_indented level (''}'' @ [NL])"

fun print_value_helper :: "bool \<Rightarrow> nat \<Rightarrow> resp_value \<Rightarrow> char list res"
and print_items :: "bool \<Rightarrow> nat \<Rightarrow> resp_value list \<Rightarrow> char list res" where
  "print_value_helper sg level (RESP_simple_string s) = Inr (print_simple_string level s)"
| "print_value_helper sg level (RESP_bulk_string s) = Inr (print_bulk_string sg level s)"
| "print_value_helper sg level (RESP_array vs) =
     rbind (print_items sg (level + 1) vs) (\<lambda>items.
       Inr (print_indented level (''RESPArray(length = '' @ show_nat (length vs) @ '') {'' @ [NL]) @ items @
            print_indented level (''}'' @ [NL])))"
| "print_value_helper sg level RESP_null = Inr (print_null level)"
| "print_value_helper sg level (RESP_integer v) = Inr (print_integer level v)"
| "print_value_helper sg level (RESP_simple_error s) = Inl Unimplemented"
| "print_items sg level [] = Inr []"
| "print_items sg level (v # vs) =
     rbind (print_value_helper sg level v) (\<lambda>t. rbind (print_items sg level vs) (\<lambda>ts. Inr (t @ ts)))"

definition resp_print_value :: "bool \<Rightarrow> resp_value \<Rightarrow> char list res" where
  "resp_print_value sg v =
     rbind (print_value_helper sg 1 v) (\<lambda>t. Inr (''RESPValue {'' @ [NL] @ t @ ''}'' @ [NL]))"

fun resp_print_parse_result :: "parse_code \<Rightarrow> nat \<Rightarrow> char list" where
  "resp_print_parse_result RESP_PARSE_SUCCESS pos = ''RESPParseResult(SUCCESS)'' @ [NL]"
| "resp_print_parse_result RESP_PARSE_UNKNOWN_DATA_TYPE_MARKER pos =
     ''RESPParseResult(UNKNOWN_DATA_TYPE_MARKER) { pos = '' @ show_nat pos @ '' }'' @ [NL]"
| "resp_print_parse_result RESP_PARSE_UNEXPECTED_TOKEN pos =
     ''RESPParseResult(UNEXPECTED_TOKEN) { pos = '' @ show_nat pos @ '' }'' @ [NL]"
| "resp_print_parse_result RESP_PARSE_EMPTY_INPUT pos = ''RESPParseResult(EMPTY_INPUT)'' @ [NL]"
| "resp_print_parse_result RESP_PARSE_MEMORY_ALLOC_FAILED pos = ''RESPParseResult(MEM_ALLOC_FAILED)'' @ [NL]"

section \<open>Mutations\<close>

definition format_bytes :: "char list \<Rightarrow> char list res" where
  \<comment> \<open>\<^verbatim>\<open>%.*s\<close> with the length cast to \<^verbatim>\<open>int\<close>; a negative precision counts as omitted, and the bytes have no terminator\<close>
  "format_bytes s =
     (if length s mod 4294967296 < 2147483648
      then Inr (c_string (take (length s mod 4294967296) s)) else Inl OutOfBounds)"

fun septic_tank_debug_mutation :: "mutation \<Rightarrow> char list res" where
  "septic_tank_debug_mutation (Set_mutation key value at) =
     rbind (format_bytes key) (\<lambda>k. rbind (format_bytes value) (\<lambda>v.
       Inr (''SET { key = '' @ [CHR 0x22] @ k @ [CHR 0x22] @ '', value = '' @ [CHR 0x22] @ v @ [CHR 0x22] @
            '', expires_at = '' @ show_int (sint at) @ '' }'' @ [NL])))"
| "septic_tank_debug_mutation (Del_mutation key) =
     rbind (format_bytes key) (\<lambda>k. Inr (''DEL { key = '' @ [CHR 0x22] @ k @ [CHR 0x22] @ '' }'' @ [NL]))"
| "septic_tank_debug_mutation (Expire_mutation key at) =
     rbind (format_bytes key) (\<lambda>k.
       Inr (''EXPIRE { key = '' @ [CHR 0x22] @ k @ [CHR 0x22] @ '', expires_at = '' @ show_int (sint at) @ '' }'' @ [NL]))"
| "septic_tank_debug_mutation (Other_mutation ty) =
     Inr (''<invalid mutation type '' @ show_nat (type_tag ty) @ ''>'' @ [NL])"

section \<open>When printing ends the process\<close>

fun has_error :: "resp_value \<Rightarrow> bool" where
  "has_error (RESP_simple_error s) = True"
| "has_error (RESP_array vs) = list_ex has_error vs"
| "has_error _ = False"

lemma print_helper_ends:
  "(\<exists>t. print_value_helper sg level v = Inr t) \<longleftrightarrow> \<not> has_error v"
  "(\<exists>t. print_items sg level vs = Inr t) \<longleftrightarrow> \<not> list_ex has_error vs"
proof (induction sg level v and sg level vs rule: print_value_helper_print_items.induct)
qed (auto simp: rbind_eq_Inr_iff)

text \<open>
  The printer has no case for simple errors: it ends the process exactly on the values that contain one, at any
  depth. All other values are printed.
\<close>

lemma resp_print_value_ends_iff:
  "resp_print_value sg v = Inl Unimplemented \<longleftrightarrow> has_error v"
  "(\<exists>t. resp_print_value sg v = Inr t) \<longleftrightarrow> \<not> has_error v"
proof -
  have "print_value_helper sg level v = Inl e \<Longrightarrow> e = Unimplemented"
    "print_items sg level vs = Inl e \<Longrightarrow> e = Unimplemented" for level vs e
    by (induction sg level v and sg level vs rule: print_value_helper_print_items.induct)
      (auto simp: rbind_eq_Inl_iff)
  then show "resp_print_value sg v = Inl Unimplemented \<longleftrightarrow> has_error v"
    "(\<exists>t. resp_print_value sg v = Inr t) \<longleftrightarrow> \<not> has_error v"
    using print_helper_ends(1) [of sg 1 v]
    by (cases "print_value_helper sg 1 v"; force simp: resp_print_value_def)+
qed

text \<open>
  What a sample looks like: the integer has no line break behind it, a simple string is called a bulk
  string, and a byte above \<^verbatim>\<open>0x7F\<close> has six more digits where \<^verbatim>\<open>char\<close> is signed.
\<close>

lemma print_samples:
  "print_value_helper sg 0 (RESP_integer 5) = Inr (''RESPInteger {'' @ [NL] @ ''  value = 5}'' @ [NL])"
  "print_value_helper sg 0 (RESP_simple_string ''OK'') = Inr (''RESPBulkString {'' @ [NL] @ ''  OK'' @ [NL] @ ''}'' @ [NL])"
  "print_bytes True 0 [CHR 0xC3] = ''0xFFFFFFC3''" "print_bytes False 0 [CHR 0xC3] = ''0xC3''"
  by (simp_all add: print_integer_def print_simple_string_def print_indented_def show_int_def show_nat.simps
      c_string_def byte_as_unsigned_def show_hex.simps hex_digit_def char_of_def bit_0)

end
