(* ===== verification/Crc.thy ===== *)
theory Crc
  imports Hashmap
begin

text \<open>
  The hash function of the map starts with a CRC computed from a table of 256 constants. Here the table and
  the loop over it are compared with the definition that the comment above the table
  refers to: the division by the polynomial \<^verbatim>\<open>0xEDB88320\<close> (bits reversed), one bit at a time.
\<close>

definition crc_step :: "64 word \<Rightarrow> 64 word" where
  \<comment> \<open>one step of the shift register\<close>
  "crc_step x = drop_bit 1 x XOR (if bit x 0 then 0xEDB88320 else 0)"

definition crc_byte :: "64 word \<Rightarrow> 64 word" where
  "crc_byte x = (crc_step ^^ 8) x"

definition crc_reference :: "char list \<Rightarrow> 64 word" where
  "crc_reference s = foldl (\<lambda>crc c. crc_byte (crc XOR of_char c)) 0 s"

section \<open>Linearity\<close>

lemma crc_step_xor: "crc_step (x XOR y) = crc_step x XOR crc_step y"
  by (simp add: crc_step_def bit_xor_iff ac_simps)

lemma crc_steps_xor: "(crc_step ^^ n) (x XOR y) = (crc_step ^^ n) x XOR (crc_step ^^ n) y"
  by (induction n) (simp_all add: crc_step_xor)

lemma crc_byte_xor: "crc_byte (x XOR y) = crc_byte x XOR crc_byte y"
  by (simp add: crc_byte_def crc_steps_xor)

lemma crc_steps_shift: "\<forall>i<n. \<not> bit x i \<Longrightarrow> (crc_step ^^ n) x = drop_bit n x"
proof (induction n arbitrary: x)
  case (Suc n)
  then have "crc_step x = drop_bit 1 x" by (simp add: crc_step_def)
  moreover have "\<forall>i<n. \<not> bit (drop_bit 1 x) i" using Suc.prems by (simp add: bit_drop_bit_eq)
  ultimately show ?case using Suc.IH by (simp add: funpow_Suc_right del: funpow.simps)
qed simp

section \<open>The table\<close>

fun table_upto :: "nat \<Rightarrow> 64 word list" where
  \<comment> \<open>the second half of a table is the first half plus one constant\<close>
  "table_upto 0 = [0]"
| "table_upto (Suc k) = table_upto k @ map (\<lambda>t. t XOR crc_byte (2 ^ k)) (table_upto k)"

lemma word_above_power:
  assumes "j < 2 ^ k" and "k < 64"
  shows "2 ^ k + word_of_nat j = (word_of_nat j XOR 2 ^ k :: 64 word)"
proof -
  have "\<not> bit (word_of_nat j :: 64 word) k"
    using assms(1) by (simp add: bit_of_nat_iff bit_nat_def)
  then have "word_of_nat j AND (2 ^ k :: 64 word) = 0"
    by (auto intro!: bit_word_eqI simp: bit_and_iff bit_exp_iff)
  from disjunctive_add_eq_xor [OF this] show ?thesis by (simp add: add.commute)
qed

lemma table_upto_byte: "k \<le> 8 \<Longrightarrow> table_upto k = map (\<lambda>i. crc_byte (word_of_nat i)) [0..<2 ^ k]"
proof (induction k)
  case 0
  show ?case by (simp add: crc_byte_def crc_steps_shift)
next
  case (Suc k)
  have "[0..<2 ^ Suc k] = [0..<2 ^ k] @ map (\<lambda>i. 2 ^ k + i) [0..<2 ^ k]"
    by (simp add: upt_add_eq_append [of 0 "2 ^ k" "2 ^ k", simplified] mult_2 map_add_upt add.commute)
  with Suc show ?case by (simp add: word_above_power crc_byte_xor)
qed

lemma crc_byte_code: "crc_byte x = crc_step (crc_step (crc_step (crc_step (crc_step (crc_step (crc_step (crc_step x)))))))"
  by (simp add: crc_byte_def numeral_eq_Suc)

lemma crc_powers:
  "crc_byte 1 = 0x77073096" "crc_byte 2 = 0xee0e612c" "crc_byte 4 = 0x076dc419" "crc_byte 8 = 0x0edb8832"
  "crc_byte 16 = 0x1db71064" "crc_byte 32 = 0x3b6e20c8" "crc_byte 64 = 0x76dc4190" "crc_byte 128 = 0xedb88320"
  by (simp_all add: crc_byte_code crc_step_def)

lemma crc_table: "crc32_tab = table_upto 8"
proof -
  have "table_upto (Suc (Suc (Suc (Suc (Suc (Suc (Suc (Suc 0)))))))) = crc32_tab"
    by (simp add: crc32_tab_def crc_powers)
  moreover have "Suc (Suc (Suc (Suc (Suc (Suc (Suc (Suc 0))))))) = 8" by simp
  ultimately show ?thesis by (simp only:)
qed

lemma low_byte: "x AND 0xff = take_bit 8 (x :: 64 word)"
  by (simp add: take_bit_eq_mask mask_eq_exp_minus_1)

lemma crc_byte_table: "crc_byte x = crc32_tab ! unat (x AND 0xff) XOR drop_bit 8 x"
proof -
  let ?low = "take_bit 8 x" and ?high = "push_bit 8 (drop_bit 8 x)"
  have x: "x = ?low XOR ?high"
    by (rule bit_word_eqI) (auto simp: bit_simps)
  have low: "unat ?low < 2 ^ 8"
    using take_bit_nat_less_exp [of 8 "unat x"] by (simp add: unsigned_take_bit_eq)
  have "crc32_tab ! n = crc_byte (word_of_nat n)" if "n < 2 ^ 8" for n
    unfolding crc_table table_upto_byte [OF order_refl] using that by (simp only: nth_map_upt diff_zero add_0)
  from this [OF low] have "crc32_tab ! unat ?low = crc_byte ?low" by simp
  moreover have "crc_byte ?high = drop_bit 8 x"
  proof -
    have "n < 56" if "bit x (8 + n)" for n using bit_imp_le_length [OF that] by simp
    then show ?thesis
      unfolding crc_byte_def by (subst crc_steps_shift) (auto simp: bit_simps intro!: bit_word_eqI)
  qed
  moreover have "crc_byte x = crc_byte ?low XOR crc_byte ?high"
    by (subst x) (rule crc_byte_xor)
  ultimately show ?thesis by (simp add: low_byte)
qed

lemma crc32_step: "(crc32_tab ! unat ((crc XOR of_char c) AND 0xff)) XOR drop_bit 8 crc = crc_byte (crc XOR of_char c)"
proof -
  have "drop_bit 8 (of_char c :: 64 word) = 0"
  proof -
    have "unat (of_char c :: 64 word) = of_char c"
      by (subst of_nat_of_char [symmetric]) (simp add: unat_of_nat order.strict_trans [OF nat_of_char_less_256])
    then show ?thesis
      by (simp add: drop_bit_eq_div word_unat_eq_iff unat_div)
  qed
  then show ?thesis by (simp add: crc_byte_table drop_bit_xor)
qed

section \<open>Properties\<close>

text \<open>
  C36: the table-driven checksum is the bit by bit one. Every entry of the table of 256 constants is right, and \<^verbatim>\<open>crc32\<close>
  computes for every string (cut to the length that an \<^verbatim>\<open>unsigned int\<close> can count) the remainder that the
  shift register of the polynomial leaves.
\<close>

theorem crc32_is_crc: "crc32 s len = crc_reference (take (len mod 2 ^ 32) s)"
  unfolding crc32_def crc_reference_def crc32_step ..

end
