(* ===== verification/Spec2Isabelle.thy ===== *)
theory Spec2Isabelle
  imports Ring Arena Serving Flush_Stream Tank_Memory Message_Memory Arena_Race Debug_Print Crc
begin

text \<open>
  A verification development for Redic, a Redis-compatible key-value server in C (\<^verbatim>\<open>src/src\<close>). The
  program is a set of threads around two actors. Each connection has a thread that reads
  requests, parses them, runs a command and writes the reply (\<^verbatim>\<open>server.c\<close>, \<^verbatim>\<open>resp/\<close>, \<^verbatim>\<open>command/\<close>). A
  command sends one operation over a bounded channel, the sewer, to the store actor, the
  septic tank (\<^verbatim>\<open>septic_tank/\<close>), and waits for the result. The store resolves an operation to a mutation,
  applies it to the hash map (\<^verbatim>\<open>hashmap.c\<close>), answers, and feeds the mutation over another sewer to the
  persistence actor, the potty (\<^verbatim>\<open>potty/\<close>), which collects mutations in a buffer and lets flusher threads append
  them to the file \<^verbatim>\<open>data.aof\<close>. At the next start \<^verbatim>\<open>main\<close> reads the command line and replays the file
  before it accepts connections.

  Theories, in the order of their dependencies:

  \<^item> \<open>Prelude\<close>: faults and results. Whatever ends the process or leaves defined behaviour (exit macros,
    access out of bounds, null dereference, signed overflow) is a value of \<open>fault\<close> on the left of a sum.
    Also 64-bit integers, \<^verbatim>\<open>size_t\<close> arithmetic, little-endian numbers and list lemmas.
  \<^item> \<open>Aids\<close>: \<^verbatim>\<open>str_eq_ci\<close>, \<^verbatim>\<open>parse_int64\<close>, \<^verbatim>\<open>parse_long\<close>, with the scanner of \<^verbatim>\<open>strtoll\<close> and the printer of
    \<^verbatim>\<open>PRId64\<close> written out; \<open>Hector\<close>: the growable array of \<^verbatim>\<open>aids.c\<close> over explicit slots, with the exact
    condition for \<^verbatim>\<open>hector_splice\<close>; \<open>Ring\<close>: \<^verbatim>\<open>ring.c\<close> as an implementation of a bounded queue (locale
    \<open>bounded_queue\<close>); \<open>Arena\<close>: the pages of \<^verbatim>\<open>arena.c\<close> and that blocks never overlap.
  \<^item> \<open>Hashmap\<close>: \<^verbatim>\<open>hashmap.c\<close> with its CRC hash, probing and rehashing. Insertion may rehash recursively; it is
    given 31 units of fuel, one for each doubling of an \<^verbatim>\<open>int\<close> table size, and \<open>put_fuel_enough\<close> shows
    that this is enough. \<open>Crc\<close>: the table of the CRC is the bit by bit one. \<open>Hashmap_Correct\<close>: the table as a
    finite map (locale \<open>key_value_map\<close>), and the probe chains that a removal breaks.
  \<^item> \<open>Data\<close>: entries and the clock; \<open>Septic_Tank\<close>: operations, mutations, the resolve and apply functions
    of \<^verbatim>\<open>septic_tank_*.c\<close> and one turn of the actor (\<open>septic_tank_digest\<close>). Clock readings are
    arguments. \<open>Septic_Tank_Correct\<close>: a specification of the store over the keys visible at a time,
    refinement of each operation, runs of the actor, and the relation between the live and the
    logged store. \<open>Separate_Keys\<close>: a condition on the keys alone under which broken chains cannot occur and no
    operation can fail, and a run of colliding keys after which a replay of the log does not restore the store.
  \<^item> \<open>Potty_Codec\<close>: records of the append-only file, their parser and the trainer, on the byte level (locale
    \<open>prefix_code\<close> for codes that can be read off the front of a file and that detect a torn
    end). \<open>Sewer\<close>: \<^verbatim>\<open>sewer.c\<close> as a channel (locale \<open>channel\<close>). \<open>Potty\<close>: \<^verbatim>\<open>potty.c\<close> and \<^verbatim>\<open>potty_flusher.c\<close> as
    a step relation over the interleavings of clients, collecting thread and flushers, with its invariant.
    \<open>Flush_Stream\<close>: one flush through its \<^verbatim>\<open>stdio\<close> stream, with buffer, file and device kept apart.
  \<^item> \<open>Resp\<close>: the parser over the connection buffer and the serializer into it. Its fuel is one unit
    per nesting level; one more than the length of the buffer is enough (\<open>resp_parse_input_ends\<close>).
  \<^item> \<open>Command_Args\<close>: the argument parser of \<^verbatim>\<open>command_arg.c\<close>; \<open>Commands\<close>: the dispatcher and the
    twelve handlers; \<open>Requests\<close>: a command reaches the store by at most one operation, so that a sequence
    of requests is a run of the actor.
  \<^item> \<open>Actors\<close>: all threads together as one step relation: clients with their response channels, the store
    actor with its turn split at its two sends, and the persistence system of \<open>Potty\<close>. Its invariant gives
    linearizability and the recovery after a crash. \<open>Liveness\<close>: a distance of a waiting client from its response that no step
    increases and some step always decreases.
  \<^item> \<open>Memory\<close>: allocated blocks and their owners, and the contract of objects that are created and destroyed (locale
    \<open>resource\<close>). \<open>Resources\<close>: arenas, channels and growable arrays with their blocks, the copy helpers and file
    loader of \<^verbatim>\<open>aids.c\<close>; destroying an arena or a channel releases exactly its blocks.
  \<^item> \<open>Hashmap_Memory\<close>: the table with its memory blocks, those of its struct, its array, its keys and its entries, through
    probing, rehashing, the free callbacks and \<^verbatim>\<open>hashmap_free\<close>. \<open>Tank_Memory\<close>: the resolve and apply functions, turns and runs
    of the store actor on that table, each read through the pointer to an entry checked, up to \<^verbatim>\<open>septic_tank_destroy\<close>; both compute
    what \<open>Hashmap\<close> and \<open>Septic_Tank\<close> compute. \<open>Message_Memory\<close>: \<open>Actors\<close> with every arena and channel that the threads create, hand over
    with a message and destroy, and those of the main thread that stay; its invariant gives each block one owner in every reachable state.
    \<open>Arena_Race\<close>: \<open>Actors\<close> with the resets of the connection arenas.
  \<^item> \<open>Server\<close>: the loop of a connection, with the buffer that keeps the bytes of earlier traffic;
    \<open>Cli\<close>: the command line parser; \<open>Boot\<close>: options and replay of \<^verbatim>\<open>main\<close>; \<open>Restart\<close>: the lemmas
    behind the theorems below; \<open>Continuity\<close>: two stores that show the same answer alike (locale \<open>feed_simulation\<close>);
    \<open>Serving\<close>: the whole of \<^verbatim>\<open>main\<close>, with the listening socket, the accept loop and the connections; \<open>Debug_Print\<close>: the debug printers.

  What the properties show. The data structures keep their invariants and implement their abstract
  counterparts; the store implements its specification, answers every well-formed request and
  releases its memory exactly once; encoders and parsers are inverse to each other; the log is written without loss,
  duplication or reordering in every interleaving, and replaying it, over any number of restarts, restores the visible
  store, so that clients that do not ask for TTL cannot notice a restart, as long as the keys do not collide in the hash map;
  every client is answered; the memory of messages, channels and connections has
  one owner at a time and is released when the server is quiet; the program started by \<open>main\<close> answers whole requests
  of any clients in their order.
  Properties of the store that need unbroken probe chains say so (\<open>chain_ok\<close>, \<open>run_safe\<close>, \<open>separate\<close>).
  Where the code does not do what it means to, the property states what it does: a removal
  may resurrect an overwritten key, \<^verbatim>\<open>hector_splice\<close> may leave its memory, TTL reports expired keys, a request cut by the
  network is completed from stale bytes, malformed input ends the process and so does a client without a
  host name, a flush synchronises before its last bytes are written, and the arena of a response may be reset or destroyed
  while the store actor still reads from it.

  Assumptions and bounds. The system allocator succeeds, except that \<^verbatim>\<open>calloc\<close> in the rehash may fail as
  the parameter \<open>cal\<close> says. Readings of the clock are documented (\<open>clock_ok\<close>): nanoseconds
  below \<open>10 ^ 9\<close>, seconds not negative and below \<open>2 ^ 63 / 1000\<close>; that time does not go back is a
  hypothesis where it matters. \<^verbatim>\<open>stdio\<close> streams are byte lists with a capacity; in \<open>Potty\<close> a written record is in the
  file at once. What the system calls, \<^verbatim>\<open>inet_pton\<close> and the lookup of host names answer is an
  argument. The store actor of \<open>Actors\<close> keeps the resolved mutation that it feeds to the log after the response
  was sent: \<open>Arena_Race\<close> and \<open>Message_Memory\<close> show that the code may by then read it from reused or released memory;
  what it then reads is not modelled. In \<open>Message_Memory\<close> the sizes of allocations are arguments of the actions.

  Not modelled: the creation of threads (a started thread is a component of the state); \<^verbatim>\<open>potty_destroy\<close>, which is
  unimplemented in the code; \<^verbatim>\<open>parse_port\<close>, which nothing calls; as memory the small block with
  the socket that \<^verbatim>\<open>main\<close> hands to a connection, the struct of the persistence actor and its queue of jobs; the value of a
  double argument, which no command has and which keeps its text; messages of \<^verbatim>\<open>DEBUG_PRINTF\<close> other than the
  debug printers.
\<close>

section \<open>Properties across components\<close>

text \<open>
  C1: a restart keeps the store, over any number of restarts, for keys that do not collide. Start with the file of all earlier runs
  (\<open>old\<close>, empty the first time), serve any sequence of requests, let the persistence actor go idle after being fed the
  resulting log, stop the process and start it again: \<^verbatim>\<open>main\<close> replays the whole file without fault, logging is enabled again, and
  at every later time the store shows exactly the keys, values and expiries it would have shown without the restart.
  Conditions: all keys, of the file and of the requests, are in a set \<open>K\<close> that is \<open>separate\<close>, fewer than 128 keys with pairwise
  distinct home slots in the table of 256; \<^verbatim>\<open>calloc\<close> never fails; the readings of the clock are documented and do not go back;
  strings and log fit in \<^verbatim>\<open>size_t\<close>. For colliding keys it fails: \<open>colliding_keys_diverge\<close> in \<open>Separate_Keys\<close>.
\<close>

theorem restart_keeps_store:
  assumes "\<forall>n. cal n" and "separate K" and "\<forall>mu \<in> set old. persisted mu \<and> mutation_key mu \<in> K"
    and "main_boot cal (Opened \<lparr>rest = concat (map enc_mutation old), fails_after = None\<rparr>) = Inr (t0, n0)"
    and "requests_ok K t reqs"
    and "serve_requests cal \<lparr>wtank = t0, wlog = [], has_master = replica\<rparr> reqs = Inr (replies, w)"
    and "reachable c start space s" and "fed s = wlog w"
    and "ringbuf_is_empty (psewer (pt s))" and "hector_size (waste (pt s)) = 0" and "\<not> flusher_running (pt s)"
    and "list_all mutation_ok (old @ wlog w)" and "length (old @ wlog w) < SIZE_MOD" and "end_time t reqs \<le> now"
  shows "\<exists>tank. main_boot cal (Opened \<lparr>rest = concat (map enc_mutation old) @ written (aof s), fails_after = None\<rparr>) =
      Inr (tank, n0 + length (wlog w)) \<and> aof_enabled tank \<and>
    visible now (hashmap_get (tank_data tank)) = visible now (hashmap_get (tank_data (wtank w)))"
proof -
  have bytes: "concat (map enc_mutation old) @ written (aof s) = concat (map enc_mutation (old @ wlog w))"
    using idle_written [OF assms(7,9,10,11)] assms(8) by simp
  from restarted_alike [OF assms(1-6,12,13)] obtain tank where
    "main_boot cal (Opened (reading (concat (map enc_mutation (old @ wlog w))))) = Inr (tank, n0 + length (wlog w))"
    "aof_enabled tank" "alike K now (wlog w) w \<lparr>wtank = tank, wlog = [], has_master = replica\<rparr>"
    using alike_mono [OF _ assms(14)] by blast
  then show ?thesis unfolding bytes by (auto simp: alike_def)
qed

theorem restart_keeps_store_witness:
  "\<exists>replies w s tank. serve_requests (\<lambda>_. True) (new_world False) [set_c_request] = Inr (replies, w) \<and>
     reachable 100 0 1000 s \<and> fed s = wlog w \<and>
     main_boot (\<lambda>_. True) (Opened \<lparr>rest = written (aof s), fails_after = None\<rparr>) = Inr (tank, 1) \<and>
     visible 7000 (hashmap_get (tank_data tank)) ''c'' = Some (string_entry (- 1) ''v'')"
proof -
  obtain replies w where serve: "serve_requests (\<lambda>_. True) (new_world False) [set_c_request] = Inr (replies, w)"
    and log: "wlog w = [Set_mutation ''c'' ''v'' (- 1)]"
    and store: "hashmap_get (tank_data (wtank w)) ''c'' = Some (string_entry (- 1) ''v'')"
    using set_c_served by blast
  obtain s where s: "reachable 100 0 1000 s" "fed s = wlog w" "ringbuf_is_empty (psewer (pt s))"
      "hector_size (waste (pt s)) = 0" "\<not> flusher_running (pt s)"
    using set_c_flushed log by metis
  have ok: "list_all mutation_ok ([] @ wlog w)" "length ([] @ wlog w) < SIZE_MOD"
    by (simp_all add: log string_fits_def)
  have vis: "visible 7000 (hashmap_get (tank_data (wtank w))) ''c'' = Some (string_entry (- 1) ''v'')"
    using store by (simp add: visible_apply string_entry_def expired_at_def)
  have sep: "separate {''c''}" by (simp add: separate_def)
  have boot: "main_boot (\<lambda>_. True) (Opened \<lparr>rest = concat (map enc_mutation []), fails_after = None\<rparr>) =
      Inr (septic_tank_create, 0)"
    by (simp add: boot_empty)
  have "requests_ok {''c''} 0 [set_c_request]" "end_time 0 [set_c_request] \<le> 7000"
    by (simp_all add: set_c_request_def clock_ok_def ms_of_def)
  from restart_keeps_store [OF _ sep _ boot this(1) serve [unfolded new_world_def] s ok this(2)] obtain tank where
    "main_boot (\<lambda>_. True) (Opened \<lparr>rest = written (aof s), fails_after = None\<rparr>) = Inr (tank, 1)"
    "visible 7000 (hashmap_get (tank_data tank)) = visible 7000 (hashmap_get (tank_data (wtank w)))"
    by (auto simp: log)
  with serve s(1,2) vis show ?thesis by metis
qed

text \<open>
  C2: clients do not notice a restart, for keys that do not collide. Serve requests, let the persistence actor go idle after being fed
  the resulting log, stop the process and start it again from its file. Whatever clients connect (from addresses with a host
  name) and whatever requests they send, TTL apart, they get byte for byte the replies that the server would have sent
  had it not been stopped; it hands the same mutations to its log, and its store shows the same keys. Conditions: those of the theorem
  above, all keys in a \<open>separate\<close> set and \<^verbatim>\<open>calloc\<close> never failing among them, also for the later requests, whose
  bytes fit in the buffer of a connection, as do the replies. With colliding keys a client can see the restart: after the run of
  \<open>colliding_keys_diverge\<close> a GET of \<^verbatim>\<open>k\<close> gives the old value before and nothing after it.
\<close>

theorem restart_unnoticed:
  assumes "\<forall>n. cal n" and "separate K" and "\<forall>mu \<in> set old. persisted mu \<and> mutation_key mu \<in> K"
    and "main_boot cal (Opened \<lparr>rest = concat (map enc_mutation old), fails_after = None\<rparr>) = Inr (t0, n0)"
    and "requests_ok K t reqs"
    and "serve_requests cal \<lparr>wtank = t0, wlog = [], has_master = replica\<rparr> reqs = Inr (replies, w)"
    and "reachable c start space s" and "fed s = wlog w"
    and "ringbuf_is_empty (psewer (pt s))" and "hector_size (waste (pt s)) = 0" and "\<not> flusher_running (pt s)"
    and "list_all mutation_ok (old @ wlog w)" and "length (old @ wlog w) < SIZE_MOD"
    and "requests_ok K (end_time t reqs) (map as_request later)"
    and "\<forall>(fd, ws, ts, clk) \<in> set later. words_fit ws \<and> fd \<in> client_fd ` set as \<and> \<not> asks_ttl (Some (request ws))"
    and "serve_requests cal w (map as_request later) = Inr (replies', w')"
    and "main_options inet_pton argv = Inr (Listening serv p)" and "(maybe_master serv \<noteq> None) = replica"
    and "open_listener calls = Inr ()" and "list_all reachable_client as"
    and "aof_file calls = Opened \<lparr>rest = concat (map enc_mutation old) @ written (aof s), fails_after = None\<rparr>"
    and "\<forall>v \<in> set replies'. length (resp_enc v) < BUFFER_SIZE"
  shows "\<exists>conns w''. main inet_pton cal calls argv (map Incoming as @ map arrives later) =
      Inr (Serving p (zip (map fst later) (map resp_enc replies')) conns w'') \<and> wlog w' = wlog w @ wlog w'' \<and>
    (\<forall>now \<ge> end_time (end_time t reqs) (map as_request later).
       visible now (hashmap_get (tank_data (wtank w''))) = visible now (hashmap_get (tank_data (wtank w'))))"
proof -
  have bytes: "concat (map enc_mutation old) @ written (aof s) = concat (map enc_mutation (old @ wlog w))"
    using idle_written [OF assms(7,9,10,11)] assms(8) by simp
  from restarted_alike [OF assms(1-6,12,13)] obtain tank n where
    boot: "main_boot cal (aof_file calls) = Inr (tank, n)" and
    alike: "alike K (end_time t reqs) (wlog w) w \<lparr>wtank = tank, wlog = [], has_master = replica\<rparr>"
    unfolding assms(21) bytes by blast
  have "\<forall>(v, ts, clk) \<in> set (map as_request later). \<not> asks_ttl v" using assms(15) by fastforce
  from requests_alike [OF assms(1,2,14) this alike assms(16)] obtain w'' where
    later: "serve_requests cal \<lparr>wtank = tank, wlog = [], has_master = replica\<rparr> (map as_request later) = Inr (replies', w'')"
    and same: "alike K (end_time (end_time t reqs) (map as_request later)) (wlog w) w' w''" by blast
  have "\<forall>(fd, ws, ts, clk) \<in> set later. words_fit ws \<and> fd \<in> client_fd ` set as" using assms(15) by fastforce
  from clients_served [OF assms(20) this later assms(22)] obtain conns where
    "main inet_pton cal calls argv (map Incoming as @ map arrives later) =
      Inr (Serving p (zip (map fst later) (map resp_enc replies')) conns w'')"
    by (auto simp: main_def assms(17-19) boot simp del: not_None_eq)
  moreover have "wlog w' = wlog w @ wlog w''" using same by (simp add: alike_def)
  ultimately show ?thesis
    using alike_mono [OF same] by (intro exI [of _ conns] exI [of _ w'']) (auto simp: alike_def)
qed

theorem restart_unnoticed_witness:
  "\<exists>w s conns w''. serve_requests (\<lambda>_. True) (new_world False) [set_c_request] = Inr ([RESP_simple_string ''OK''], w) \<and>
     reachable 100 0 1000 s \<and> fed s = wlog w \<and>
     main (\<lambda>_. None) (\<lambda>_. True)
       \<lparr>socket_result = 3, bind_result = 0, listen_result = 0,
        aof_file = Opened \<lparr>rest = written (aof s), fails_after = None\<rparr>\<rparr> []
       [Incoming \<lparr>client_fd = 4, host_found = True, address_found = True, fresh_buffer = replicate BUFFER_SIZE NUL\<rparr>,
        arrives (4, [''GET'', ''c''], \<lparr>tv_sec = 7, tv_nsec = 0\<rparr>, at_second 7)] =
     Inr (Serving 6969 [(4, ''$1'' @ [CR, LF] @ ''v'' @ [CR, LF])] conns w'')"
proof -
  obtain w where serve: "serve_requests (\<lambda>_. True) (new_world False) [set_c_request] = Inr ([RESP_simple_string ''OK''], w)"
    and log: "wlog w = [Set_mutation ''c'' ''v'' (- 1)]"
    and store: "hashmap_get (tank_data (wtank w)) ''c'' = Some (string_entry (- 1) ''v'')"
    using set_c_served by blast
  obtain s where s: "reachable 100 0 1000 s" "fed s = wlog w" "ringbuf_is_empty (psewer (pt s))"
      "hector_size (waste (pt s)) = 0" "\<not> flusher_running (pt s)"
    using set_c_flushed log by metis
  let ?calls = "\<lparr>socket_result = 3, bind_result = 0, listen_result = 0, aof_file = Opened (reading (written (aof s)))\<rparr>"
  let ?client = "\<lparr>client_fd = 4, host_found = True, address_found = True, fresh_buffer = replicate BUFFER_SIZE NUL\<rparr>"
  let ?get = "(4, [''GET'', ''c''], \<lparr>tv_sec = 7, tv_nsec = 0\<rparr>, at_second 7) :: whole_request"
  have "clock_ok (at_second 7 0)" "visible (ms_of (at_second 7 0)) (hashmap_get (tank_data (wtank w))) ''c'' = Some (string_entry (- 1) ''v'')"
    using store by (simp_all add: clock_ok_def visible_apply string_entry_def expired_at_def)
  from get_reads [of "at_second 7", OF this, of "\<lambda>_. True" "\<lparr>tv_sec = 7, tv_nsec = 0\<rparr>"] obtain w' where
    get: "serve_requests (\<lambda>_. True) w (map as_request [?get]) = Inr ([RESP_bulk_string ''v''], w')"
    by (auto simp: request_def)
  have ok: "list_all mutation_ok ([] @ wlog w)" "length ([] @ wlog w) < SIZE_MOD"
    by (simp_all add: log string_fits_def)
  have sep: "separate {''c''}" by (simp add: separate_def)
  have boot: "main_boot (\<lambda>_. True) (Opened \<lparr>rest = concat (map enc_mutation []), fails_after = None\<rparr>) =
      Inr (septic_tank_create, 0)" by (simp add: boot_empty)
  have reqs: "requests_ok {''c''} 0 [set_c_request]"
      "requests_ok {''c''} (end_time 0 [set_c_request]) (map as_request [?get])"
    by (simp_all add: set_c_request_def request_def clock_ok_def ms_of_def)
  have one: "show_nat 2 = ''2''" "show_nat 3 = ''3''" "show_nat (Suc 0) = ''1''" by (simp_all add: show_nat.simps char_of_def bit_0)
  have fit: "\<forall>(fd, ws, ts, clk) \<in> set [?get]. words_fit ws \<and> fd \<in> client_fd ` set [?client] \<and> \<not> asks_ttl (Some (request ws))"
    by (simp add: words_fit_def request_def str_eq_ci_iff ascii_lower_def one numeral_2_eq_2 [symmetric] numeral_3_eq_3 [symmetric])
  have rest: "open_listener ?calls = Inr ()" "list_all reachable_client [?client]"
      "\<forall>v \<in> set [RESP_bulk_string ''v'']. length (resp_enc v) < BUFFER_SIZE"
      "(maybe_master create_server_instance \<noteq> None) = False"
      "aof_file ?calls = Opened (reading (concat (map enc_mutation []) @ written (aof s)))"
    by (simp_all add: open_listener_def reachable_client_def create_server_instance_def one)
  from restart_unnoticed [OF _ sep _ boot reqs(1) serve [unfolded new_world_def] s ok reqs(2) fit get no_arguments [of "\<lambda>_. None"] rest(4,1,2,5,3)]
  obtain conns w'' where "main (\<lambda>_. None) (\<lambda>_. True) ?calls [] (map Incoming [?client] @ map arrives [?get]) =
      Inr (Serving 6969 (zip (map fst [?get]) (map resp_enc [RESP_bulk_string ''v''])) conns w'')" by auto
  with serve s(1,2) show ?thesis by (auto simp: one simp del: arrives.simps)
qed

text \<open>
  C5: a crash loses only the latest turns, or is detected, for keys that do not collide. Start with the file of all earlier runs,
  stop the whole system, clients, store actor and persistence threads in any interleaving, at any moment, and keep any prefix
  of the bytes written to the file since. If the prefix ends between two records, the next start replays the file without fault,
  and the recovered store shows exactly what the store of the actor showed after some earlier number \<open>k\<close> of the
  turns it had taken. If it ends inside a record, the next start refuses the file and ends the process. Conditions: all keys, of the
  file and of the operations served, are in a \<open>separate\<close> set (fewer than 128 keys with pairwise distinct home slots);
  \<^verbatim>\<open>calloc\<close> never fails; clock readings are documented and do not go back. For colliding keys the recovered store
  can differ (\<open>colliding_keys_diverge\<close> in \<open>Separate_Keys\<close>).
\<close>

theorem crash_keeps_prefix:
  assumes "\<forall>n. cal n" and "separate K" and "\<forall>mu \<in> set old. persisted mu \<and> mutation_key mu \<in> K"
    and "main_boot cal (Opened \<lparr>rest = concat (map enc_mutation old), fails_after = None\<rparr>) = Inr (t0, n0)"
    and "actors_reachable cal t0 tc pc start space s"
    and "\<forall>(i, op, clk) \<in> set (served s). op_key op \<in> K" and "clocks_ok t (map snd (served s))"
    and "list_all mutation_ok (old @ fed (psys s))" and "length (old @ fed (psys s)) < SIZE_MOD"
    and "p @ lost = written (aof (psys s))"
  shows "if \<exists>n. p = concat (map enc_mutation (take n (fed (psys s))))
    then \<exists>n tk k live answers.
      main_boot cal (Opened \<lparr>rest = concat (map enc_mutation old) @ p, fails_after = None\<rparr>) = Inr (tk, n0 + n) \<and>
      aof_enabled tk \<and> p = concat (map enc_mutation (take n (fed (psys s)))) \<and> k \<le> length (served s) \<and>
      actor_run cal t0 (take k (served s)) = Inr (live, answers, take n (fed (psys s))) \<and>
      (\<forall>now \<ge> last_reading t (take k (map snd (served s))).
         visible now (hashmap_get (tank_data tk)) = visible now (hashmap_get (tank_data live)))
    else main_boot cal (Opened \<lparr>rest = concat (map enc_mutation old) @ p, fails_after = None\<rparr>) = Inl Panic"
proof -
  note restored = log_prefix_restored [OF assms(1-9)]
  let ?log = "fed (psys s)" and ?old = "concat (map enc_mutation old)"
  obtain out where out: "written (aof (psys s)) = concat (map enc_mutation out)" "out @ in_flight (psys s) = ?log"
    using reachable_inv [of pc start space "psys s"] actors_inv [OF assms(5)] unfolding potty_inv_def by blast
  have "p @ lost @ concat (map enc_mutation (in_flight (psys s))) = concat (map enc_mutation ?log)"
    using assms(10) out(1) by (simp flip: out(2) append_assoc)
  from records_prefix [OF this] obtain n where n: "n \<le> length ?log" and p: "p = concat (map enc_mutation (take n ?log)) \<or>
      (\<exists>torn missing. p = concat (map enc_mutation (take n ?log)) @ torn \<and> n < length ?log \<and>
         torn @ missing = enc_mutation (?log ! n) \<and> torn \<noteq> [] \<and> missing \<noteq> [])"
    by blast
  show ?thesis
  proof (cases "p = concat (map enc_mutation (take n ?log))")
    case True
    with restored(2) [OF n] show ?thesis by auto metis
  next
    case False
    with p obtain torn missing where t: "p = concat (map enc_mutation (take n ?log)) @ torn" "n < length ?log"
        "torn @ missing = enc_mutation (?log ! n)" "torn \<noteq> []" "missing \<noteq> []" by blast
    have panic: "main_boot cal (Opened (reading (?old @ p))) = Inl Panic"
      using boot_torn [OF assms(1,2) conjunct2 [OF restored(1)] assms(8,9), of "length old + n" torn missing] t(2-5)
      by (simp add: t(1))
    have "take (min m (length ?log)) ?log = take m ?log" for m by (simp add: min_def)
    with restored(2) panic have "\<not> (\<exists>m. p = concat (map enc_mutation (take m ?log)))"
      by (metis Inl_Inr_False min.cobounded2)
    with panic show ?thesis by simp
  qed
qed

theorem crash_keeps_prefix_witness:
  "\<exists>s. actors_reachable (\<lambda>_. True) septic_tank_create 5 5 0 1000 s \<and>
     served s = [(3, plain_set ''c'' ''v'', at_second 5)] \<and> fed (psys s) = [Set_mutation ''c'' ''v'' (- 1)] \<and>
     (\<exists>tk. main_boot (\<lambda>_. True) (Opened \<lparr>rest = [], fails_after = None\<rparr>) = Inr (tk, 0))"
proof -
  obtain s where r: "actors_reachable (\<lambda>_. True) septic_tank_create 5 5 0 1000 s"
    and served: "served s = [(3, plain_set ''c'' ''v'', at_second 5)]"
    and log: "fed (psys s) = [Set_mutation ''c'' ''v'' (- 1)]"
    using set_run by blast
  have sep: "separate {''c''}" by (simp add: separate_def)
  have boot: "main_boot (\<lambda>_. True) (Opened \<lparr>rest = concat (map enc_mutation []), fails_after = None\<rparr>) =
      Inr (septic_tank_create, 0)"
    by (simp add: boot_empty)
  have keys: "\<forall>(i, op, clk) \<in> set (served s). op_key op \<in> {''c''}" by (simp add: served plain_set_def)
  have clocks: "clocks_ok 0 (map snd (served s))" by (simp add: served clock_ok_def ms_of_def)
  have ok: "list_all mutation_ok ([] @ fed (psys s))" "length ([] @ fed (psys s)) < SIZE_MOD"
    by (simp_all add: log string_fits_def)
  have "\<exists>n. [] = concat (map enc_mutation (take n (fed (psys s))))" by (rule exI [of _ 0]) simp
  with crash_keeps_prefix [OF _ sep _ boot r keys clocks ok, of "[]" "written (aof (psys s))"] obtain n tk where
    b: "main_boot (\<lambda>_. True) (Opened \<lparr>rest = [], fails_after = None\<rparr>) = Inr (tk, n)"
    and z: "[] = concat (map enc_mutation (take n (fed (psys s))))" by (auto split: if_splits)
  have "enc_mutation (Set_mutation ''c'' ''v'' (- 1)) \<noteq> []" by simp
  with z log have "n = 0" by (cases n) auto
  with b r served log show ?thesis by metis
qed

end
